(* ===== verification/Prelude.thy ===== *)
theory Prelude
  imports Main "HOL-Library.Word"
begin

unbundle bit_operations_syntax

text \<open>
  What the components share: the machine integer types, the error numbers, C's bit-field
  macros, the interface of a sysctl handler, and the generic lemmas on words, lists and
  functions that the component proofs use.

  Conventions. An \<open>errno option\<close> is a kernel function's \<open>int\<close> error result, with
  \<open>None\<close> for 0. A C \<open>int\<close> that the code only compares and stores is an \<open>int\<close>;
  integers whose wrap-around the code relies on are words. Arrays indexed by CPU, priority or
  wheel slot are functions from \<open>nat\<close>, and the code's index checks are kept as guards.
\<close>

named_theorems flag_simps \<open>tests and updates of single flag bits\<close>
named_theorems frame_simps \<open>fields an operation does not write\<close>

section \<open>Machine integers\<close>

type_synonym u8 = "8 word"
type_synonym u32 = "32 word"
type_synonym u64 = "64 word"

abbreviation INT_MAX :: int where "INT_MAX \<equiv> 2147483647"

section \<open>Error numbers\<close>

datatype errno =
    EPERM | EIO | ENXIO | ENOMEM | EFAULT | EBUSY | ENODEV | EINVAL | ENOTTY | EINTR
  | EWOULDBLOCK | EOPNOTSUPP | ELOOP | EMSGSIZE | EOVERFLOW | EDEADLK | EBADF | ENOENT | EEXIST
  | EFBIG | ENAMETOOLONG | EACCES | EROFS | ENFILE | EMFILE | ERESTART | ETIMEDOUT | EALREADY | ESRCH

section \<open>The platform\<close>

text \<open>
  What the kernel sources take from headers and code that are not part of the repository:
  \<^verbatim>\<open>fls64\<close> of \<^verbatim>\<open>sys/bitops.h\<close>, the constant \<^verbatim>\<open>MAXCPUS\<close>, the measured
  frequency of a CPU, the tick rate \<^verbatim>\<open>hz\<close> and \<^verbatim>\<open>mstohz\<close>.
\<close>

record platform =
  fls64 :: "u64 \<Rightarrow> nat"
  MAXCPUS :: nat
  cpu_frequency :: "nat \<Rightarrow> u64"
  hz :: int
  mstohz :: "int \<Rightarrow> int"

text \<open>The documented behaviour of \<^verbatim>\<open>fls64\<close>: the number of the last bit set, from 1.\<close>

definition fls64_doc :: "platform \<Rightarrow> bool" where
  "fls64_doc P \<longleftrightarrow> (\<forall>x. x \<noteq> 0 \<longrightarrow> 0 < fls64 P x \<and> 2 ^ (fls64 P x - 1) \<le> unat x \<and> unat x < 2 ^ fls64 P x)"

section \<open>Formatted output\<close>

text \<open>
  \<open>dec\<close> is the text \<^verbatim>\<open>printf\<close> produces for an unsigned number. \<open>snprintf_at\<close> is the
  kernel's idiom \<^verbatim>\<open>len += snprintf(buf + len, size - len, ...)\<close> on a buffer whose text so far
  has length \<open>len\<close>: the length counts the whole piece, the buffer receives what fits before
  the terminating NUL.
\<close>

fun dec :: "nat \<Rightarrow> string" where
  "dec n = (if n < 10 then [char_of (48 + n)] else dec (n div 10) @ [char_of (48 + n mod 10)])"

declare dec.simps [simp del]

definition snprintf_at :: "nat \<Rightarrow> string \<Rightarrow> nat \<times> string \<Rightarrow> nat \<times> string" where
  "snprintf_at sz piece lb =
    (fst lb + length piece, take (fst lb) (snd lb) @ take (sz - 1 - fst lb) piece)"

lemma length_dec: "n < 10 ^ k \<Longrightarrow> 0 < k \<Longrightarrow> length (dec n) \<le> k"
proof (induction n arbitrary: k rule: dec.induct)
  case (1 n)
  show ?case
  proof (cases "n < 10")
    case True
    then show ?thesis using 1 by (simp add: dec.simps [of n])
  next
    case False
    then obtain j where k: "k = Suc j" "0 < j"
      using 1 by (cases k; cases "k - 1") auto
    then have "n div 10 < 10 ^ j" using 1 by (simp add: less_mult_imp_div_less mult.commute)
    then show ?thesis using 1(1) [OF False _ k(2)] k by (simp add: dec.simps [of n] False)
  qed
qed

lemma snprintf_at_fits:
  "length buf = len \<Longrightarrow> len + length piece < sz \<Longrightarrow>
   snprintf_at sz piece (len, buf) = (len + length piece, buf @ piece)"
  by (simp add: snprintf_at_def)

section \<open>Words\<close>

lemma unat_diff_wrap:
  fixes a b :: "'a::len word"
  shows "unat (a - b) = (if unat b \<le> unat a then unat a - unat b else 2 ^ LENGTH('a) + unat a - unat b)"
  using unat_sub_if' [of a b] by (simp add: add.commute)

lemma unat_u32: "unat (x :: u32) < 4294967296"
  using unsigned_less [of x] by simp

lemma unat_u64: "unat (x :: u64) < 18446744073709551616"
  using unsigned_less [of x] by simp

section \<open>Sysctl handlers\<close>

text \<open>
  \<^verbatim>\<open>sysctl_lookup\<close> is the kernel's, not this repository's. It is a parameter: given whether
  the caller passes a new value and the current value of the handler's copy, it returns an error
  or \<open>None\<close>, and the value the copy holds afterwards.
\<close>

type_synonym sysctl_lookup = "int option \<Rightarrow> int \<Rightarrow> errno option \<times> int"

text \<open>
  The contract every integer knob of the repository keeps: an error leaves the state as it was,
  and the knob changes only through a successful write of a value between its bounds. A sequence
  of handler calls then keeps the knob between its bounds.
\<close>

locale int_knob =
  fixes handler :: "sysctl_lookup \<Rightarrow> int option \<Rightarrow> 's \<Rightarrow> errno option \<times> 's"
    and knob :: "'s \<Rightarrow> int" and lo hi :: int
  assumes knob_error: "handler lk newp s = (Some e, s') \<Longrightarrow> s' = s"
    and knob_write: "handler lk newp s = (None, s') \<Longrightarrow>
      knob s' = knob s \<or> newp \<noteq> None \<and> lo \<le> knob s' \<and> knob s' \<le> hi"
    and knob_read: "handler lk None s = (err, s') \<Longrightarrow> s' = s"
begin

definition call :: "sysctl_lookup \<times> int option \<Rightarrow> 's \<Rightarrow> 's" where
  "call c s = snd (handler (fst c) (snd c) s)"

lemma call_keeps_range:
  assumes "lo \<le> knob s" "knob s \<le> hi"
  shows "lo \<le> knob (call c s) \<and> knob (call c s) \<le> hi"
proof -
  obtain e s' where h: "handler (fst c) (snd c) s = (e, s')" by fastforce
  then show ?thesis
    using assms knob_error [of "fst c" "snd c" s] knob_write [of "fst c" "snd c" s s']
    by (cases e) (auto simp: call_def)
qed

lemma calls_keep_range:
  "lo \<le> knob s \<Longrightarrow> knob s \<le> hi \<Longrightarrow> lo \<le> knob (fold call cs s) \<and> knob (fold call cs s) \<le> hi"
  by (induction cs arbitrary: s) (simp_all add: call_keeps_range)

end

end
