(* ===== verification/Circq.thy ===== *)
theory Circq
  imports Prelude
begin

text \<open>
  The circular queues of \<^verbatim>\<open>kernel/kern/kern_timeout.c\<close> at the level of the code's
  pointers: every queue head and every queued callout is a cell with a next and a previous
  pointer, and the macros write these cells in the order the source does. The theory shows
  that the macros implement lists: initialising, inserting, appending and removing act on the
  queues as \<open>[]\<close>, appending at the end, concatenation and \<open>remove1\<close>, and leave every
  other queue alone. The callout model in theory \<open>Callout\<close> works with these lists.
\<close>

section \<open>Cells and macros\<close>

type_synonym addr = nat

record circq_heap =
  cq_next :: "addr \<Rightarrow> addr"
  cq_prev :: "addr \<Rightarrow> addr"

definition CIRCQ_INIT :: "addr \<Rightarrow> circq_heap \<Rightarrow> circq_heap" where
  "CIRCQ_INIT list h =
     (let h1 = h\<lparr>cq_next := (cq_next h)(list := list)\<rparr>
      in h1\<lparr>cq_prev := (cq_prev h1)(list := list)\<rparr>)"

definition CIRCQ_INSERT :: "addr \<Rightarrow> addr \<Rightarrow> circq_heap \<Rightarrow> circq_heap" where
  "CIRCQ_INSERT elem list h =
     (let h1 = h\<lparr>cq_prev := (cq_prev h)(elem := cq_prev h list)\<rparr>;
          h2 = h1\<lparr>cq_next := (cq_next h1)(elem := list)\<rparr>;
          h3 = h2\<lparr>cq_next := (cq_next h2)(cq_prev h2 list := elem)\<rparr>
      in h3\<lparr>cq_prev := (cq_prev h3)(list := elem)\<rparr>)"

definition CIRCQ_FIRST :: "addr \<Rightarrow> circq_heap \<Rightarrow> addr" where
  "CIRCQ_FIRST list h = cq_next h list"

definition CIRCQ_NEXT :: "addr \<Rightarrow> circq_heap \<Rightarrow> addr" where
  "CIRCQ_NEXT elem h = cq_next h elem"

definition CIRCQ_LAST :: "addr \<Rightarrow> addr \<Rightarrow> circq_heap \<Rightarrow> bool" where
  "CIRCQ_LAST elem list h \<longleftrightarrow> cq_next h elem = list"

definition CIRCQ_EMPTY :: "addr \<Rightarrow> circq_heap \<Rightarrow> bool" where
  "CIRCQ_EMPTY list h \<longleftrightarrow> cq_next h list = list"

definition CIRCQ_APPEND :: "addr \<Rightarrow> addr \<Rightarrow> circq_heap \<Rightarrow> circq_heap" where
  "CIRCQ_APPEND fst_l snd_l h =
     (if \<not> CIRCQ_EMPTY snd_l h then
        let h1 = h\<lparr>cq_next := (cq_next h)(cq_prev h fst_l := cq_next h snd_l)\<rparr>;
            h2 = h1\<lparr>cq_prev := (cq_prev h1)(cq_next h1 snd_l := cq_prev h1 fst_l)\<rparr>;
            h3 = h2\<lparr>cq_next := (cq_next h2)(cq_prev h2 snd_l := fst_l)\<rparr>;
            h4 = h3\<lparr>cq_prev := (cq_prev h3)(fst_l := cq_prev h3 snd_l)\<rparr>
        in CIRCQ_INIT snd_l h4
      else h)"

definition CIRCQ_REMOVE :: "addr \<Rightarrow> circq_heap \<Rightarrow> circq_heap" where
  "CIRCQ_REMOVE elem h =
     (let h1 = h\<lparr>cq_prev := (cq_prev h)(cq_next h elem := cq_prev h elem)\<rparr>
      in h1\<lparr>cq_next := (cq_next h1)(cq_prev h1 elem := cq_next h1 elem)\<rparr>)"

section \<open>Queues as lists\<close>

text \<open>Consecutive cells of a list point at each other.\<close>

fun linked :: "circq_heap \<Rightarrow> addr list \<Rightarrow> bool" where
  "linked h (x # y # ys) \<longleftrightarrow> cq_next h x = y \<and> cq_prev h y = x \<and> linked h (y # ys)"
| "linked h _ \<longleftrightarrow> True"

definition circq :: "circq_heap \<Rightarrow> addr \<Rightarrow> addr list \<Rightarrow> bool" where
  "circq h l xs \<longleftrightarrow> distinct (l # xs) \<and> linked h (l # xs @ [l])"

text \<open>A heap represents a family of queues, given by their heads and their contents.\<close>

definition queues :: "addr set \<Rightarrow> circq_heap \<Rightarrow> (addr \<Rightarrow> addr list) \<Rightarrow> bool" where
  "queues H h Q \<longleftrightarrow>
     (\<forall>l\<in>H. circq h l (Q l)) \<and>
     (\<forall>l\<in>H. \<forall>m\<in>H. l \<noteq> m \<longrightarrow> set (l # Q l) \<inter> set (m # Q m) = {})"

lemma linked_append: "linked h (xs @ a # ys) \<longleftrightarrow> linked h (xs @ [a]) \<and> linked h (a # ys)"
  by (induction h xs rule: linked.induct) auto

lemma linked_prefix: "linked h (xs @ ys) \<Longrightarrow> linked h xs"
  by (induction h xs rule: linked.induct) auto

lemma linked_tl: "linked h (x # xs) \<Longrightarrow> linked h xs"
  by (cases xs) auto

lemma linked_suffix: "linked h (xs @ ys) \<Longrightarrow> linked h ys"
  by (induction xs) (auto dest: linked_tl)

text \<open>A queue's cells depend on the next pointers and previous pointers of its own cells only.\<close>

lemma linked_cong:
  "(\<And>x. x \<in> set (butlast xs) \<Longrightarrow> cq_next g x = cq_next h x) \<Longrightarrow>
   (\<And>x. x \<in> set (tl xs) \<Longrightarrow> cq_prev g x = cq_prev h x) \<Longrightarrow> linked g xs = linked h xs"
  by (induction h xs rule: linked.induct) auto

lemma circq_cong:
  "(\<And>x. x \<in> set (l # xs) \<Longrightarrow> cq_next g x = cq_next h x) \<Longrightarrow>
   (\<And>x. x \<in> set (l # xs) \<Longrightarrow> cq_prev g x = cq_prev h x) \<Longrightarrow> circq g l xs = circq h l xs"
  unfolding circq_def by (intro conj_cong refl linked_cong) (auto simp: butlast_append)

section \<open>The macros act as list operations\<close>

lemma circq_last:
  assumes "circq h l xs"
  obtains ws z where "l # xs = ws @ [z]" "cq_prev h l = z" "cq_next h z = l"
    "linked h (ws @ [z])" "distinct (ws @ [z])" "l \<notin> set (tl (ws @ [z]))"
proof -
  obtain ws z where wz: "l # xs = ws @ [z]" by (metis append_butlast_last_id list.distinct(1))
  have "linked h (ws @ z # [l])"
    using assms wz unfolding circq_def by (metis append_Cons append_assoc append_Nil)
  then have "linked h (ws @ [z])" "cq_prev h l = z" "cq_next h z = l"
    using linked_append [of h ws z "[l]"] by auto
  moreover have "distinct (ws @ [z])" "l \<notin> set (tl (ws @ [z]))"
    using assms wz unfolding circq_def by (metis, metis distinct.simps(2) list.sel(3))
  ultimately show ?thesis using wz that by blast
qed

lemma circq_first:
  assumes "circq h l xs" shows "cq_next h l = hd (xs @ [l])"
  using assms unfolding circq_def by (cases xs) auto

lemma circq_empty: "circq h l xs \<Longrightarrow> CIRCQ_EMPTY l h \<longleftrightarrow> xs = []"
  using circq_first [of h l xs] unfolding CIRCQ_EMPTY_def circq_def by (cases xs) auto

lemma circq_init: "circq (CIRCQ_INIT l h) l []"
  by (simp add: circq_def CIRCQ_INIT_def Let_def)

lemma circq_insert:
  assumes q: "circq h l xs" and e: "e \<notin> set (l # xs)"
  shows "circq (CIRCQ_INSERT e l h) l (xs @ [e])"
proof -
  from q obtain ws z where wz: "l # xs = ws @ [z]" "cq_prev h l = z" "linked h (ws @ [z])"
    "distinct (ws @ [z])" "l \<notin> set (tl (ws @ [z]))" by (rule circq_last)
  let ?g = "CIRCQ_INSERT e l h"
  have "set (l # xs) = insert z (set ws)" using arg_cong [OF wz(1), of set] by simp
  moreover have tl: "tl (ws @ [z]) = xs" using wz(1) by (metis list.sel(3))
  ultimately have ez: "e \<noteq> z" "e \<notin> set ws" "e \<noteq> l" using e by auto
  have n: "cq_next ?g = (cq_next h)(e := l, z := e)" and p: "cq_prev ?g = (cq_prev h)(e := z, l := e)"
    using wz(2) ez by (auto simp: CIRCQ_INSERT_def Let_def)
  have "linked ?g (ws @ [z]) = linked h (ws @ [z])"
    using ez wz(4,5) e tl by (intro linked_cong) (auto simp: n p)
  moreover have "linked ?g [z, e, l]" using ez by (auto simp: n p)
  ultimately have "linked ?g (ws @ z # [e, l])" using wz(3) linked_append by blast
  moreover have "l # (xs @ [e]) @ [l] = ws @ z # [e, l]"
    using wz(1) by (metis append_Cons append_Nil append_assoc)
  ultimately have "linked ?g (l # (xs @ [e]) @ [l])" by (simp only:)
  moreover have "distinct (l # xs @ [e])" using q e unfolding circq_def by auto
  ultimately show ?thesis unfolding circq_def by (rule conjI [rotated])
qed

lemma circq_remove:
  assumes q: "circq h l xs" and e: "e \<in> set xs"
  shows "circq (CIRCQ_REMOVE e h) l (remove1 e xs)"
proof -
  from e obtain ys zs where xs: "xs = ys @ e # zs" "e \<notin> set ys" by (meson split_list_first)
  obtain us a where ua: "l # ys = us @ [a]" by (metis append_butlast_last_id list.distinct(1))
  obtain b vs where bv: "zs @ [l] = b # vs" by (metis append_is_Nil_conv list.exhaust not_Cons_self2)
  have eq: "l # xs @ [l] = us @ a # e # b # vs" using xs ua bv by (metis append_Cons append_Nil append_assoc)
  have lk: "linked h (us @ a # e # b # vs)" and d: "distinct (l # xs)"
    using q eq unfolding circq_def by auto
  from lk have parts: "linked h (us @ [a])" "linked h (b # vs)"
    "cq_next h a = e" "cq_prev h e = a" "cq_next h e = b" "cq_prev h b = e"
    using linked_append [of h us a "e # b # vs"] by auto
  let ?g = "CIRCQ_REMOVE e h"
  have ends: "tl (us @ [a]) = ys" "butlast (b # vs) = zs"
    using ua bv by (metis list.sel(3), metis butlast_snoc)
  have sets: "set (us @ [a]) = insert l (set ys)" "set (b # vs) = insert l (set zs)"
    using arg_cong [OF ua, of set] arg_cong [OF bv, of set] by auto
  have "distinct (us @ [a])" "distinct (b # vs)"
    using d xs by (simp_all flip: ua bv)
  moreover have "b \<notin> set ys" "a \<notin> set zs" "e \<noteq> a" "e \<noteq> b"
    using sets d xs by auto
  ultimately have ne: "e \<noteq> b" "e \<noteq> a" "a \<notin> set us" "b \<notin> set (tl (us @ [a]))"
    "a \<notin> set (butlast (b # vs))" "b \<notin> set vs"
    unfolding ends by auto
  have n: "cq_next ?g = (cq_next h)(a := b)" and p: "cq_prev ?g = (cq_prev h)(b := a)"
    using parts ne by (auto simp: CIRCQ_REMOVE_def Let_def)
  have "linked ?g (us @ [a])" using parts(1) ne
    by (subst linked_cong [of _ _ h]) (auto simp: n p)
  moreover have "linked ?g (b # vs)" using parts(2) ne
    by (subst linked_cong [of _ _ h]) (auto simp: n p)
  ultimately have "linked ?g (us @ a # b # vs)"
    using linked_append [of ?g us a "b # vs"] by (auto simp: n p)
  moreover have "l # remove1 e xs @ [l] = us @ a # b # vs"
    using xs ua bv by (simp add: remove1_append)
  moreover have "distinct (l # remove1 e xs)" using d by (auto dest: notin_set_remove1)
  ultimately show ?thesis unfolding circq_def by simp
qed

lemma circq_ends:
  assumes "circq h l xs"
  shows "cq_next h l = hd (xs @ [l])" "cq_prev h l = last (l # xs)"
    "xs \<noteq> [] \<Longrightarrow> cq_next h (last xs) = l" "linked h xs"
proof -
  from assms obtain ws z where wz: "l # xs = ws @ [z]" "cq_prev h l = z" "cq_next h z = l"
    by (rule circq_last)
  have z: "last (l # xs) = z" unfolding wz(1) by simp
  show "cq_next h l = hd (xs @ [l])" by (rule circq_first [OF assms])
  show "cq_prev h l = last (l # xs)" unfolding wz(2) z ..
  show "xs \<noteq> [] \<Longrightarrow> cq_next h (last xs) = l" using z wz(3) by simp
  show "linked h xs"
    using assms linked_suffix [of h "[l]" "xs @ [l]"] linked_prefix [of h xs "[l]"]
    unfolding circq_def by simp
qed

lemma linked_join:
  assumes "ys \<noteq> []"
  shows "linked h ((ws @ [z]) @ ys @ [f]) \<longleftrightarrow>
    linked h (ws @ [z]) \<and> linked h [z, hd ys] \<and> linked h ys \<and> linked h [last ys, f]"
proof -
  from assms obtain b vs where b: "ys = b # vs" by (cases ys) auto
  from assms obtain us y where y: "ys = us @ [y]" by (cases ys rule: rev_cases) auto
  have "linked h (ys @ [f]) \<longleftrightarrow> linked h ys \<and> linked h [last ys, f]"
    using linked_append [of h us y "[f]"] by (simp add: y)
  moreover have "linked h (z # ys @ [f]) \<longleftrightarrow> linked h [z, hd ys] \<and> linked h (ys @ [f])"
    by (simp add: b)
  ultimately show ?thesis using linked_append [of h ws z "ys @ [f]"] by simp
qed

lemma append_pointers:
  assumes f: "circq h f xs" and s: "circq h s ys" and "ys \<noteq> []"
    and dis: "set (f # xs) \<inter> set (s # ys) = {}"
  shows "cq_next (CIRCQ_APPEND f s h) = (cq_next h)(last (f # xs) := hd ys, last ys := f, s := s)"
    "cq_prev (CIRCQ_APPEND f s h) = (cq_prev h)(hd ys := last (f # xs), f := last ys, s := s)"
proof -
  have mem: "last (f # xs) \<in> set (f # xs)" "hd ys \<in> set ys" "last ys \<in> set ys"
    using \<open>ys \<noteq> []\<close> last_in_set [of "f # xs"] by auto
  then have ne: "last (f # xs) \<noteq> s" "f \<noteq> s" "hd ys \<noteq> f" "last ys \<noteq> last (f # xs)"
    "last ys \<noteq> s" "hd ys \<noteq> s"
    using dis s unfolding circq_def by auto
  have "\<not> CIRCQ_EMPTY s h" using circq_empty [OF s] \<open>ys \<noteq> []\<close> by simp
  then show "cq_next (CIRCQ_APPEND f s h) = (cq_next h)(last (f # xs) := hd ys, last ys := f, s := s)"
    "cq_prev (CIRCQ_APPEND f s h) = (cq_prev h)(hd ys := last (f # xs), f := last ys, s := s)"
    using ne circq_ends(1,2) [OF f] circq_ends(1,2) [OF s] \<open>ys \<noteq> []\<close>
    by (simp_all add: CIRCQ_APPEND_def CIRCQ_INIT_def Let_def last_ConsR del: last.simps)
qed

lemma circq_append_fst:
  assumes f: "circq h f xs" and s: "circq h s ys" and ys: "ys \<noteq> []"
    and dis: "set (f # xs) \<inter> set (s # ys) = {}"
  shows "circq (CIRCQ_APPEND f s h) f (xs @ ys)"
proof -
  let ?g = "CIRCQ_APPEND f s h"
  from f obtain ws z where wz: "f # xs = ws @ [z]" "linked h (ws @ [z])"
    "distinct (ws @ [z])" "f \<notin> set (tl (ws @ [z]))" by (rule circq_last)
  have z: "last (f # xs) = z" unfolding wz(1) by simp
  note np = append_pointers [OF assms, unfolded z]
  have tl: "tl (ws @ [z]) = xs" unfolding wz(1) [symmetric] by simp
  have setw: "set (f # xs) = set (ws @ [z])" by (simp only: wz(1))
  have dys: "distinct ys" "s \<notin> set ys" using s unfolding circq_def by auto
  have "last ys \<notin> set (butlast ys)" using dys ys by (cases ys rule: rev_cases) auto
  moreover have "hd ys \<notin> set (tl ys)" using dys ys by (cases ys) auto
  moreover have "set (butlast ys) \<subseteq> set ys" "set (tl ys) \<subseteq> set ys"
    by (auto dest: in_set_butlastD list.set_sel(2) [OF ys])
  ultimately have ends: "last ys \<notin> set (butlast ys)" "hd ys \<notin> set (tl ys)"
    "set (butlast ys) \<subseteq> set ys" "set (tl ys) \<subseteq> set ys" "hd ys \<in> set ys" "last ys \<in> set ys"
    using ys by auto
  have zin: "z \<in> set (f # xs)" unfolding setw by simp
  have "linked ?g (ws @ [z]) = linked h (ws @ [z])"
  proof (rule linked_cong)
    fix x assume "x \<in> set (butlast (ws @ [z]))"
    then have "x \<in> set (f # xs)" "x \<noteq> z" using wz(3) unfolding setw by auto
    then show "cq_next ?g x = cq_next h x" using ends(6) dis by (auto simp: np(1))
  next
    fix x assume "x \<in> set (tl (ws @ [z]))"
    then have "x \<in> set xs" "x \<noteq> f" using wz(4) tl by auto
    then show "cq_prev ?g x = cq_prev h x" using ends(5) dis by (auto simp: np(2))
  qed
  moreover have "linked ?g ys = linked h ys"
  proof (rule linked_cong)
    fix x assume "x \<in> set (butlast ys)"
    then have "x \<in> set ys" "x \<noteq> last ys" using ends(1,3) by auto
    then show "cq_next ?g x = cq_next h x" using zin dis dys by (auto simp: np(1))
  next
    fix x assume "x \<in> set (tl ys)"
    then have "x \<in> set ys" "x \<noteq> hd ys" using ends(2,4) by auto
    then show "cq_prev ?g x = cq_prev h x" using dis dys by (auto simp: np(2))
  qed
  moreover have "linked ?g [z, hd ys]" "linked ?g [last ys, f]"
    using dis ends(5,6) dys zin by (auto simp: np)
  ultimately have "linked ?g ((ws @ [z]) @ ys @ [f])" using wz(2) circq_ends(4) [OF s] unfolding linked_join [OF ys] by blast
  moreover have "f # (xs @ ys) @ [f] = (ws @ [z]) @ ys @ [f]"
    using wz(1) by (metis append_Cons append_assoc)
  ultimately have "linked ?g (f # (xs @ ys) @ [f])" by (simp only:)
  moreover have "distinct (f # xs @ ys)" using f s dis unfolding circq_def by auto
  ultimately show ?thesis unfolding circq_def by (rule conjI [rotated])
qed

lemma circq_append:
  assumes f: "circq h f xs" and s: "circq h s ys" and dis: "set (f # xs) \<inter> set (s # ys) = {}"
  shows "circq (CIRCQ_APPEND f s h) f (xs @ ys)" "circq (CIRCQ_APPEND f s h) s []"
proof -
  show "circq (CIRCQ_APPEND f s h) f (xs @ ys)"
  proof (cases "ys = []")
    case True
    with circq_empty [OF s] f show ?thesis by (simp add: CIRCQ_APPEND_def)
  qed (rule circq_append_fst [OF f s _ dis])
  show "circq (CIRCQ_APPEND f s h) s []"
    using s circq_empty [OF s] by (auto simp: CIRCQ_APPEND_def Let_def circq_init)
qed

section \<open>The interface the callout code uses\<close>

text \<open>
  What a user of the queues relies on: \<open>rep h Q\<close> says that the heap \<open>h\<close> holds, at each
  head \<open>l\<close>, the queue \<open>Q l\<close>.
\<close>

locale queue_family =
  fixes rep :: "'h \<Rightarrow> (addr \<Rightarrow> addr list) \<Rightarrow> bool"
    and heads :: "addr set"
    and insert_tail :: "addr \<Rightarrow> addr \<Rightarrow> 'h \<Rightarrow> 'h"
    and append_all :: "addr \<Rightarrow> addr \<Rightarrow> 'h \<Rightarrow> 'h"
    and remove :: "addr \<Rightarrow> 'h \<Rightarrow> 'h"
    and first :: "addr \<Rightarrow> 'h \<Rightarrow> addr"
    and is_empty :: "addr \<Rightarrow> 'h \<Rightarrow> bool"
  assumes rep_insert: "rep h Q \<Longrightarrow> l \<in> heads \<Longrightarrow> e \<notin> heads \<Longrightarrow> (\<And>m. m \<in> heads \<Longrightarrow> e \<notin> set (Q m)) \<Longrightarrow>
      rep (insert_tail e l h) (Q(l := Q l @ [e]))"
    and rep_append: "rep h Q \<Longrightarrow> l \<in> heads \<Longrightarrow> m \<in> heads \<Longrightarrow> l \<noteq> m \<Longrightarrow>
      rep (append_all l m h) (Q(l := Q l @ Q m, m := []))"
    and rep_remove: "rep h Q \<Longrightarrow> l \<in> heads \<Longrightarrow> e \<in> set (Q l) \<Longrightarrow>
      rep (remove e h) (Q(l := remove1 e (Q l)))"
    and rep_first: "rep h Q \<Longrightarrow> l \<in> heads \<Longrightarrow> Q l \<noteq> [] \<Longrightarrow> first l h = hd (Q l)"
    and rep_is_empty: "rep h Q \<Longrightarrow> l \<in> heads \<Longrightarrow> is_empty l h \<longleftrightarrow> Q l = []"
begin

text \<open>The loop of \<^verbatim>\<open>callout_softclock\<close>: take the first element and remove it, \<open>n\<close> times.\<close>

primrec drain :: "nat \<Rightarrow> addr \<Rightarrow> 'h \<Rightarrow> addr list \<times> 'h" where
  "drain 0 l h = ([], h)"
| "drain (Suc n) l h =
     (if is_empty l h then ([], h)
      else let e = first l h; (es, h') = drain n l (remove e h) in (e # es, h'))"

lemma drain_takes_in_order:
  "rep h Q \<Longrightarrow> l \<in> heads \<Longrightarrow> length (Q l) \<le> n \<Longrightarrow>
   fst (drain n l h) = Q l \<and> rep (snd (drain n l h)) (Q(l := []))"
proof (induction n arbitrary: h Q)
  case 0
  then show ?case by (simp add: fun_upd_idem)
next
  case (Suc n)
  show ?case
  proof (cases "Q l")
    case Nil
    with Suc.prems show ?thesis by (simp add: rep_is_empty fun_upd_idem)
  next
    case (Cons e es)
    let ?Q = "Q(l := es)"
    have first: "first l h = e" "\<not> is_empty l h" using Suc.prems Cons by (simp_all add: rep_first rep_is_empty)
    have "rep (remove e h) ?Q" using rep_remove [of h Q l e] Suc.prems Cons by simp
    moreover have "length (?Q l) \<le> n" using Suc.prems Cons by simp
    ultimately have "fst (drain n l (remove e h)) = ?Q l \<and> rep (snd (drain n l (remove e h))) (?Q(l := []))"
      using Suc.prems(2) Suc.IH by blast
    then have "fst (drain n l (remove e h)) = es" "rep (snd (drain n l (remove e h))) (Q(l := []))"
      by simp_all
    moreover have "drain (Suc n) l h = (e # fst (drain n l (remove e h)), snd (drain n l (remove e h)))"
      using first by (simp add: case_prod_beta)
    ultimately show ?thesis by (simp only: fst_conv snd_conv Cons simp_thms)
  qed
qed

end

lemma circq_frame:
  assumes "circq h m ys" and "\<And>x. x \<in> set (m # ys) \<Longrightarrow> cq_next g x = cq_next h x \<and> cq_prev g x = cq_prev h x"
  shows "circq g m ys"
  using assms circq_cong [of m ys g h] by auto

lemma queuesD: "queues H h Q \<Longrightarrow> l \<in> H \<Longrightarrow> circq h l (Q l)"
  by (simp add: queues_def)

lemma queues_disjoint:
  "queues H h Q \<Longrightarrow> l \<in> H \<Longrightarrow> m \<in> H \<Longrightarrow> l \<noteq> m \<Longrightarrow> x \<in> set (l # Q l) \<Longrightarrow> x \<notin> set (m # Q m)"
  unfolding queues_def by blast

text \<open>Each macro writes only cells of the queues it is given (and of the inserted element).\<close>

lemma insert_frame:
  assumes "circq h l xs" "x \<notin> set (l # xs)" "x \<noteq> e"
  shows "cq_next (CIRCQ_INSERT e l h) x = cq_next h x \<and> cq_prev (CIRCQ_INSERT e l h) x = cq_prev h x"
  using assms circq_ends(2) [OF assms(1)] last_in_set [of "l # xs"]
  by (auto simp: CIRCQ_INSERT_def Let_def)

lemma linked_last: "linked h (xs @ [e]) \<Longrightarrow> xs \<noteq> [] \<Longrightarrow> cq_prev h e = last xs"
  by (induction h xs rule: linked.induct) auto

lemma circq_neighbours:
  assumes "circq h l (ys @ e # zs)"
  shows "cq_next h e = hd (zs @ [l])" "cq_prev h e = last (l # ys)"
proof -
  have "linked h ((l # ys) @ e # (zs @ [l]))" using assms unfolding circq_def by simp
  then have parts: "linked h ((l # ys) @ [e])" "linked h (e # zs @ [l])" using linked_append by blast+
  show "cq_next h e = hd (zs @ [l])" using parts(2) by (cases zs) auto
  show "cq_prev h e = last (l # ys)" using linked_last [OF parts(1)] by simp
qed

lemma remove_frame:
  assumes q: "circq h l xs" and e: "e \<in> set xs" and x: "x \<notin> set (l # xs)"
  shows "cq_next (CIRCQ_REMOVE e h) x = cq_next h x \<and> cq_prev (CIRCQ_REMOVE e h) x = cq_prev h x"
proof -
  from e obtain ys zs where xs: "xs = ys @ e # zs" by (meson split_list)
  note n = circq_neighbours [OF q [unfolded xs]]
  have "hd (zs @ [l]) \<in> set (l # xs)" using xs by (cases zs) auto
  moreover have "last (l # ys) \<in> set (l # xs)" using xs last_in_set [of "l # ys"] by auto
  ultimately have "x \<noteq> cq_next h e" "x \<noteq> cq_prev h e" using n x by auto
  then show ?thesis by (auto simp: CIRCQ_REMOVE_def Let_def)
qed

lemma append_frame:
  assumes f: "circq h f xs" and s: "circq h s ys" and dis: "set (f # xs) \<inter> set (s # ys) = {}"
    and x: "x \<notin> set (f # xs)" "x \<notin> set (s # ys)"
  shows "cq_next (CIRCQ_APPEND f s h) x = cq_next h x \<and> cq_prev (CIRCQ_APPEND f s h) x = cq_prev h x"
proof (cases "ys = []")
  case True
  then show ?thesis using circq_empty [OF s] by (simp add: CIRCQ_APPEND_def)
next
  case False
  have "last (f # xs) \<in> set (f # xs)" by (rule last_in_set) simp
  then have "last (f # xs) \<noteq> x" using x(1) by blast
  moreover have "hd ys \<noteq> x" "last ys \<noteq> x" using False x(2) by auto
  ultimately show ?thesis
    using x unfolding append_pointers [OF f s False dis] by auto
qed

lemma queues_upd:
  assumes Q: "queues H h Q" and l: "l \<in> H" and new: "circq g l xs"
    and frame: "\<And>m. m \<in> H \<Longrightarrow> m \<noteq> l \<Longrightarrow> circq g m (Q m)"
    and dis: "\<And>m. m \<in> H \<Longrightarrow> m \<noteq> l \<Longrightarrow> set (l # xs) \<inter> set (m # Q m) = {}"
  shows "queues H g (Q(l := xs))"
proof -
  have "set (m # (Q(l := xs)) m) \<inter> set (k # (Q(l := xs)) k) = {}" if "m \<in> H" "k \<in> H" "m \<noteq> k" for m k
  proof (cases "m = l \<or> k = l")
    case True
    then show ?thesis using dis [of m] dis [of k] that by (auto simp: fun_upd_apply)
  next
    case False
    then show ?thesis using Q that unfolding queues_def by simp
  qed
  then show ?thesis using new frame unfolding queues_def by (simp add: fun_upd_apply)
qed

lemma queues_insert:
  assumes Q: "queues H h Q" and l: "l \<in> H" and e: "e \<notin> H" "\<And>m. m \<in> H \<Longrightarrow> e \<notin> set (Q m)"
  shows "queues H (CIRCQ_INSERT e l h) (Q(l := Q l @ [e]))"
proof (rule queues_upd [OF Q l])
  show "circq (CIRCQ_INSERT e l h) l (Q l @ [e])"
    using e l by (intro circq_insert [OF queuesD [OF Q l]]) auto
  fix m assume m: "m \<in> H" "m \<noteq> l"
  show "circq (CIRCQ_INSERT e l h) m (Q m)"
  proof (rule circq_frame [OF queuesD [OF Q m(1)]])
    fix x assume x: "x \<in> set (m # Q m)"
    then have "x \<noteq> e" using e m by auto
    with queues_disjoint [OF Q m(1) l m(2) x]
    show "cq_next (CIRCQ_INSERT e l h) x = cq_next h x \<and> cq_prev (CIRCQ_INSERT e l h) x = cq_prev h x"
      by (rule insert_frame [OF queuesD [OF Q l]])
  qed
  show "set (l # Q l @ [e]) \<inter> set (m # Q m) = {}"
    using queues_disjoint [OF Q m(1) l m(2)] e m l by fastforce
qed

lemma queues_remove:
  assumes Q: "queues H h Q" and l: "l \<in> H" and e: "e \<in> set (Q l)"
  shows "queues H (CIRCQ_REMOVE e h) (Q(l := remove1 e (Q l)))"
proof (rule queues_upd [OF Q l])
  show "circq (CIRCQ_REMOVE e h) l (remove1 e (Q l))"
    by (rule circq_remove [OF queuesD [OF Q l] e])
  fix m assume m: "m \<in> H" "m \<noteq> l"
  show "circq (CIRCQ_REMOVE e h) m (Q m)"
    using remove_frame [OF queuesD [OF Q l] e] queues_disjoint [OF Q m(1) l m(2)]
    by (intro circq_frame [OF queuesD [OF Q m(1)]]) auto
  show "set (l # remove1 e (Q l)) \<inter> set (m # Q m) = {}"
    using queues_disjoint [OF Q m(1) l m(2)] set_remove1_subset [of e "Q l"] by fastforce
qed

lemma queues_append:
  assumes Q: "queues H h Q" and l: "l \<in> H" and m: "m \<in> H" and ne: "l \<noteq> m"
  shows "queues H (CIRCQ_APPEND l m h) (Q(l := Q l @ Q m, m := []))"
proof -
  let ?g = "CIRCQ_APPEND l m h"
  note ql = queuesD [OF Q l] and qm = queuesD [OF Q m]
  have dis: "set (l # Q l) \<inter> set (m # Q m) = {}" using queues_disjoint [OF Q l m ne] by blast
  have "circq ?g k (Q k)" if "k \<in> H" "k \<noteq> l" "k \<noteq> m" for k
    using append_frame [OF ql qm dis] queues_disjoint [OF Q that(1) l that(2)]
      queues_disjoint [OF Q that(1) m that(3)] by (intro circq_frame [OF queuesD [OF Q that(1)]]) auto
  moreover have "set (l # Q l @ Q m) \<inter> set (k # Q k) = {} \<and> m \<notin> set (k # Q k)"
    if "k \<in> H" "k \<noteq> l" "k \<noteq> m" for k
    using queues_disjoint [OF Q that(1) l that(2)] queues_disjoint [OF Q that(1) m that(3)] by auto
  moreover have "k \<notin> set (m # Q m)" "k \<notin> set (l # Q l)" if "k \<in> H" "k \<noteq> l" "k \<noteq> m" for k
    using queues_disjoint [OF Q that(1) l that(2), of k] queues_disjoint [OF Q that(1) m that(3), of k] by auto
  moreover have "set (j # Q j) \<inter> set (k # Q k) = {}" if "j \<in> H" "k \<in> H" "j \<noteq> k" for j k
    using Q that unfolding queues_def by blast
  moreover have "m \<notin> set (Q m)" using qm unfolding circq_def by simp
  ultimately show ?thesis
    using circq_append [OF ql qm dis] dis ne unfolding queues_def
    by (auto simp: fun_upd_apply)
qed

interpretation cq: queue_family "queues H" H CIRCQ_INSERT CIRCQ_APPEND CIRCQ_REMOVE CIRCQ_FIRST CIRCQ_EMPTY
  for H
proof unfold_locales
  show "queues H h Q \<Longrightarrow> l \<in> H \<Longrightarrow> Q l \<noteq> [] \<Longrightarrow> CIRCQ_FIRST l h = hd (Q l)" for h Q l
    using circq_first [OF queuesD] by (simp add: CIRCQ_FIRST_def)
  show "queues H h Q \<Longrightarrow> l \<in> H \<Longrightarrow> CIRCQ_EMPTY l h \<longleftrightarrow> Q l = []" for h Q l
    using circq_empty [OF queuesD] by simp
qed (fact queues_insert queues_append queues_remove)+

section \<open>The refinement\<close>

text \<open>
  C30: the pointer macros implement lists. In a heap that holds a family of disjoint queues,
  \<^verbatim>\<open>CIRCQ_EMPTY\<close> and \<^verbatim>\<open>CIRCQ_FIRST\<close> read the list at a head; \<^verbatim>\<open>CIRCQ_INSERT\<close> of an unused cell
  appends it at the end, \<^verbatim>\<open>CIRCQ_REMOVE\<close> of a queued cell removes it, \<^verbatim>\<open>CIRCQ_APPEND\<close> moves a
  whole queue behind another, and all other queues of the family keep their contents; and taking
  the first cell until the queue is empty yields the queue in order.
\<close>

theorem circq_refines_lists:
  assumes Q: "queues H h Q" and l: "l \<in> H"
  shows "(CIRCQ_EMPTY l h \<longleftrightarrow> Q l = []) \<and> (Q l \<noteq> [] \<longrightarrow> CIRCQ_FIRST l h = hd (Q l)) \<and>
    (\<forall>e. e \<notin> H \<and> (\<forall>m\<in>H. e \<notin> set (Q m)) \<longrightarrow> queues H (CIRCQ_INSERT e l h) (Q(l := Q l @ [e]))) \<and>
    (\<forall>e\<in>set (Q l). queues H (CIRCQ_REMOVE e h) (Q(l := remove1 e (Q l)))) \<and>
    (\<forall>m\<in>H. m \<noteq> l \<longrightarrow> queues H (CIRCQ_APPEND l m h) (Q(l := Q l @ Q m, m := []))) \<and>
    fst (cq.drain (length (Q l)) l h) = Q l \<and> queues H (snd (cq.drain (length (Q l)) l h)) (Q(l := []))"
  using cq.rep_is_empty [OF Q l] cq.rep_first [OF Q l] cq.rep_insert [OF Q l] cq.rep_remove [OF Q l]
    cq.rep_append [OF Q l] cq.drain_takes_in_order [OF Q l order.refl] by blast

text \<open>Two heads, at 0 and 1, and two cells in the first queue.\<close>

definition sample_heap :: circq_heap where
  "sample_heap = CIRCQ_INSERT 6 0 (CIRCQ_INSERT 5 0 (CIRCQ_INIT 1 (CIRCQ_INIT 0
    \<lparr> cq_next = \<lambda>_. 0, cq_prev = \<lambda>_. 0 \<rparr>)))"

theorem circq_refines_lists_witness:
  "queues {0, 1} (CIRCQ_APPEND 0 1 (CIRCQ_REMOVE 5 sample_heap)) ((\<lambda>_. [])(0 := [6])) \<and>
   \<not> CIRCQ_EMPTY 0 sample_heap"
proof -
  have s: "queues {0, 1} sample_heap ((\<lambda>_. [])(0 := [5, 6]))"
    by (simp add: queues_def circq_def sample_heap_def CIRCQ_INSERT_def CIRCQ_INIT_def)
  have r: "queues {0, 1} (CIRCQ_REMOVE 5 sample_heap) ((\<lambda>_. [])(0 := [6]))"
    using circq_refines_lists [OF s, of 0] by simp
  have "queues {0, 1} (CIRCQ_APPEND 0 1 (CIRCQ_REMOVE 5 sample_heap)) ((\<lambda>_. [])(0 := [6]))"
    using circq_refines_lists [OF r, of 0] by (simp add: fun_upd_idem)
  then show ?thesis using circq_refines_lists [OF s, of 0] by simp
qed

end
