(* ===== verification/Wheel.thy ===== *)
theory Wheel
  imports Prelude
begin

text \<open>
  The arithmetic of the timing wheel of \<^verbatim>\<open>kernel/kern/kern_timeout.c\<close>: four wheels of 256
  buckets over a 32-bit tick counter, and the bucket a callout is put into. The distance to the
  next emptying of a bucket is made explicit, shown to shrink by one with each tick, and to be at
  most the time the callout has left when it is inserted.
\<close>

section \<open>The macros\<close>

abbreviation (input) WHEELSIZE :: nat where "WHEELSIZE \<equiv> 256"

definition MASKWHEEL :: "nat \<Rightarrow> u32 \<Rightarrow> nat" where
  "MASKWHEEL wheel time = unat (drop_bit (wheel * 8) time AND 255)"

definition BUCKET :: "int \<Rightarrow> u32 \<Rightarrow> nat" where
  "BUCKET rel abst =
    (if rel \<le> 2 ^ (2 * 8)
     then if rel \<le> 2 ^ 8 then MASKWHEEL 0 abst else MASKWHEEL 1 abst + WHEELSIZE
     else if rel \<le> 2 ^ (3 * 8) then MASKWHEEL 2 abst + 2 * WHEELSIZE else MASKWHEEL 3 abst + 3 * WHEELSIZE)"

section \<open>When a bucket is emptied\<close>


definition wheel_of :: "nat \<Rightarrow> int" where "wheel_of b = 256 ^ (b div 256)"
definition slot_of :: "nat \<Rightarrow> int" where "slot_of b = int (b mod 256)"

definition drain_dist :: "nat \<Rightarrow> u32 \<Rightarrow> int" where
  "drain_dist b t = (slot_of b * wheel_of b - uint t - 1) mod (wheel_of b * 256) + 1"

lemma bucket_div:
  fixes x :: nat
  assumes "x < 256"
  shows "x div 256 = 0" "(x + 256) div 256 = 1" "(x + 512) div 256 = 2" "(x + 768) div 256 = 3"
    "x mod 256 = x" "(x + 256) mod 256 = x" "(x + 512) mod 256 = x" "(x + 768) mod 256 = x"
  using assms by (simp_all add: div_nat_eqI mod_nat_eqI)

lemma wheel_of_simps [simp]:
  "x < 256 \<Longrightarrow> wheel_of x = 1" "x < 256 \<Longrightarrow> wheel_of (x + 256) = 256"
  "x < 256 \<Longrightarrow> wheel_of (x + 512) = 65536" "x < 256 \<Longrightarrow> wheel_of (x + 768) = 16777216"
  by (simp_all only: wheel_of_def bucket_div) simp_all

lemma slot_of_simps [simp]:
  "x < 256 \<Longrightarrow> slot_of x = int x" "x < 256 \<Longrightarrow> slot_of (x + 256) = int x"
  "x < 256 \<Longrightarrow> slot_of (x + 512) = int x" "x < 256 \<Longrightarrow> slot_of (x + 768) = int x"
  by (simp_all only: slot_of_def bucket_div)

lemma bucket_cases:
  fixes b :: nat
  assumes "b < 1024"
  obtains x where "x < 256" "b = x" | x where "x < 256" "b = x + 256"
  | x where "x < 256" "b = x + 512" | x where "x < 256" "b = x + 768"
proof -
  consider "b < 256" | "256 \<le> b" "b < 512" | "512 \<le> b" "b < 768" | "768 \<le> b" using assms by linarith
  then show ?thesis
  proof cases
    case 1 then show ?thesis by (rule that(1)) simp
  next
    case 2 then show ?thesis by (intro that(2) [of "b - 256"]) simp_all
  next
    case 3 then show ?thesis by (intro that(3) [of "b - 512"]) simp_all
  next
    case 4 then show ?thesis using assms by (intro that(4) [of "b - 768"]) simp_all
  qed
qed

lemma drain_dist_pos: "1 \<le> drain_dist b t"
  by (simp add: drain_dist_def wheel_of_def)

lemma MASKWHEEL_div: "int (MASKWHEEL w t) = uint t div 256 ^ w mod 256"
proof -
  have a: "(255 :: u32) = mask 8" by (simp add: mask_eq_exp_minus_1)
  have t: "take_bit 32 (uint t) = uint t"
    using unsigned_less [of t] by (intro take_bit_int_eq_self) simp_all
  have "uint (drop_bit (w * 8) t AND 255) = take_bit 8 (drop_bit (w * 8) (uint t))"
    unfolding a take_bit_eq_mask [symmetric] by (simp add: unsigned_take_bit_eq unsigned_drop_bit_eq t)
  also have "\<dots> = uint t div 2 ^ (w * 8) mod 256" by (simp add: take_bit_eq_mod drop_bit_eq_div)
  also have "(2 :: int) ^ (w * 8) = 256 ^ w" by (simp add: power_mult mult.commute [of w])
  finally show ?thesis by (simp add: MASKWHEEL_def)
qed

lemma MASKWHEEL_lt [simp]: "MASKWHEEL w t < 256"
  using MASKWHEEL_div [of w t] by linarith

lemma dvd_wheel: "b < 1024 \<Longrightarrow> wheel_of b * 256 dvd 4294967296"
  by (erule bucket_cases) simp_all

lemma drain_dist_tick:
  assumes b: "b < 1024" and nd: "drain_dist b t \<noteq> 1"
  shows "drain_dist b (t + 1) = drain_dist b t - 1"
proof -
  let ?M = "wheel_of b * 256" and ?X = "slot_of b * wheel_of b - uint t - 1"
  have M: "0 < ?M" by (simp add: wheel_of_def)
  have "uint (t + 1) mod ?M = (uint t + 1) mod ?M"
    using dvd_wheel [OF b] by (simp add: uint_word_ariths mod_mod_cancel)
  then have "?M dvd (uint t + 1) - uint (t + 1)" by (intro mod_eq_dvd_iff [THEN iffD1]) simp
  then have "(slot_of b * wheel_of b - uint (t + 1) - 1) mod ?M = (?X - 1) mod ?M"
    by (intro mod_eq_dvd_iff [THEN iffD2]) (simp add: algebra_simps)
  moreover have "(?X - 1) mod ?M = ?X mod ?M - 1"
  proof -
    have "0 < ?X mod ?M" using nd M pos_mod_sign [OF M, of ?X] unfolding drain_dist_def by linarith
    then have "(?X mod ?M - 1) mod ?M = ?X mod ?M - 1"
      using pos_mod_bound [OF M, of ?X] by (intro mod_pos_pos_trivial) linarith+
    then show ?thesis by (simp only: mod_diff_left_eq)
  qed
  ultimately show ?thesis by (simp add: drain_dist_def)
qed

lemma drain_dist_due:
  assumes b: "b < 1024" and d: "drain_dist b t = 1"
  shows "uint (t + 1) mod (wheel_of b * 256) = slot_of b * wheel_of b"
proof -
  let ?M = "wheel_of b * 256"
  have "(slot_of b * wheel_of b - (uint t + 1)) mod ?M = 0" using d by (simp add: drain_dist_def diff_diff_eq)
  then have "?M dvd slot_of b * wheel_of b - (uint t + 1)" by (rule mod_0_imp_dvd)
  then have "slot_of b * wheel_of b mod ?M = (uint t + 1) mod ?M" by (rule mod_eq_dvd_iff [THEN iffD2])
  moreover have "0 \<le> slot_of b * wheel_of b" "slot_of b * wheel_of b < ?M"
    by (auto simp: wheel_of_def slot_of_def mult.commute intro!: mult_strict_left_mono)
  moreover have "uint (t + 1) mod ?M = (uint t + 1) mod ?M"
    using dvd_wheel [OF b] by (simp add: uint_word_ariths mod_mod_cancel)
  ultimately show ?thesis by simp
qed

lemma drain_dist_insert:
  fixes w :: nat
  assumes r: "r = uint (ct - t)" and w: "w < 4" and big: "w = 0 \<and> 0 < r \<or> 256 ^ w < r"
    and b: "b = MASKWHEEL w ct + w * 256"
  shows "b < 1024 \<and> drain_dist b t \<le> r"
proof -
  let ?m = "256 ^ w :: int"
  have "b < (w + 1) * 256" using b MASKWHEEL_lt [of w ct] by simp
  moreover have "(w + 1) * 256 \<le> 4 * 256" using w by (intro mult_right_mono) simp_all
  ultimately have b4: "b < 1024" by linarith
  have wb: "wheel_of b = ?m" "slot_of b = uint ct div ?m mod 256"
    using b MASKWHEEL_lt [of w ct] by (simp_all add: wheel_of_def slot_of_def MASKWHEEL_div zmod_int)
  have "?m * 256 dvd 4294967296" using dvd_wheel [OF b4] wb(1) by simp
  then have rm: "r mod (?m * 256) = (uint ct - uint t) mod (?m * 256)"
    unfolding r by (simp add: uint_word_ariths mod_mod_cancel)
  have "uint ct mod (?m * 256) = ?m * (uint ct div ?m mod 256) + uint ct mod ?m"
    by (simp add: zmod_zmult2_eq)
  then have s: "slot_of b * ?m = uint ct mod (?m * 256) - uint ct mod ?m" using wb(2) by (simp add: mult.commute)
  have "?m * 256 dvd (uint ct - uint ct mod (?m * 256)) + (r - (uint ct - uint t))"
    by (intro dvd_add dvd_minus_mod mod_eq_dvd_iff [THEN iffD1] rm)
  moreover have "(r - uint ct mod ?m - 1) - (slot_of b * ?m - uint t - 1) =
      (uint ct - uint ct mod (?m * 256)) + (r - (uint ct - uint t))" unfolding s by simp
  ultimately have "?m * 256 dvd (r - uint ct mod ?m - 1) - (slot_of b * ?m - uint t - 1)" by (simp only:)
  then have "(slot_of b * ?m - uint t - 1) mod (?m * 256) = (r - (uint ct mod ?m) - 1) mod (?m * 256)"
    by (intro mod_eq_dvd_iff [THEN iffD2, symmetric])
  also have "\<dots> \<le> r - (uint ct mod ?m) - 1"
  proof -
    have lt: "uint ct mod ?m < ?m" by simp
    have "0 \<le> r - (uint ct mod ?m) - 1"
    proof (cases "w = 0")
      case False
      then have "?m < r" using big by simp
      with lt show ?thesis by linarith
    qed (use big in auto)
    then show ?thesis by (intro zmod_le_nonneg_dividend)
  qed
  also have "\<dots> \<le> r - 1"
  proof -
    have "0 \<le> uint ct mod ?m" by (rule pos_mod_sign) simp
    then show ?thesis by linarith
  qed
  finally show ?thesis using wb b4 by (simp add: drain_dist_def)
qed

lemma BUCKET_insert:
  assumes r: "r = uint (ct - t)" "0 < r"
  shows "BUCKET r ct < 1024 \<and> drain_dist (BUCKET r ct) t \<le> r"
  using drain_dist_insert [OF r(1), of 0] drain_dist_insert [OF r(1), of 1] drain_dist_insert [OF r(1), of 2]
    drain_dist_insert [OF r(1), of 3] r(2)
  by (auto simp: BUCKET_def)
end
