(* ===== verification/Lwp.thy ===== *)
theory Lwp
  imports Prelude
begin

text \<open>
  The part of \<^verbatim>\<open>struct lwp\<close> (\<^verbatim>\<open>kernel/sys/lwp.h\<close>) the scheduler code reads and writes, and the
  effective priority of a thread (\<^verbatim>\<open>lwp_eprio\<close> in \<^verbatim>\<open>kernel/kern/kern_lwp.c\<close>). Threads and CPUs are
  identified by numbers; a CPU is its \<^verbatim>\<open>cpu_index\<close>.
\<close>

datatype sched_class = SCHED_OTHER | SCHED_FIFO | SCHED_RR

datatype lwp_stat = LSIDL | LSRUN | LSSLEEP | LSSTOP | LSZOMB | LSONPROC | LSSUSPENDED

abbreviation (input) LW_IDLE :: u32 where "LW_IDLE \<equiv> 0x1"
abbreviation (input) LW_SYSTEM :: u32 where "LW_SYSTEM \<equiv> 0x200"
abbreviation (input) LW_BATCH :: u32 where "LW_BATCH \<equiv> 0x40000"
abbreviation (input) LP_INTR :: u32 where "LP_INTR \<equiv> 0x40"
abbreviation (input) LP_PREEMPTING :: u32 where "LP_PREEMPTING \<equiv> 0x20000"
abbreviation (input) LP_RUNNING :: u32 where "LP_RUNNING \<equiv> 0x20000000"
abbreviation (input) LP_TELEPORT :: u32 where "LP_TELEPORT \<equiv> 0x40000000"
abbreviation (input) LP_BOUND :: u32 where "LP_BOUND \<equiv> 0x80000000"

record lwp =
  l_cpu :: nat
  l_stat :: lwp_stat
  l_flag :: u32
  l_pflag :: u32
  l_rticks :: u32
  l_rticksum :: u32
  l_slpticksum :: u32
  l_slptime :: u32
  l_class :: sched_class
  l_boostpri :: int
  l_priority :: int
  l_inheritedprio :: int
  l_protectprio :: int
  l_auxprio :: int
  l_psid :: int
  l_estcpu :: u32
  l_target_cpu :: "nat option"
  l_affinity :: "(nat \<Rightarrow> bool) option"
  l_wchan :: bool \<comment> \<open>sleeping: \<^verbatim>\<open>l_wchan != NULL\<close>\<close>
  l_vforkwaiting :: bool
  l_switchto :: "nat option"
  l_dopreempt :: u32
  l_proc0 :: bool \<comment> \<open>the LWP belongs to \<^verbatim>\<open>proc0\<close>\<close>
  l_pid :: int \<comment> \<open>\<^verbatim>\<open>l_proc->p_pid\<close>\<close>
  l_lp_runnable :: u64
  l_lp_oncpu :: u64
  l_lp_burst_us :: u32
  l_lp_wait_us :: u32

text \<open>
  The effective priority. \<open>maxpri_user\<close> stands for \<^verbatim>\<open>MAXPRI_USER\<close> of \<^verbatim>\<open>sys/param.h\<close>. The
  boost applies to a thread in the user range whose kernel boost lies above that range.
\<close>

definition lwp_eprio :: "int \<Rightarrow> lwp \<Rightarrow> int" where
  "lwp_eprio maxpri_user l =
    (let pri = l_priority l;
         pri = (if pri \<le> maxpri_user \<and> l_boostpri l > maxpri_user
                then drop_bit 1 pri + l_boostpri l else pri)
     in max (l_auxprio l) pri)"

end
