(* ===== verification/Lpsched.thy ===== *)
theory Lpsched
  imports Lwp "HOL-Library.Log_Nat"
begin

text \<open>
  The laptop power scheduler's kernel state and accounting: \<^verbatim>\<open>kernel/sys/lpsched.h\<close> and
  \<^verbatim>\<open>kernel/kern/kern_lpsched.c\<close>. The knobs and counters are one record, \<open>lpsched\<close>; the per-CPU
  arrays are functions of the CPU index, and every operation keeps the code's test against
  \<^verbatim>\<open>MAXCPUS\<close>. \<^verbatim>\<open>cpu_counter()\<close> and \<^verbatim>\<open>getticks()\<close> are arguments of the operations that read
  them. Threads are looked up in a table, so that the previous and the next thread of a context
  switch may be the same one.
\<close>

section \<open>State\<close>

abbreviation (input) LPSCHED_IDLE_ACTIVE :: u8 where "LPSCHED_IDLE_ACTIVE \<equiv> 0"
abbreviation (input) LPSCHED_IDLE_SHALLOW :: u8 where "LPSCHED_IDLE_SHALLOW \<equiv> 1"
abbreviation (input) LPSCHED_IDLE_DEEP :: u8 where "LPSCHED_IDLE_DEEP \<equiv> 2"

abbreviation (input) LPSCHED_ST_CONSIDERED :: nat where "LPSCHED_ST_CONSIDERED \<equiv> 0"
abbreviation (input) LPSCHED_ST_EXEMPT_CLASS :: nat where "LPSCHED_ST_EXEMPT_CLASS \<equiv> 1"
abbreviation (input) LPSCHED_ST_EXEMPT_FG :: nat where "LPSCHED_ST_EXEMPT_FG \<equiv> 2"
abbreviation (input) LPSCHED_ST_EXEMPT_ESTCPU :: nat where "LPSCHED_ST_EXEMPT_ESTCPU \<equiv> 3"
abbreviation (input) LPSCHED_ST_PACK_SIBLING :: nat where "LPSCHED_ST_PACK_SIBLING \<equiv> 4"
abbreviation (input) LPSCHED_ST_PACK_SHALLOW :: nat where "LPSCHED_ST_PACK_SHALLOW \<equiv> 5"
abbreviation (input) LPSCHED_ST_PACK_DEEP :: nat where "LPSCHED_ST_PACK_DEEP \<equiv> 6"
abbreviation (input) LPSCHED_ST_PACK_BUSY :: nat where "LPSCHED_ST_PACK_BUSY \<equiv> 7"
abbreviation (input) LPSCHED_ST_PACK_NONE :: nat where "LPSCHED_ST_PACK_NONE \<equiv> 8"
abbreviation (input) LPSCHED_ST_PACK_HELD :: nat where "LPSCHED_ST_PACK_HELD \<equiv> 9"
abbreviation (input) LPSCHED_ST_CATCH_HELD :: nat where "LPSCHED_ST_CATCH_HELD \<equiv> 10"
abbreviation (input) LPSCHED_ST_COAL_APPLIED :: nat where "LPSCHED_ST_COAL_APPLIED \<equiv> 11"
abbreviation (input) LPSCHED_ST_COAL_NOSLACK :: nat where "LPSCHED_ST_COAL_NOSLACK \<equiv> 12"
abbreviation (input) LPSCHED_ST_COAL_SHORT :: nat where "LPSCHED_ST_COAL_SHORT \<equiv> 13"
abbreviation (input) LPSCHED_ST_COAL_PRECISE :: nat where "LPSCHED_ST_COAL_PRECISE \<equiv> 14"
abbreviation (input) LPSCHED_ST_PACK_GUARD :: nat where "LPSCHED_ST_PACK_GUARD \<equiv> 15"
abbreviation (input) LPSCHED_ST_PACK_LONGBURST :: nat where "LPSCHED_ST_PACK_LONGBURST \<equiv> 16"
abbreviation (input) LPSCHED_ST_CATCH_ESCAPE :: nat where "LPSCHED_ST_CATCH_ESCAPE \<equiv> 17"
abbreviation (input) LPSCHED_NSTAT :: nat where "LPSCHED_NSTAT \<equiv> 18"

abbreviation (input) LPSCHED_CL_FG :: nat where "LPSCHED_CL_FG \<equiv> 0"
abbreviation (input) LPSCHED_CL_USER :: nat where "LPSCHED_CL_USER \<equiv> 1"
abbreviation (input) LPSCHED_CL_KERNEL :: nat where "LPSCHED_CL_KERNEL \<equiv> 2"
abbreviation (input) LPSCHED_CL_RT :: nat where "LPSCHED_CL_RT \<equiv> 3"
abbreviation (input) LPSCHED_NCLASS :: nat where "LPSCHED_NCLASS \<equiv> 4"
abbreviation (input) LPSCHED_NBUCKET :: nat where "LPSCHED_NBUCKET \<equiv> 16"

record lpsched_cpu =
  pc_depth :: u8
  pc_critical :: bool
  pc_cur_burst_us :: u32
  pc_q_since :: u64
  pc_st :: "nat \<Rightarrow> u64"
  pc_lat :: "nat \<Rightarrow> nat \<Rightarrow> u64"
  pc_wait_us :: "nat \<Rightarrow> u64"
  pc_run_us :: "nat \<Rightarrow> u64"
  pc_wait_max_us :: "nat \<Rightarrow> u32"

record lpsched_idle =
  li_gen :: u32
  li_since :: u64
  li_cc :: u64

record lpsched =
  lpsched_enabled :: int
  lpsched_pack :: int
  lpsched_coalesce_ms :: int
  lpsched_fgpid :: int
  lpsched_estcpu_thresh :: int
  lpsched_last_input :: u32
  lpsched_cpus :: "nat \<Rightarrow> lpsched_cpu"
  lpsched_idles :: "nat \<Rightarrow> lpsched_idle"
  lpsched_stats_enabled :: int
  lpsched_latency :: int
  lpsched_wait_budget_us :: int
  lpsched_idle_acct :: int
  lpsched_idle_hooked :: bool
  lpsched_tsc_mhz :: u64

text \<open>The values the variables have at boot.\<close>

definition lpsched_cpu0 :: lpsched_cpu where
  "lpsched_cpu0 = \<lparr> pc_depth = 0, pc_critical = False, pc_cur_burst_us = 0, pc_q_since = 0,
    pc_st = (\<lambda>_. 0), pc_lat = (\<lambda>_ _. 0), pc_wait_us = (\<lambda>_. 0), pc_run_us = (\<lambda>_. 0),
    pc_wait_max_us = (\<lambda>_. 0) \<rparr>"

definition lpsched_idle0 :: lpsched_idle where
  "lpsched_idle0 = \<lparr> li_gen = 0, li_since = 0, li_cc = 0 \<rparr>"

definition lpsched_boot :: lpsched where
  "lpsched_boot = \<lparr> lpsched_enabled = 0, lpsched_pack = 0, lpsched_coalesce_ms = 0,
    lpsched_fgpid = 0, lpsched_estcpu_thresh = 0, lpsched_last_input = 0,
    lpsched_cpus = (\<lambda>_. lpsched_cpu0), lpsched_idles = (\<lambda>_. lpsched_idle0),
    lpsched_stats_enabled = 1, lpsched_latency = 1, lpsched_wait_budget_us = 2000,
    lpsched_idle_acct = 1, lpsched_idle_hooked = False, lpsched_tsc_mhz = 0 \<rparr>"

text \<open>Update of one CPU's entry.\<close>

definition upd_cpu :: "nat \<Rightarrow> (lpsched_cpu \<Rightarrow> lpsched_cpu) \<Rightarrow> lpsched \<Rightarrow> lpsched" where
  "upd_cpu i f s = s \<lparr> lpsched_cpus := (lpsched_cpus s)(i := f (lpsched_cpus s i)) \<rparr>"

section \<open>The inline helpers of \<^verbatim>\<open>lpsched.h\<close>\<close>

definition lpsched_accounting :: "lpsched \<Rightarrow> bool" where
  "lpsched_accounting s \<longleftrightarrow> lpsched_enabled s \<noteq> 0 \<and> lpsched_latency s \<noteq> 0"

definition lpsched_packing :: "lpsched \<Rightarrow> bool" where
  "lpsched_packing s \<longleftrightarrow> lpsched_enabled s \<noteq> 0 \<and> lpsched_pack s > 0"

definition lpsched_stat_bump :: "platform \<Rightarrow> nat \<Rightarrow> nat \<Rightarrow> lpsched \<Rightarrow> lpsched" where
  "lpsched_stat_bump P i idx s =
    (if idx \<ge> LPSCHED_NSTAT then s
     else if i < MAXCPUS P
     then upd_cpu i (\<lambda>pc. pc \<lparr> pc_st := (pc_st pc)(idx := pc_st pc idx + 1) \<rparr>) s
     else s)"

definition lpsched_stat :: "platform \<Rightarrow> nat \<Rightarrow> nat \<Rightarrow> lpsched \<Rightarrow> lpsched" where
  "lpsched_stat P i idx s = (if lpsched_stats_enabled s \<noteq> 0 then lpsched_stat_bump P i idx s else s)"

definition lpsched_input_activity :: "u32 \<Rightarrow> lpsched \<Rightarrow> lpsched" where
  "lpsched_input_activity getticks s = s \<lparr> lpsched_last_input := getticks \<rparr>"

text \<open>
  The two writer sections of \<^verbatim>\<open>lpsched_set_idle_depth\<close>, each bracketed by an increment of the
  generation, and the function itself.
\<close>

definition li_close :: "u64 \<Rightarrow> lpsched_idle \<Rightarrow> lpsched_idle" where
  "li_close now li =
    (let li = li \<lparr> li_gen := li_gen li + 1 \<rparr>;
         li = (if now > li_since li then li \<lparr> li_cc := li_cc li + (now - li_since li) \<rparr> else li);
         li = li \<lparr> li_since := 0 \<rparr>
     in li \<lparr> li_gen := li_gen li + 1 \<rparr>)"

definition li_open :: "u64 \<Rightarrow> lpsched_idle \<Rightarrow> lpsched_idle" where
  "li_open now li =
    (let li = li \<lparr> li_gen := li_gen li + 1 \<rparr>;
         li = li \<lparr> li_since := now OR 1 \<rparr>
     in li \<lparr> li_gen := li_gen li + 1 \<rparr>)"

definition lpsched_set_idle_depth :: "platform \<Rightarrow> u64 \<Rightarrow> nat \<Rightarrow> u8 \<Rightarrow> lpsched \<Rightarrow> lpsched" where
  "lpsched_set_idle_depth P now i depth s =
    (let s = (if lpsched_enabled s \<noteq> 0 \<and> i < MAXCPUS P
              then upd_cpu i (\<lambda>pc. pc \<lparr> pc_depth := depth \<rparr>) s else s)
     in if i < MAXCPUS P then
          let li = lpsched_idles s i;
              li = (if depth = LPSCHED_IDLE_ACTIVE
                    then (if li_since li \<noteq> 0 then li_close now li else li)
                    else if lpsched_idle_acct s \<noteq> 0 \<and> li_since li = 0 then li_open now li
                    else li)
          in s \<lparr> lpsched_idles := (lpsched_idles s)(i := li) \<rparr>
        else s)"

definition lpsched_idle_depth :: "platform \<Rightarrow> nat \<Rightarrow> lpsched \<Rightarrow> u8" where
  "lpsched_idle_depth P i s = (if i < MAXCPUS P then pc_depth (lpsched_cpus s i) else LPSCHED_IDLE_ACTIVE)"

section \<open>Waits and bursts\<close>

definition lpsched_us :: "platform \<Rightarrow> nat \<Rightarrow> u64 \<Rightarrow> u64 \<Rightarrow> lpsched \<Rightarrow> u64 \<times> lpsched" where
  "lpsched_us P cur from to s =
    (let s = (if lpsched_tsc_mhz s = 0
              then s \<lparr> lpsched_tsc_mhz := max 1 (cpu_frequency P cur div 1000000) \<rparr> else s)
     in (if to > from then (to - from) div lpsched_tsc_mhz s else 0, s))"

definition lpsched_class :: "lpsched \<Rightarrow> lwp \<Rightarrow> nat" where
  "lpsched_class s l =
    (if l_class l \<noteq> SCHED_OTHER then LPSCHED_CL_RT
     else if l_flag l AND LW_SYSTEM \<noteq> 0 \<or> l_proc0 l then LPSCHED_CL_KERNEL
     else if lpsched_fgpid s \<noteq> 0 \<and> l_pid l = lpsched_fgpid s then LPSCHED_CL_FG
     else LPSCHED_CL_USER)"

definition lpsched_ewma :: "u32 \<Rightarrow> u64 \<Rightarrow> u32" where
  "lpsched_ewma avg sample =
    (let sample = (if sample > 0xFFFFFFFF then 0xFFFFFFFF else sample)
     in if avg = 0 then ucast sample else avg - avg div 4 + ucast (sample div 4))"

definition lpsched_enqueued ::
    "platform \<Rightarrow> u64 \<Rightarrow> lwp \<Rightarrow> nat \<Rightarrow> bool \<Rightarrow> lpsched \<Rightarrow> lwp \<times> lpsched" where
  "lpsched_enqueued P now l i was_empty s =
    ((if l_lp_runnable l = 0 then l \<lparr> l_lp_runnable := now \<rparr> else l),
     (if was_empty \<and> i < MAXCPUS P then upd_cpu i (\<lambda>pc. pc \<lparr> pc_q_since := now \<rparr>) s else s))"

definition lpsched_dequeued :: "platform \<Rightarrow> nat \<Rightarrow> bool \<Rightarrow> lpsched \<Rightarrow> lpsched" where
  "lpsched_dequeued P i now_empty s =
    (if now_empty \<and> i < MAXCPUS P then upd_cpu i (\<lambda>pc. pc \<lparr> pc_q_since := 0 \<rparr>) s else s)"

text \<open>\<^verbatim>\<open>lpsched_switch\<close>, in its two halves: the end of the previous burst, the start of the next.\<close>

definition lpsched_switch_prev ::
    "platform \<Rightarrow> u64 \<Rightarrow> nat \<Rightarrow> nat option \<Rightarrow> (nat \<Rightarrow> lwp) \<times> lpsched \<Rightarrow> (nat \<Rightarrow> lwp) \<times> lpsched" where
  "lpsched_switch_prev P now i prev Ls = (case (prev, Ls) of
      (None, _) \<Rightarrow> Ls
    | (Some p, L, s) \<Rightarrow>
        if l_flag (L p) AND LW_IDLE = 0 \<and> l_lp_oncpu (L p) \<noteq> 0 then
          let (us, s) = lpsched_us P i (l_lp_oncpu (L p)) now s;
              l = (L p) \<lparr> l_lp_burst_us := lpsched_ewma (l_lp_burst_us (L p)) us \<rparr>;
              cl = lpsched_class s l
          in (L(p := l \<lparr> l_lp_oncpu := 0 \<rparr>),
              upd_cpu i (\<lambda>pc. pc \<lparr> pc_run_us := (pc_run_us pc)(cl := pc_run_us pc cl + us) \<rparr>) s)
        else Ls)"

definition lpsched_wait_bucket :: "platform \<Rightarrow> u64 \<Rightarrow> nat" where
  "lpsched_wait_bucket P us =
    min (if drop_bit 3 us = 0 then 0 else fls64 P (drop_bit 3 us)) (LPSCHED_NBUCKET - 1)"

definition lpsched_record_wait :: "platform \<Rightarrow> nat \<Rightarrow> u64 \<Rightarrow> lpsched_cpu \<Rightarrow> lpsched_cpu" where
  "lpsched_record_wait P cl us pc =
    (let b = lpsched_wait_bucket P us
     in pc \<lparr> pc_lat := (pc_lat pc)(cl := (pc_lat pc cl)(b := pc_lat pc cl b + 1)),
             pc_wait_us := (pc_wait_us pc)(cl := pc_wait_us pc cl + us),
             pc_wait_max_us := (if us > ucast (pc_wait_max_us pc cl)
               then (pc_wait_max_us pc)(cl := ucast us) else pc_wait_max_us pc) \<rparr>)"

definition lpsched_switch_next ::
    "platform \<Rightarrow> u64 \<Rightarrow> nat \<Rightarrow> nat option \<Rightarrow> (nat \<Rightarrow> lwp) \<times> lpsched \<Rightarrow> (nat \<Rightarrow> lwp) \<times> lpsched" where
  "lpsched_switch_next P now i next Ls = (case (next, Ls) of
      (None, L, s) \<Rightarrow> (L, upd_cpu i (\<lambda>pc. pc \<lparr> pc_critical := False, pc_cur_burst_us := 0 \<rparr>) s)
    | (Some n, L, s) \<Rightarrow>
        let cl = lpsched_class s (L n);
            (l, s) = (if l_lp_runnable (L n) \<noteq> 0 then
                let (us, s) = lpsched_us P i (l_lp_runnable (L n)) now s;
                    (l, s) = (if us < 60 * 1000000
                      then ((L n) \<lparr> l_lp_wait_us := lpsched_ewma (l_lp_wait_us (L n)) us \<rparr>,
                            upd_cpu i (lpsched_record_wait P cl us) s)
                      else (L n, s))
                in (l \<lparr> l_lp_runnable := 0 \<rparr>, s)
              else (L n, s));
            l = l \<lparr> l_lp_oncpu := now \<rparr>
        in (L(n := l), upd_cpu i (\<lambda>pc. pc \<lparr> pc_critical := (cl = LPSCHED_CL_FG \<or> cl = LPSCHED_CL_RT),
                                          pc_cur_burst_us := l_lp_burst_us l \<rparr>) s))"

definition lpsched_switch ::
    "platform \<Rightarrow> u64 \<Rightarrow> nat \<Rightarrow> nat option \<Rightarrow> nat option \<Rightarrow> (nat \<Rightarrow> lwp) \<times> lpsched \<Rightarrow> (nat \<Rightarrow> lwp) \<times> lpsched" where
  "lpsched_switch P now i prev next Ls =
    (if i \<ge> MAXCPUS P then Ls
     else lpsched_switch_next P now i next (lpsched_switch_prev P now i prev Ls))"

definition lpsched_queue_overdue :: "platform \<Rightarrow> u64 \<Rightarrow> nat \<Rightarrow> nat \<Rightarrow> lpsched \<Rightarrow> bool \<times> lpsched" where
  "lpsched_queue_overdue P now cur i s =
    (if i \<ge> MAXCPUS P then (False, s)
     else let since = pc_q_since (lpsched_cpus s i)
          in if since \<noteq> 0 then
               let (us, s) = lpsched_us P cur since now s
               in (us > word_of_int (lpsched_wait_budget_us s), s)
             else (False, s))"

section \<open>Properties\<close>

lemma unat_ewma:
  "unat (lpsched_ewma avg sample) =
    (if avg = 0 then min (unat sample) 4294967295
     else unat avg - unat avg div 4 + min (unat sample) 4294967295 div 4)"
proof -
  let ?s = "if sample > 0xFFFFFFFF then 0xFFFFFFFF else sample"
  have s: "unat ?s = min (unat sample) 4294967295"
    by (auto simp: word_less_nat_alt min_def)
  have c: "unat (ucast x :: u32) = unat x" if "unat x \<le> 4294967295" for x :: u64
    using that by (simp add: unsigned_ucast_eq take_bit_nat_eq_self)
  have q: "unat (?s div 4) = min (unat sample) 4294967295 div 4"
    unfolding unat_div s by simp
  have a: "unat avg < 4294967296" using unsigned_less [of avg] by simp
  have d: "unat (avg - avg div 4) = unat avg - unat avg div 4"
    by (simp add: unat_sub unat_div word_le_nat_alt)
  have "unat (avg - avg div 4 + ucast (?s div 4)) = unat avg - unat avg div 4 + min (unat sample) 4294967295 div 4"
  proof -
    have u: "unat (ucast (?s div 4) :: u32) = min (unat sample) 4294967295 div 4"
      using c [of "?s div 4"] q by simp
    have "unat avg - unat avg div 4 + min (unat sample) 4294967295 div 4 < 4294967296"
      using a by (auto simp: min_def)
    then show ?thesis
      using unat_add_lem [of "avg - avg div 4" "ucast (?s div 4)"] u d by simp
  qed
  moreover have "unat (ucast ?s :: u32) = min (unat sample) 4294967295"
    using c [of ?s] s by simp
  ultimately show ?thesis unfolding lpsched_ewma_def Let_def by auto
qed

lemma quarter_step_up:
  fixes a m :: nat
  assumes "a \<le> m"
  shows "a \<le> a - a div 4 + m div 4" "a - a div 4 + m div 4 \<le> m"
  using assms by linarith+

lemma quarter_step_down:
  fixes a m :: nat
  assumes "m \<le> a"
  shows "m \<le> a - a div 4 + m div 4" "a - a div 4 + m div 4 \<le> a"
  using assms by linarith+

text \<open>
  C31: the moving average neither overflows nor leaves the interval of its inputs: the first sample
  (saturated to 32 bits) is taken as it is, and afterwards the new average lies between the old
  one and the saturated sample.
\<close>

theorem lpsched_ewma_between:
  "if avg = 0 then unat (lpsched_ewma avg sample) = min (unat sample) 4294967295
   else min (unat avg) (min (unat sample) 4294967295) \<le> unat (lpsched_ewma avg sample) \<and>
        unat (lpsched_ewma avg sample) \<le> max (unat avg) (min (unat sample) 4294967295)"
proof -
  have "min a m \<le> a - a div 4 + m div 4 \<and> a - a div 4 + m div 4 \<le> max a m" for a m :: nat
    using quarter_step_up [of a m] quarter_step_down [of m a] by (cases "a \<le> m") simp_all
  then show ?thesis unfolding unat_ewma by (simp del: min_less_iff_conj)
qed

text \<open>
  The histogram bucket of a wait of \<open>us\<close> microseconds: bucket \<open>b\<close> below the last holds waits
  under \<open>8 * 2 ^ b\<close>, and every bucket but the first waits of at least half that.
\<close>

lemma wait_bucket_range:
  assumes P: "fls64_doc P" and "lpsched_wait_bucket P us = b"
  shows "b \<le> 15 \<and> (b < 15 \<longrightarrow> unat us < 8 * 2 ^ b) \<and> (0 < b \<longrightarrow> 8 * 2 ^ (b - 1) \<le> unat us)"
proof (cases "drop_bit 3 us = 0")
  case True
  have u: "unat (drop_bit 3 us) = unat us div 8" by (simp add: drop_bit_eq_div unat_div)
  with True have "unat us div 8 = 0" by (simp only: unat_0)
  then show ?thesis using assms(2) True by (simp add: lpsched_wait_bucket_def)
next
  case False
  let ?x = "drop_bit 3 us"
  have u: "unat ?x = unat us div 8" by (simp add: drop_bit_eq_div unat_div)
  have f: "0 < fls64 P ?x" "2 ^ (fls64 P ?x - 1) \<le> unat us div 8" "unat us div 8 < 2 ^ fls64 P ?x"
    using P False unfolding fls64_doc_def u [symmetric] by blast+
  have b: "b = min (fls64 P ?x) 15" using assms(2) False by (simp add: lpsched_wait_bucket_def)
  have "(2::nat) ^ (b - 1) \<le> 2 ^ (fls64 P ?x - 1)" using b by (intro power_increasing) auto
  with f(2) have "8 * 2 ^ (b - 1) \<le> unat us" by linarith
  moreover have "b < 15 \<Longrightarrow> unat us < 8 * 2 ^ b" using f(3) b by (simp add: min_def split: if_splits)
  ultimately show ?thesis using b by simp
qed

lemma lpsched_us_eq:
  "lpsched_tsc_mhz s \<noteq> 0 \<Longrightarrow>
   lpsched_us P cur from to s = (if to > from then (to - from) div lpsched_tsc_mhz s else 0, s)"
  by (simp add: lpsched_us_def)

lemma upd_cpu_apply [simp]:
  "lpsched_cpus (upd_cpu i f s) j = (if j = i then f (lpsched_cpus s i) else lpsched_cpus s j)"
  by (simp add: upd_cpu_def)

lemma upd_cpu_frame [simp]:
  "lpsched_idles (upd_cpu i f s) = lpsched_idles s" "lpsched_tsc_mhz (upd_cpu i f s) = lpsched_tsc_mhz s"
  "lpsched_fgpid (upd_cpu i f s) = lpsched_fgpid s" "lpsched_enabled (upd_cpu i f s) = lpsched_enabled s"
  "lpsched_idle_acct (upd_cpu i f s) = lpsched_idle_acct s" "lpsched_pack (upd_cpu i f s) = lpsched_pack s"
  "lpsched_coalesce_ms (upd_cpu i f s) = lpsched_coalesce_ms s"
  "lpsched_stats_enabled (upd_cpu i f s) = lpsched_stats_enabled s"
  "lpsched_latency (upd_cpu i f s) = lpsched_latency s"
  "lpsched_estcpu_thresh (upd_cpu i f s) = lpsched_estcpu_thresh s"
  "lpsched_wait_budget_us (upd_cpu i f s) = lpsched_wait_budget_us s"
  by (simp_all add: upd_cpu_def)

lemma lpsched_class_frame [simp]:
  "lpsched_class (upd_cpu i f s) l = lpsched_class s l"
  "lpsched_class s (l \<lparr> l_lp_burst_us := b, l_lp_oncpu := t \<rparr>) = lpsched_class s l"
  by (simp_all add: lpsched_class_def)

lemma switch_prev_cases:
  assumes "lpsched_tsc_mhz s \<noteq> 0"
  obtains "lpsched_switch_prev P now i prev (L, s) = (L, s)"
  | p b r where "lpsched_switch_prev P now i prev (L, s) =
      (L(p := (L p) \<lparr> l_lp_burst_us := b, l_lp_oncpu := 0 \<rparr>), upd_cpu i (\<lambda>pc. pc \<lparr> pc_run_us := r pc \<rparr>) s)"
proof (cases prev)
  case None
  then show ?thesis by (intro that(1)) (simp add: lpsched_switch_prev_def)
next
  case (Some p)
  show ?thesis
  proof (cases "l_flag (L p) AND LW_IDLE = 0 \<and> l_lp_oncpu (L p) \<noteq> 0")
    case True
    then show ?thesis
      using Some by (intro that(2)) (simp add: lpsched_switch_prev_def lpsched_us_eq [OF assms] Let_def)
  next
    case False
    then show ?thesis using Some by (intro that(1)) (auto simp: lpsched_switch_prev_def)
  qed
qed

lemma switch_prev_frame:
  assumes mhz: "lpsched_tsc_mhz s \<noteq> 0" and r: "lpsched_switch_prev P now i prev (L, s) = (L', s')"
  shows "lpsched_tsc_mhz s' = lpsched_tsc_mhz s" "lpsched_fgpid s' = lpsched_fgpid s"
    "l_lp_runnable (L' n) = l_lp_runnable (L n)" "l_lp_wait_us (L' n) = l_lp_wait_us (L n)"
    "lpsched_class s' (L' n) = lpsched_class s (L n)"
    "pc_lat (lpsched_cpus s' j) = pc_lat (lpsched_cpus s j)"
    "pc_wait_us (lpsched_cpus s' j) = pc_wait_us (lpsched_cpus s j)"
    "pc_wait_max_us (lpsched_cpus s' j) = pc_wait_max_us (lpsched_cpus s j)"
    "j \<noteq> i \<Longrightarrow> lpsched_cpus s' j = lpsched_cpus s j"
proof -
  have "lpsched_tsc_mhz s' = lpsched_tsc_mhz s \<and> lpsched_fgpid s' = lpsched_fgpid s \<and>
    l_lp_runnable (L' n) = l_lp_runnable (L n) \<and> l_lp_wait_us (L' n) = l_lp_wait_us (L n) \<and>
    lpsched_class s' (L' n) = lpsched_class s (L n) \<and>
    pc_lat (lpsched_cpus s' j) = pc_lat (lpsched_cpus s j) \<and>
    pc_wait_us (lpsched_cpus s' j) = pc_wait_us (lpsched_cpus s j) \<and>
    pc_wait_max_us (lpsched_cpus s' j) = pc_wait_max_us (lpsched_cpus s j) \<and>
    (j \<noteq> i \<longrightarrow> lpsched_cpus s' j = lpsched_cpus s j)"
    using r by (rule_tac switch_prev_cases [OF mhz, of P now i prev L]) auto
  then show "lpsched_tsc_mhz s' = lpsched_tsc_mhz s" "lpsched_fgpid s' = lpsched_fgpid s"
    "l_lp_runnable (L' n) = l_lp_runnable (L n)" "l_lp_wait_us (L' n) = l_lp_wait_us (L n)"
    "lpsched_class s' (L' n) = lpsched_class s (L n)"
    "pc_lat (lpsched_cpus s' j) = pc_lat (lpsched_cpus s j)"
    "pc_wait_us (lpsched_cpus s' j) = pc_wait_us (lpsched_cpus s j)"
    "pc_wait_max_us (lpsched_cpus s' j) = pc_wait_max_us (lpsched_cpus s j)"
    "j \<noteq> i \<Longrightarrow> lpsched_cpus s' j = lpsched_cpus s j" by blast+
qed

text \<open>
  What recording one wait does to a CPU's latency counters: one bucket of the class, the one the
  wait falls into, is incremented, the total grows by the wait and the maximum covers it.
\<close>

definition lat_recorded :: "nat \<Rightarrow> u64 \<Rightarrow> lpsched_cpu \<Rightarrow> lpsched_cpu \<Rightarrow> bool" where
  "lat_recorded cl us pc pc' \<longleftrightarrow> (\<exists>b\<le>15. (b < 15 \<longrightarrow> unat us < 8 * 2 ^ b) \<and> (0 < b \<longrightarrow> 8 * 2 ^ (b - 1) \<le> unat us) \<and>
      pc_lat pc' = (pc_lat pc)(cl := (pc_lat pc cl)(b := pc_lat pc cl b + 1))) \<and>
    pc_wait_us pc' = (pc_wait_us pc)(cl := pc_wait_us pc cl + us) \<and>
    (\<forall>k. unat (pc_wait_max_us pc' k) = (if k = cl then max (unat (pc_wait_max_us pc k)) (unat us)
      else unat (pc_wait_max_us pc k)))"

definition lat_same :: "lpsched_cpu \<Rightarrow> lpsched_cpu \<Rightarrow> bool" where
  "lat_same pc pc' \<longleftrightarrow> pc_lat pc' = pc_lat pc \<and> pc_wait_us pc' = pc_wait_us pc \<and>
    pc_wait_max_us pc' = pc_wait_max_us pc"

lemma lat_recorded_upd [simp]:
  "lat_recorded cl us pc (pc' \<lparr> pc_critical := c, pc_cur_burst_us := b \<rparr>) = lat_recorded cl us pc pc'"
  "lat_same pc (pc' \<lparr> pc_critical := c, pc_cur_burst_us := b \<rparr>) = lat_same pc pc'"
  by (simp_all add: lat_recorded_def lat_same_def)

lemma lat_recorded_cong:
  assumes "pc_lat pc = pc_lat pd" "pc_wait_us pc = pc_wait_us pd" "pc_wait_max_us pc = pc_wait_max_us pd"
  shows "lat_recorded cl us pc pc' = lat_recorded cl us pd pc'" "lat_same pc pc' = lat_same pd pc'"
  using assms by (simp_all add: lat_recorded_def lat_same_def)

lemma record_wait_recorded:
  assumes "fls64_doc P" "us < 60000000"
  shows "lat_recorded cl us pc (lpsched_record_wait P cl us pc)"
proof -
  have u: "unat (ucast us :: u32) = unat us"
    using assms(2) by (simp add: word_less_nat_alt unsigned_ucast_eq take_bit_nat_eq_self)
  have m: "unat m < 4294967296" for m :: u32 using unsigned_less [of m] by simp
  have v: "us > ucast m \<longleftrightarrow> unat us > unat m" for m :: u32
    using m [of m] by (simp add: word_less_nat_alt unsigned_ucast_eq take_bit_nat_eq_self)
  have "unat (pc_wait_max_us (lpsched_record_wait P cl us pc) k) =
      (if k = cl then max (unat (pc_wait_max_us pc k)) (unat us) else unat (pc_wait_max_us pc k))" for k
    using u v [of "pc_wait_max_us pc cl"] by (simp add: lpsched_record_wait_def Let_def max_def)
  then show ?thesis
    using wait_bucket_range [OF assms(1) refl, of us]
    by (auto simp: lat_recorded_def lpsched_record_wait_def Let_def)
qed

lemma switch_next_wait:
  assumes P: "fls64_doc P" and run: "l_lp_runnable (L n) \<noteq> 0"
    and us: "lpsched_us P i (l_lp_runnable (L n)) now s = (us, s)"
    and r: "lpsched_switch_next P now i (Some n) (L, s) = (L', s')"
  shows "l_lp_runnable (L' n) = 0 \<and> l_lp_oncpu (L' n) = now \<and>
    (if us < 60000000
     then lat_recorded (lpsched_class s (L n)) us (lpsched_cpus s i) (lpsched_cpus s' i) \<and>
          l_lp_wait_us (L' n) = lpsched_ewma (l_lp_wait_us (L n)) us
     else lat_same (lpsched_cpus s i) (lpsched_cpus s' i) \<and> l_lp_wait_us (L' n) = l_lp_wait_us (L n)) \<and>
    (\<forall>j. j = i \<or> lpsched_cpus s' j = lpsched_cpus s j)"
proof (cases "us < 60000000")
  case True
  then show ?thesis
    using r us run record_wait_recorded [OF P True, of "lpsched_class s (L n)" "lpsched_cpus s i"]
    unfolding lpsched_switch_next_def by (auto simp: Let_def split: if_splits)
next
  case False
  then show ?thesis
    using r us run unfolding lpsched_switch_next_def by (auto simp: Let_def lat_same_def split: if_splits)
qed

text \<open>
  C32: at a context switch the next thread's wait is recorded once and correctly. The thread leaves
  the runnable state and its burst starts now; a wait under a minute goes to exactly the bucket
  of its length and class, to the total and to the maximum, and into the thread's average, and
  an older stamp changes no counter; no other CPU's entry changes. The previous thread may be any
  thread, the next one included.
\<close>

theorem lpsched_switch_wait:
  assumes "fls64_doc P" "i < MAXCPUS P" "lpsched_tsc_mhz s \<noteq> 0" "l_lp_runnable (L n) \<noteq> 0"
    and us: "us = (if now > l_lp_runnable (L n) then (now - l_lp_runnable (L n)) div lpsched_tsc_mhz s else 0)"
    and run: "lpsched_switch P now i prev (Some n) (L, s) = (L', s')"
  shows "l_lp_runnable (L' n) = 0 \<and> l_lp_oncpu (L' n) = now \<and>
    (if us < 60000000
     then lat_recorded (lpsched_class s (L n)) us (lpsched_cpus s i) (lpsched_cpus s' i) \<and>
          l_lp_wait_us (L' n) = lpsched_ewma (l_lp_wait_us (L n)) us
     else lat_same (lpsched_cpus s i) (lpsched_cpus s' i) \<and> l_lp_wait_us (L' n) = l_lp_wait_us (L n)) \<and>
    (\<forall>j. j = i \<or> lpsched_cpus s' j = lpsched_cpus s j)"
proof -
  obtain L1 s1 where p: "lpsched_switch_prev P now i prev (L, s) = (L1, s1)" by fastforce
  note f = switch_prev_frame [OF assms(3) p]
  have r: "lpsched_switch_next P now i (Some n) (L1, s1) = (L', s')"
    using run assms(2) p by (simp add: lpsched_switch_def)
  have us1: "lpsched_us P i (l_lp_runnable (L1 n)) now s1 = (us, s1)"
    using f us assms(3) by (simp add: lpsched_us_eq)
  have "l_lp_runnable (L1 n) \<noteq> 0" using f assms(4) by simp
  from switch_next_wait [OF assms(1) this us1 r] show ?thesis
    unfolding lat_recorded_cong [OF f(6-8) [of i]] f(4,5) using f(9) by (auto split: if_splits) metis+
qed

section \<open>Sample data for the witnesses\<close>

definition sample_platform :: platform where
  "sample_platform = \<lparr> fls64 = \<lambda>x. floorlog 2 (unat x), MAXCPUS = 8, cpu_frequency = \<lambda>_. 2000000000,
    hz = 100, mstohz = \<lambda>ms. (ms * 100 + 999) div 1000 \<rparr>"

lemma fls64_doc_sample: "fls64_doc sample_platform"
  using floorlog_bounds [of "unat x" 2 for x :: u64]
  by (auto simp: fls64_doc_def sample_platform_def floorlog_def unat_gt_0 word_neq_0_conv)

definition sample_lwp :: lwp where
  "sample_lwp = \<lparr> l_cpu = 0, l_stat = LSRUN, l_flag = 0, l_pflag = 0, l_rticks = 0, l_rticksum = 0,
    l_slpticksum = 0, l_slptime = 0, l_class = SCHED_OTHER, l_boostpri = 0, l_priority = 40,
    l_inheritedprio = -1, l_protectprio = -1, l_auxprio = -1, l_psid = 0, l_estcpu = 0, l_target_cpu = None,
    l_affinity = None, l_wchan = False, l_vforkwaiting = False, l_switchto = None, l_dopreempt = 0, l_proc0 = False, l_pid = 7, l_lp_runnable = 0, l_lp_oncpu = 0,
    l_lp_burst_us = 0, l_lp_wait_us = 0 \<rparr>"

theorem lpsched_switch_wait_witness:
  "let L = (\<lambda>_. sample_lwp)(5 := sample_lwp \<lparr> l_lp_runnable := 1000 \<rparr>);
       s = lpsched_boot \<lparr> lpsched_tsc_mhz := 2000 \<rparr>;
       r = lpsched_switch sample_platform 201000 0 (Some 3) (Some 5) (L, s)
   in l_lp_runnable (fst r 5) = 0 \<and> lat_recorded 1 100 (lpsched_cpus s 0) (lpsched_cpus (snd r) 0)"
proof -
  let ?L = "(\<lambda>_. sample_lwp)(5 := sample_lwp \<lparr> l_lp_runnable := 1000 \<rparr>)"
  let ?s = "lpsched_boot \<lparr> lpsched_tsc_mhz := 2000 \<rparr>"
  let ?r = "lpsched_switch sample_platform 201000 0 (Some 3) (Some 5) (?L, ?s)"
  have c: "lpsched_class ?s (?L 5) = 1"
    by (simp add: lpsched_class_def sample_lwp_def lpsched_boot_def)
  have "l_lp_runnable (fst ?r 5) = 0 \<and> lat_recorded 1 100 (lpsched_cpus ?s 0) (lpsched_cpus (snd ?r) 0)"
    using lpsched_switch_wait [of sample_platform 0 ?s ?L 5 100 201000 "Some 3" "fst ?r" "snd ?r"]
      fls64_doc_sample unfolding c by (simp add: sample_platform_def)
  then show ?thesis by (simp only: Let_def)
qed

end
