(* ===== verification/Callout.thy ===== *)
theory Callout
  imports Circq Wheel Lpsched
begin

text \<open>
  The callout facility of \<^verbatim>\<open>kernel/kern/kern_timeout.c\<close>: callouts, the per-CPU timing wheels,
  scheduling with the power scheduler's coalescing, cancelling and waiting, the clock and soft
  clock interrupts, and the cached next deadline of the tickless idle.

  Callouts and CPUs are numbers; the queues are lists (\<open>Circq\<close> shows that the pointer macros
  implement these list operations). Each definition is what the function does while it holds the
  callout lock. \<open>cur\<close> is the CPU the code runs on, \<open>me\<close> the running thread. What happens
  while the lock is dropped, a callout's function running or a thread sleeping, is a parameter:
  a function on the whole state.
\<close>

section \<open>State\<close>

abbreviation (input) CALLOUT_BOUND :: u32 where "CALLOUT_BOUND \<equiv> 0x0001"
abbreviation (input) CALLOUT_PENDING :: u32 where "CALLOUT_PENDING \<equiv> 0x0002"
abbreviation (input) CALLOUT_FIRED :: u32 where "CALLOUT_FIRED \<equiv> 0x0004"
abbreviation (input) CALLOUT_INVOKING :: u32 where "CALLOUT_INVOKING \<equiv> 0x0008"
abbreviation (input) CALLOUT_MPSAFE :: u32 where "CALLOUT_MPSAFE \<equiv> 0x0100"
abbreviation (input) CALLOUT_PRECISE :: u32 where "CALLOUT_PRECISE \<equiv> 0x0200"
abbreviation (input) CALLOUT_SLACK :: u32 where "CALLOUT_SLACK \<equiv> 0x0400"
abbreviation (input) CALLOUT_DEFERRABLE :: u32 where "CALLOUT_DEFERRABLE \<equiv> 0x0800"
abbreviation (input) CALLOUT_MAGIC :: u32 where "CALLOUT_MAGIC \<equiv> 0x11deeba1"
abbreviation (input) CALLOUT_NO_NEXT :: int where "CALLOUT_NO_NEXT \<equiv> 0x3fffffff"
abbreviation (input) BUCKETS :: nat where "BUCKETS \<equiv> 1024"

record callout =
  c_func :: "nat option"
  c_arg :: nat
  c_cpu :: nat
  c_time :: u32
  c_flags :: u32
  c_magic :: u32

record callout_cpu =
  cc_nwait :: u32
  cc_ticks :: u32
  cc_lwp :: "nat option"
  cc_active :: "nat option"
  cc_ev_late :: u64
  cc_ev_block :: u64
  cc_todo :: "nat list"
  cc_wheel :: "nat \<Rightarrow> nat list"
  cc_next_gen :: u32
  cc_next_none :: bool
  cc_next_time :: u32
  cc_next_hits :: u64
  cc_next_scans :: u64
  cc_deferred_skips :: u64

record callouts =
  co_tab :: "nat \<Rightarrow> callout"
  co_cpu :: "nat \<Rightarrow> callout_cpu"
  callout_deferrable_enabled :: bool
  callout_next_gen :: u32
  co_lp :: lpsched

definition set_co :: "nat \<Rightarrow> callout \<Rightarrow> callouts \<Rightarrow> callouts" where
  "set_co c v s = s \<lparr> co_tab := (co_tab s)(c := v) \<rparr>"

definition upd_cc :: "nat \<Rightarrow> (callout_cpu \<Rightarrow> callout_cpu) \<Rightarrow> callouts \<Rightarrow> callouts" where
  "upd_cc k f s = s \<lparr> co_cpu := (co_cpu s)(k := f (co_cpu s k)) \<rparr>"

definition co_flag :: "u32 \<Rightarrow> callout \<Rightarrow> bool" where
  "co_flag m c \<longleftrightarrow> c_flags c AND m \<noteq> 0"

text \<open>An empty callout CPU, as \<^verbatim>\<open>callout_startup\<close> and \<^verbatim>\<open>callout_init_cpu\<close> leave it.\<close>

definition callout_cpu_init :: callout_cpu where
  "callout_cpu_init = \<lparr> cc_nwait = 0, cc_ticks = 0, cc_lwp = None, cc_active = None, cc_ev_late = 0,
    cc_ev_block = 0, cc_todo = [], cc_wheel = \<lambda>_. [], cc_next_gen = 0, cc_next_none = False,
    cc_next_time = 0, cc_next_hits = 0, cc_next_scans = 0, cc_deferred_skips = 0 \<rparr>"

definition callout_init_cpu :: "nat \<Rightarrow> bool \<Rightarrow> callouts \<Rightarrow> callouts" where
  "callout_init_cpu ci boot s =
    (if \<not> boot then upd_cc ci (\<lambda>_. callout_cpu_init) s else s)"

section \<open>The wheel\<close>

definition MOVEBUCKET :: "nat \<Rightarrow> u32 \<Rightarrow> callout_cpu \<Rightarrow> callout_cpu" where
  "MOVEBUCKET wheel time cc =
    (let b = MASKWHEEL wheel time + wheel * WHEELSIZE
     in cc \<lparr> cc_todo := cc_todo cc @ cc_wheel cc b, cc_wheel := (cc_wheel cc)(b := []) \<rparr>)"

text \<open>Removing a callout from the queue it is on, and inserting it at the end of a queue.\<close>

definition cc_remove :: "nat \<Rightarrow> callout_cpu \<Rightarrow> callout_cpu" where
  "cc_remove c cc = cc \<lparr> cc_todo := remove1 c (cc_todo cc), cc_wheel := \<lambda>b. remove1 c (cc_wheel cc b) \<rparr>"

definition todo_insert :: "nat \<Rightarrow> callout_cpu \<Rightarrow> callout_cpu" where
  "todo_insert c cc = cc \<lparr> cc_todo := cc_todo cc @ [c] \<rparr>"

definition wheel_insert :: "nat \<Rightarrow> nat \<Rightarrow> callout_cpu \<Rightarrow> callout_cpu" where
  "wheel_insert c b cc = cc \<lparr> cc_wheel := (cc_wheel cc)(b := cc_wheel cc b @ [c]) \<rparr>"

section \<open>Setting up and tearing down\<close>

definition callout_init :: "nat \<Rightarrow> bool \<Rightarrow> nat \<Rightarrow> u32 \<Rightarrow> callouts \<Rightarrow> callouts" where
  "callout_init cur has_cc c flags s =
    (let v = (co_tab s c) \<lparr> c_func := None, c_magic := CALLOUT_MAGIC \<rparr>
     in if flags AND CALLOUT_MPSAFE \<noteq> 0 \<and> has_cc
        then set_co c (v \<lparr> c_flags := flags, c_cpu := cur \<rparr>) s
        else set_co c (v \<lparr> c_flags := flags OR CALLOUT_BOUND, c_cpu := 0 \<rparr>) s)"

definition callout_running_somewhere_else :: "nat \<Rightarrow> nat \<Rightarrow> callouts \<Rightarrow> bool" where
  "callout_running_somewhere_else me c s \<longleftrightarrow>
    (let cc = co_cpu s (c_cpu (co_tab s c)) in cc_active cc = Some c \<and> cc_lwp cc \<noteq> Some me)"

text \<open>\<open>None\<close> is a failed assertion: the callout is not initialised, pending, or running.\<close>

definition callout_destroy :: "nat \<Rightarrow> nat \<Rightarrow> callouts \<Rightarrow> callouts option" where
  "callout_destroy me c s =
    (if c_magic (co_tab s c) \<noteq> CALLOUT_MAGIC \<or> co_flag CALLOUT_PENDING (co_tab s c) \<or>
        callout_running_somewhere_else me c s
     then None else Some (set_co c ((co_tab s c) \<lparr> c_magic := 0 \<rparr>) s))"

section \<open>Scheduling\<close>

text \<open>
  \<^verbatim>\<open>lpsched_coalesce\<close>. The tick arithmetic wraps; \<open>to_ticks\<close> is nonnegative, as the caller
  asserts. Beside the new absolute time it returns the power scheduler's counters.
\<close>

definition lpsched_coalesce ::
    "platform \<Rightarrow> nat \<Rightarrow> u32 \<Rightarrow> callout \<Rightarrow> int \<Rightarrow> u32 \<Rightarrow> lpsched \<Rightarrow> u32 \<times> lpsched" where
  "lpsched_coalesce P cur getticks c to_ticks now lp =
    (let abst = word_of_int to_ticks + now
     in if lpsched_enabled lp = 0 \<or> lpsched_coalesce_ms lp = 0 \<or> to_ticks = 0 then (abst, lp)
        else if co_flag CALLOUT_PRECISE c then (abst, lpsched_stat P cur LPSCHED_ST_COAL_PRECISE lp)
        else if \<not> co_flag CALLOUT_SLACK c then (abst, lpsched_stat P cur LPSCHED_ST_COAL_NOSLACK lp)
        else
          let grid = mstohz P (lpsched_coalesce_ms lp)
          in if grid \<le> 1 then (abst, lp)
             else if to_ticks < 2 * grid then (abst, lpsched_stat P cur LPSCHED_ST_COAL_SHORT lp)
             else
               let rem = (getticks + word_of_int to_ticks) mod word_of_int grid;
                   delta = (if rem \<noteq> 0 then grid - uint rem else 0);
                   lp = (if delta \<noteq> 0 then lpsched_stat P cur LPSCHED_ST_COAL_APPLIED lp else lp)
               in (abst + word_of_int delta, lp))"

text \<open>Storing a coalesced time computed against the ticks of CPU \<open>k\<close>.\<close>

definition set_time :: "platform \<Rightarrow> nat \<Rightarrow> u32 \<Rightarrow> nat \<Rightarrow> nat \<Rightarrow> int \<Rightarrow> callouts \<Rightarrow> callouts" where
  "set_time P cur getticks k c to_ticks s =
    (let (t, lp) = lpsched_coalesce P cur getticks (co_tab s c) to_ticks (cc_ticks (co_cpu s k)) (co_lp s)
     in (set_co c ((co_tab s c) \<lparr> c_time := t \<rparr>) s) \<lparr> co_lp := lp \<rparr>)"

definition set_flags :: "nat \<Rightarrow> (u32 \<Rightarrow> u32) \<Rightarrow> callouts \<Rightarrow> callouts" where
  "set_flags c f s = set_co c ((co_tab s c) \<lparr> c_flags := f (c_flags (co_tab s c)) \<rparr>) s"

definition callout_schedule_locked ::
    "platform \<Rightarrow> nat \<Rightarrow> u32 \<Rightarrow> bool \<Rightarrow> nat \<Rightarrow> int \<Rightarrow> callouts \<Rightarrow> callouts" where
  "callout_schedule_locked P cur getticks tryenter c to_ticks s =
    (let occ = c_cpu (co_tab s c);
         s = set_flags c (\<lambda>f. f AND NOT (CALLOUT_FIRED OR CALLOUT_INVOKING)) s
     in if co_flag CALLOUT_PENDING (co_tab s c) then
          let old_time = c_time (co_tab s c);
              s = set_time P cur getticks occ c to_ticks s
          in if sint (c_time (co_tab s c) - old_time) < 0
             then upd_cc occ (\<lambda>cc. todo_insert c (cc_remove c cc)) s else s
        else if co_flag CALLOUT_BOUND (co_tab s c) \<or> cur = occ \<or> \<not> tryenter then
          let s = set_time P cur getticks occ c to_ticks s;
              s = set_flags c (\<lambda>f. f OR CALLOUT_PENDING) s
          in upd_cc occ (todo_insert c) s
        else
          let s = set_co c ((co_tab s c) \<lparr> c_cpu := cur \<rparr>) s;
              s = set_time P cur getticks cur c to_ticks s;
              s = set_flags c (\<lambda>f. f OR CALLOUT_PENDING) s
          in upd_cc cur (todo_insert c) s)"

definition callout_setfunc :: "nat \<Rightarrow> nat \<Rightarrow> nat \<Rightarrow> callouts \<Rightarrow> callouts" where
  "callout_setfunc c func arg s = set_co c ((co_tab s c) \<lparr> c_func := Some func, c_arg := arg \<rparr>) s"

definition callout_reset ::
    "platform \<Rightarrow> nat \<Rightarrow> u32 \<Rightarrow> bool \<Rightarrow> nat \<Rightarrow> int \<Rightarrow> nat \<Rightarrow> nat \<Rightarrow> callouts \<Rightarrow> callouts" where
  "callout_reset P cur getticks tryenter c to_ticks func arg s =
    callout_schedule_locked P cur getticks tryenter c to_ticks
      (set_co c ((co_tab s c) \<lparr> c_func := Some func, c_arg := arg \<rparr>) s)"

definition callout_schedule ::
    "platform \<Rightarrow> nat \<Rightarrow> u32 \<Rightarrow> bool \<Rightarrow> nat \<Rightarrow> int \<Rightarrow> callouts \<Rightarrow> callouts" where
  "callout_schedule P cur getticks tryenter c to_ticks s =
    callout_schedule_locked P cur getticks tryenter c to_ticks s"

section \<open>Cancelling\<close>

text \<open>The part \<^verbatim>\<open>callout_stop\<close>, \<^verbatim>\<open>callout_halt\<close> and \<^verbatim>\<open>callout_wait\<close> share.\<close>

definition callout_cancel :: "nat \<Rightarrow> callouts \<Rightarrow> callouts" where
  "callout_cancel c s =
    (let s = (if co_flag CALLOUT_PENDING (co_tab s c) then upd_cc (c_cpu (co_tab s c)) (cc_remove c) s else s)
     in set_flags c (\<lambda>f. f AND NOT (CALLOUT_PENDING OR CALLOUT_FIRED)) s)"

definition callout_stop :: "nat \<Rightarrow> callouts \<Rightarrow> bool \<times> callouts" where
  "callout_stop c s = (co_flag CALLOUT_FIRED (co_tab s c), callout_cancel c s)"

text \<open>
  The loop of \<^verbatim>\<open>callout_wait\<close>. With an interlock, the first pass over a running callout drops the
  interlock and both locks and looks again; without one the thread sleeps. \<open>env\<close> is what
  happens in between. The result tells whether the interlock was dropped.
\<close>

partial_function (option) callout_wait ::
    "(callouts \<Rightarrow> callouts) \<Rightarrow> nat \<Rightarrow> nat \<Rightarrow> bool \<Rightarrow> bool \<Rightarrow> callouts \<Rightarrow> (bool \<times> callouts) option" where
  "callout_wait env me c interlock relock s =
    (if \<not> callout_running_somewhere_else me c s then Some (relock, s)
     else if interlock then callout_wait env me c False True (callout_cancel c (env s))
     else callout_wait env me c False relock (callout_cancel c (env
       (upd_cc (c_cpu (co_tab s c)) (\<lambda>cc. cc \<lparr> cc_nwait := cc_nwait cc + 1, cc_ev_block := cc_ev_block cc + 1 \<rparr>) s))))"

definition callout_halt ::
    "(callouts \<Rightarrow> callouts) \<Rightarrow> nat \<Rightarrow> nat \<Rightarrow> bool \<Rightarrow> callouts \<Rightarrow> (bool \<times> callouts) option" where
  "callout_halt env me c interlock s =
    (let s = callout_cancel c s
     in if callout_running_somewhere_else me c s
        then map_option (\<lambda>(_, s). (True, s)) (callout_wait env me c interlock False s)
        else Some (False, s))"

section \<open>Queries\<close>

definition callout_expired :: "nat \<Rightarrow> callouts \<Rightarrow> bool" where
  "callout_expired c s = co_flag CALLOUT_FIRED (co_tab s c)"

definition callout_active :: "nat \<Rightarrow> callouts \<Rightarrow> bool" where
  "callout_active c s = co_flag (CALLOUT_PENDING OR CALLOUT_FIRED) (co_tab s c)"

definition callout_pending :: "nat \<Rightarrow> callouts \<Rightarrow> bool" where
  "callout_pending c s = co_flag CALLOUT_PENDING (co_tab s c)"

definition callout_invoking :: "nat \<Rightarrow> callouts \<Rightarrow> bool" where
  "callout_invoking c s = co_flag CALLOUT_INVOKING (co_tab s c)"

definition callout_ack :: "nat \<Rightarrow> callouts \<Rightarrow> callouts" where
  "callout_ack c s = set_flags c (\<lambda>f. f AND NOT CALLOUT_INVOKING) s"

section \<open>The clock\<close>

text \<open>Result: whether the soft interrupt is scheduled.\<close>

definition hardclock_cc :: "callout_cpu \<Rightarrow> callout_cpu" where
  "hardclock_cc cc =
    (let cc = cc \<lparr> cc_ticks := cc_ticks cc + 1 \<rparr>;
         ticks = cc_ticks cc;
         cc = MOVEBUCKET 0 ticks cc
     in if MASKWHEEL 0 ticks = 0 then
          let cc = MOVEBUCKET 1 ticks cc
          in if MASKWHEEL 1 ticks = 0 then
               let cc = MOVEBUCKET 2 ticks cc
               in if MASKWHEEL 2 ticks = 0 then MOVEBUCKET 3 ticks cc else cc
             else cc
        else cc)"

definition callout_hardclock :: "nat \<Rightarrow> callouts \<Rightarrow> bool \<times> callouts" where
  "callout_hardclock cur s =
    (let s = upd_cc cur hardclock_cc s
     in (cc_todo (co_cpu s cur) \<noteq> [], s))"

section \<open>The next deadline\<close>

definition sysctl_kern_callout_deferrable ::
    "sysctl_lookup \<Rightarrow> int option \<Rightarrow> callouts \<Rightarrow> errno option \<times> callouts" where
  "sysctl_kern_callout_deferrable lk newp s =
    (let (error, t) = lk newp (if callout_deferrable_enabled s then 1 else 0)
     in if error \<noteq> None \<or> newp = None then (error, s)
        else
          let s = s \<lparr> callout_deferrable_enabled := (t \<noteq> 0) \<rparr>;
              g = callout_next_gen s + 1
          in (None, s \<lparr> callout_next_gen := (if g = 0 then g + 1 else g) \<rparr>))"

definition callout_cpu_sum :: "nat list \<Rightarrow> (callout_cpu \<Rightarrow> u64) \<Rightarrow> callouts \<Rightarrow> u64" where
  "callout_cpu_sum cpus f s = sum_list (map (\<lambda>k. f (co_cpu s k)) cpus)"

definition callout_setdeferrable :: "nat \<Rightarrow> bool \<Rightarrow> callouts \<Rightarrow> callouts" where
  "callout_setdeferrable c deferrable s =
    (if deferrable then set_flags c (\<lambda>f. f OR CALLOUT_DEFERRABLE) s
     else upd_cc (c_cpu (co_tab s c)) (\<lambda>cc. cc \<lparr> cc_next_gen := 0 \<rparr>)
       (set_flags c (\<lambda>f. f AND NOT CALLOUT_DEFERRABLE) s))"

definition callout_next_honoured :: "bool \<Rightarrow> callout \<Rightarrow> bool" where
  "callout_next_honoured deferrable_enabled c \<longleftrightarrow> \<not> deferrable_enabled \<or> \<not> co_flag CALLOUT_DEFERRABLE c"

definition callout_next_note :: "u32 \<Rightarrow> bool \<Rightarrow> callout \<Rightarrow> callout_cpu \<Rightarrow> callout_cpu" where
  "callout_next_note gen deferrable_enabled c cc =
    (if cc_next_gen cc \<noteq> gen \<or> \<not> callout_next_honoured deferrable_enabled c then cc
     else if cc_next_none cc \<or> sint (c_time c - cc_next_time cc) < 0
     then cc \<lparr> cc_next_none := False, cc_next_time := c_time c \<rparr>
     else cc)"

text \<open>
  The scan of \<^verbatim>\<open>callout_next_ticks\<close> over the callouts of the wheel, bucket by bucket, with its
  four running variables: the callouts passed over, whether none counted so far, the smallest
  distance, and the time it belongs to.
\<close>

record next_scan =
  ns_skipped :: u64
  ns_none :: bool
  ns_best :: int
  ns_earliest :: u32

definition next_scan_one :: "bool \<Rightarrow> u32 \<Rightarrow> callout \<Rightarrow> next_scan \<Rightarrow> next_scan" where
  "next_scan_one deferrable_enabled ticks c n =
    (if \<not> callout_next_honoured deferrable_enabled c then n \<lparr> ns_skipped := ns_skipped n + 1 \<rparr>
     else
       let delta = sint (c_time c - ticks)
       in if ns_none n \<or> delta < ns_best n
          then n \<lparr> ns_best := delta, ns_earliest := c_time c, ns_none := False \<rparr> else n)"

definition next_scan_all :: "(nat \<Rightarrow> callout) \<Rightarrow> bool \<Rightarrow> callout_cpu \<Rightarrow> next_scan" where
  "next_scan_all tab deferrable_enabled cc =
    fold (\<lambda>i. fold (\<lambda>c. next_scan_one deferrable_enabled (cc_ticks cc) (tab c)) (cc_wheel cc i)) [0..<BUCKETS]
      \<lparr> ns_skipped = 0, ns_none = True, ns_best = CALLOUT_NO_NEXT, ns_earliest = 0 \<rparr>"

definition callout_next_ticks :: "nat \<Rightarrow> callouts \<Rightarrow> int \<times> callouts" where
  "callout_next_ticks cur s =
    (let cc = co_cpu s cur; gen = callout_next_gen s;
         delta = sint (cc_next_time cc - cc_ticks cc);
         (best, cc) =
           (if cc_todo cc \<noteq> [] then (0, cc)
            else if cc_next_gen cc = gen \<and> cc_next_none cc
            then (CALLOUT_NO_NEXT, cc \<lparr> cc_next_hits := cc_next_hits cc + 1 \<rparr>)
            else if cc_next_gen cc = gen \<and> delta > 0
            then (delta, cc \<lparr> cc_next_hits := cc_next_hits cc + 1 \<rparr>)
            else
              let n = next_scan_all (co_tab s) (callout_deferrable_enabled s) cc
              in (ns_best n, cc \<lparr> cc_next_scans := cc_next_scans cc + 1,
                   cc_deferred_skips := cc_deferred_skips cc + ns_skipped n,
                   cc_next_gen := gen, cc_next_none := ns_none n, cc_next_time := ns_earliest n \<rparr>))
     in (if best < 0 then 0 else best, upd_cc cur (\<lambda>_. cc) s))"

section \<open>The soft clock\<close>

text \<open>
  One pass of the loop for the callout \<open>c\<close> at the front of the worklist. A callout that is
  not due goes into its bucket. A due one is marked fired and its function is called: \<open>run\<close> is
  what the function with that argument, and everything else, does while the lock is dropped.
\<close>

definition softclock_requeue :: "nat \<Rightarrow> nat \<Rightarrow> callouts \<Rightarrow> callouts" where
  "softclock_requeue cur c s =
    (let v = co_tab s c; cc = co_cpu s cur; delta = sint (c_time v - cc_ticks cc);
         cc = wheel_insert c (BUCKET delta (c_time v)) cc
     in upd_cc cur (\<lambda>_. callout_next_note (callout_next_gen s) (callout_deferrable_enabled s) v cc) s)"

definition softclock_fire :: "nat \<Rightarrow> nat \<Rightarrow> callouts \<Rightarrow> callouts" where
  "softclock_fire cur c s =
    (let delta = sint (c_time (co_tab s c) - cc_ticks (co_cpu s cur));
         s = (if delta < 0 then upd_cc cur (\<lambda>cc. cc \<lparr> cc_ev_late := cc_ev_late cc + 1 \<rparr>) s else s);
         s = set_flags c (\<lambda>f. (f AND NOT CALLOUT_PENDING) OR (CALLOUT_FIRED OR CALLOUT_INVOKING)) s
     in upd_cc cur (\<lambda>cc. cc \<lparr> cc_active := Some c \<rparr>) s)"

definition softclock_done :: "nat \<Rightarrow> callouts \<Rightarrow> callouts" where
  "softclock_done cur s = upd_cc cur (\<lambda>cc. cc \<lparr> cc_active := None, cc_nwait := 0 \<rparr>) s"

definition softclock_pass :: "(nat option \<Rightarrow> nat \<Rightarrow> callouts \<Rightarrow> callouts) \<Rightarrow> nat \<Rightarrow> nat \<Rightarrow> callouts \<Rightarrow> callouts" where
  "softclock_pass run cur c s =
    (let s = upd_cc cur (cc_remove c) s;
         v = co_tab s c
     in if sint (c_time v - cc_ticks (co_cpu s cur)) > 0 then softclock_requeue cur c s
        else softclock_done cur (run (c_func v) (c_arg v) (softclock_fire cur c s)))"

partial_function (option) softclock_loop ::
    "(nat option \<Rightarrow> nat \<Rightarrow> callouts \<Rightarrow> callouts) \<Rightarrow> nat \<Rightarrow> callouts \<Rightarrow> callouts option" where
  "softclock_loop run cur s =
    (case cc_todo (co_cpu s cur) of [] \<Rightarrow> Some s | c # _ \<Rightarrow> softclock_loop run cur (softclock_pass run cur c s))"

definition callout_softclock ::
    "(nat option \<Rightarrow> nat \<Rightarrow> callouts \<Rightarrow> callouts) \<Rightarrow> nat \<Rightarrow> nat \<Rightarrow> callouts \<Rightarrow> callouts option" where
  "callout_softclock run me cur s =
    map_option (upd_cc cur (\<lambda>cc. cc \<lparr> cc_lwp := None \<rparr>))
      (softclock_loop run cur (upd_cc cur (\<lambda>cc. cc \<lparr> cc_lwp := Some me \<rparr>) s))"

end
