(* ===== verification/Callout_Inv.thy ===== *)
theory Callout_Inv
  imports Callout
begin

text \<open>
  The invariant of the callout state and its preservation: every pending callout is on exactly
  one queue, of the CPU it belongs to, and every callout in a wheel bucket has at least as much
  time left as the bucket has until it is emptied. The theory starts with the frames of the state
  updates and the queue operations of one CPU.
\<close>

section \<open>Frames\<close>

lemma set_co_frame [simp]:
  "co_cpu (set_co c v s) = co_cpu s" "callout_next_gen (set_co c v s) = callout_next_gen s"
  "callout_deferrable_enabled (set_co c v s) = callout_deferrable_enabled s" "co_lp (set_co c v s) = co_lp s"
  "co_tab (set_co c v s) = (co_tab s)(c := v)"
  by (simp_all add: set_co_def)

lemma upd_cc_frame [simp]:
  "co_tab (upd_cc k f s) = co_tab s" "callout_next_gen (upd_cc k f s) = callout_next_gen s"
  "callout_deferrable_enabled (upd_cc k f s) = callout_deferrable_enabled s" "co_lp (upd_cc k f s) = co_lp s"
  "co_cpu (upd_cc k f s) = (co_cpu s)(k := f (co_cpu s k))"
  by (simp_all add: upd_cc_def)

lemma set_flags_frame [simp]:
  "co_cpu (set_flags c f s) = co_cpu s" "callout_next_gen (set_flags c f s) = callout_next_gen s"
  "callout_deferrable_enabled (set_flags c f s) = callout_deferrable_enabled s"
  "co_tab (set_flags c f s) = (co_tab s)(c := (co_tab s c) \<lparr> c_flags := f (c_flags (co_tab s c)) \<rparr>)"
  by (simp_all add: set_flags_def)

lemma set_time_frame [simp]:
  "co_cpu (set_time P cur g k c t s) = co_cpu s" "callout_next_gen (set_time P cur g k c t s) = callout_next_gen s"
  "callout_deferrable_enabled (set_time P cur g k c t s) = callout_deferrable_enabled s"
  "co_tab (set_time P cur g k c t s) = (co_tab s)(c := (co_tab s c) \<lparr> c_time :=
     fst (lpsched_coalesce P cur g (co_tab s c) t (cc_ticks (co_cpu s k)) (co_lp s)) \<rparr>)"
  by (simp_all add: set_time_def case_prod_beta)

section \<open>Flags\<close>

lemma co_flag_bit: "co_flag (2 ^ n) c \<longleftrightarrow> bit (c_flags c) n" if "n < 32"
  using that by (simp add: co_flag_def and_exp_eq_0_iff_not_bit)

lemmas flag_bits = co_flag_bit [of 0, simplified] co_flag_bit [of 1, simplified] co_flag_bit [of 2, simplified]
  co_flag_bit [of 3, simplified] co_flag_bit [of 9, simplified] co_flag_bit [of 10, simplified] co_flag_bit [of 11, simplified]

lemma pending_flags [simp]:
  "co_flag CALLOUT_PENDING (v \<lparr> c_flags := f AND NOT (CALLOUT_FIRED OR CALLOUT_INVOKING) \<rparr>) = co_flag CALLOUT_PENDING (v \<lparr> c_flags := f \<rparr>)"
  "co_flag CALLOUT_PENDING (v \<lparr> c_flags := f OR CALLOUT_PENDING \<rparr>)"
  "\<not> co_flag CALLOUT_PENDING (v \<lparr> c_flags := f AND NOT (CALLOUT_PENDING OR CALLOUT_FIRED) \<rparr>)"
  "\<not> co_flag CALLOUT_PENDING (v \<lparr> c_flags := (f AND NOT CALLOUT_PENDING) OR (CALLOUT_FIRED OR CALLOUT_INVOKING) \<rparr>)"
  "co_flag CALLOUT_PENDING (v \<lparr> c_flags := f AND NOT CALLOUT_INVOKING \<rparr>) = co_flag CALLOUT_PENDING (v \<lparr> c_flags := f \<rparr>)"
  "co_flag CALLOUT_PENDING (v \<lparr> c_flags := f OR CALLOUT_DEFERRABLE \<rparr>) = co_flag CALLOUT_PENDING (v \<lparr> c_flags := f \<rparr>)"
  "co_flag CALLOUT_PENDING (v \<lparr> c_flags := f AND NOT CALLOUT_DEFERRABLE \<rparr>) = co_flag CALLOUT_PENDING (v \<lparr> c_flags := f \<rparr>)"
  by (simp_all add: flag_bits bit_simps)

section \<open>The queues of a CPU\<close>

definition queues_wf :: "callout_cpu \<Rightarrow> bool" where
  "queues_wf cc \<longleftrightarrow> distinct (cc_todo cc) \<and> (\<forall>b. distinct (cc_wheel cc b)) \<and> (\<forall>b\<ge>BUCKETS. cc_wheel cc b = []) \<and>
    (\<forall>b. set (cc_todo cc) \<inter> set (cc_wheel cc b) = {}) \<and>
    (\<forall>b b'. b = b' \<or> set (cc_wheel cc b) \<inter> set (cc_wheel cc b') = {})"

definition placed :: "callout_cpu \<Rightarrow> nat set" where
  "placed cc = set (cc_todo cc) \<union> (\<Union>b. set (cc_wheel cc b))"

text \<open>
  The signed number of ticks until a callout is due. The wheel holds callouts that are due later,
  and no bucket is emptied after a callout in it is due. All distances stay below
  \<^verbatim>\<open>CALLOUT_NO_NEXT\<close>, the sentinel the code uses for ``no callout''; a callout waits on the
  worklist, and a cached deadline is kept after it has passed, for at most \<open>2 ^ 30\<close> ticks.
\<close>

definition due_in :: "(nat \<Rightarrow> callout) \<Rightarrow> callout_cpu \<Rightarrow> nat \<Rightarrow> int" where
  "due_in tab cc c = sint (c_time (tab c) - cc_ticks cc)"

definition wheel_ok :: "(nat \<Rightarrow> callout) \<Rightarrow> callout_cpu \<Rightarrow> bool" where
  "wheel_ok tab cc \<longleftrightarrow>
    (\<forall>b. \<forall>c\<in>set (cc_wheel cc b). drain_dist b (cc_ticks cc) \<le> due_in tab cc c \<and> due_in tab cc c \<le> CALLOUT_NO_NEXT) \<and>
    (\<forall>c\<in>set (cc_todo cc). - (2 ^ 30) \<le> due_in tab cc c \<and> due_in tab cc c \<le> CALLOUT_NO_NEXT)"

definition next_in :: "callout_cpu \<Rightarrow> int" where
  "next_in cc = sint (cc_next_time cc - cc_ticks cc)"

definition next_ok :: "u32 \<Rightarrow> bool \<Rightarrow> (nat \<Rightarrow> callout) \<Rightarrow> callout_cpu \<Rightarrow> bool" where
  "next_ok gen d tab cc \<longleftrightarrow> cc_next_gen cc \<noteq> gen \<or>
    (cc_next_none cc \<or> - (2 ^ 30) \<le> next_in cc \<and> next_in cc \<le> CALLOUT_NO_NEXT) \<and>
    (\<forall>b. \<forall>c\<in>set (cc_wheel cc b). callout_next_honoured d (tab c) \<longrightarrow>
      \<not> cc_next_none cc \<and> (next_in cc \<le> 0 \<or> next_in cc \<le> due_in tab cc c))"

lemma placedI: "c \<in> set (cc_todo cc) \<Longrightarrow> c \<in> placed cc" "c \<in> set (cc_wheel cc b) \<Longrightarrow> c \<in> placed cc"
  by (auto simp: placed_def)

lemma cc_remove_wf: "queues_wf cc \<Longrightarrow> queues_wf (cc_remove c cc)"
  using set_remove1_subset [of c] by (fastforce simp: queues_wf_def cc_remove_def)

lemma cc_remove_placed: "queues_wf cc \<Longrightarrow> placed (cc_remove c cc) = placed cc - {c}"
  by (auto simp: queues_wf_def placed_def cc_remove_def)

lemma cc_remove_wheel: "queues_wf cc \<Longrightarrow> set (cc_wheel (cc_remove c cc) b) = set (cc_wheel cc b) - {c}"
  by (simp add: queues_wf_def cc_remove_def)

lemma todo_insert_wf: "queues_wf cc \<Longrightarrow> c \<notin> placed cc \<Longrightarrow> queues_wf (todo_insert c cc)"
  by (auto simp: queues_wf_def placed_def todo_insert_def)

lemma todo_insert_placed: "placed (todo_insert c cc) = insert c (placed cc)"
  by (auto simp: placed_def todo_insert_def)

lemma wheel_insert_wf: "queues_wf cc \<Longrightarrow> c \<notin> placed cc \<Longrightarrow> b < BUCKETS \<Longrightarrow> queues_wf (wheel_insert c b cc)"
  by (fastforce simp: queues_wf_def placed_def wheel_insert_def)

lemma wheel_insert_placed: "placed (wheel_insert c b cc) = insert c (placed cc)"
  by (auto simp: placed_def wheel_insert_def split: if_splits)

lemma cc_frames [simp]:
  "cc_ticks (cc_remove c cc) = cc_ticks cc" "cc_ticks (todo_insert c cc) = cc_ticks cc"
  "cc_ticks (wheel_insert c b cc) = cc_ticks cc" "cc_wheel (todo_insert c cc) = cc_wheel cc"
  "cc_todo (wheel_insert c b cc) = cc_todo cc"
  by (simp_all add: cc_remove_def todo_insert_def wheel_insert_def)

lemma cc_note_frame [simp]:
  "cc_ticks (callout_next_note g d v cc) = cc_ticks cc" "cc_wheel (callout_next_note g d v cc) = cc_wheel cc"
  "cc_todo (callout_next_note g d v cc) = cc_todo cc" "cc_next_gen (callout_next_note g d v cc) = cc_next_gen cc"
  "cc_active (callout_next_note g d v cc) = cc_active cc" "cc_lwp (callout_next_note g d v cc) = cc_lwp cc"
  by (simp_all add: callout_next_note_def)

lemma queues_wf_cong:
  "cc_todo cc = cc_todo cd \<Longrightarrow> cc_wheel cc = cc_wheel cd \<Longrightarrow> queues_wf cc = queues_wf cd"
  "cc_todo cc = cc_todo cd \<Longrightarrow> cc_wheel cc = cc_wheel cd \<Longrightarrow> placed cc = placed cd"
  "cc_ticks cc = cc_ticks cd \<Longrightarrow> cc_todo cc = cc_todo cd \<Longrightarrow> cc_wheel cc = cc_wheel cd \<Longrightarrow> wheel_ok tab cc = wheel_ok tab cd"
  by (simp_all add: queues_wf_def placed_def wheel_ok_def due_in_def)

section \<open>A tick\<close>

lemma movebucket:
  assumes wf: "queues_wf cc" and w: "w < 4"
  shows "queues_wf (MOVEBUCKET w t cc)" "placed (MOVEBUCKET w t cc) = placed cc"
    "cc_wheel (MOVEBUCKET w t cc) b = (if b = MASKWHEEL w t + w * 256 then [] else cc_wheel cc b)"
    "cc_ticks (MOVEBUCKET w t cc) = cc_ticks cc"
  using wf by (auto simp: queues_wf_def placed_def MOVEBUCKET_def Let_def split: if_splits) blast+

definition emptied :: "nat \<Rightarrow> u32 \<Rightarrow> bool" where
  "emptied b t \<longleftrightarrow> b = MASKWHEEL 0 t \<or> MASKWHEEL 0 t = 0 \<and> (b = MASKWHEEL 1 t + 256 \<or>
    MASKWHEEL 1 t = 0 \<and> (b = MASKWHEEL 2 t + 512 \<or> MASKWHEEL 2 t = 0 \<and> b = MASKWHEEL 3 t + 768))"

lemma hardclock_cc_queues:
  assumes wf: "queues_wf cc"
  shows "queues_wf (hardclock_cc cc) \<and> placed (hardclock_cc cc) = placed cc \<and>
    cc_ticks (hardclock_cc cc) = cc_ticks cc + 1 \<and>
    (\<forall>b. cc_wheel (hardclock_cc cc) b = (if emptied b (cc_ticks cc + 1) then [] else cc_wheel cc b))"
proof -
  let ?t = "cc_ticks cc + 1" and ?c0 = "cc \<lparr> cc_ticks := cc_ticks cc + 1 \<rparr>"
  have w0: "queues_wf ?c0" "placed ?c0 = placed cc" using wf by (simp_all add: queues_wf_def placed_def)
  let ?c1 = "MOVEBUCKET 0 ?t ?c0"
  note m1 = movebucket [OF w0(1), of 0 ?t, simplified]
  let ?c2 = "MOVEBUCKET 1 ?t ?c1"
  note m2 = movebucket [OF m1(1), of 1 ?t, simplified]
  let ?c3 = "MOVEBUCKET 2 ?t ?c2"
  note m3 = movebucket [OF m2(1), of 2 ?t, simplified]
  let ?c4 = "MOVEBUCKET 3 ?t ?c3"
  note m4 = movebucket [OF m3(1), of 3 ?t, simplified]
  have "hardclock_cc cc = (if MASKWHEEL 0 ?t = 0 then if MASKWHEEL 1 ?t = 0 then if MASKWHEEL 2 ?t = 0
      then ?c4 else ?c3 else ?c2 else ?c1)"
    by (simp add: hardclock_cc_def Let_def)
  then show ?thesis using m1(1-4) m2(1-4) m3(1-4) m4(1-4) w0 by (auto simp: emptied_def)
qed


lemma mod_slot:
  fixes a x m :: int
  assumes "a mod (m * 256) = x * m" "0 < m"
  shows "a mod m = 0" "a div m mod 256 = x"
proof -
  have "a mod (m * 256) mod m = a mod m" by (simp add: mod_mod_cancel)
  then show z: "a mod m = 0" using assms(1) by simp
  have "m * (a div m mod 256) = m * x" using zmod_zmult2_eq [of 256 a m] assms(1) z by (auto simp: mult.commute)
  then show "a div m mod 256 = x" using assms(2) by simp
qed

lemma mod_mask_0:
  fixes t :: u32
  shows "uint t mod 256 = 0 \<Longrightarrow> MASKWHEEL 0 t = 0"
    "uint t mod 65536 = 0 \<Longrightarrow> MASKWHEEL 0 t = 0 \<and> MASKWHEEL 1 t = 0"
    "uint t mod 16777216 = 0 \<Longrightarrow> MASKWHEEL 0 t = 0 \<and> MASKWHEEL 1 t = 0 \<and> MASKWHEEL 2 t = 0"
proof -
  have z: "uint t mod 65536 = 0 \<Longrightarrow> uint t mod 256 = 0 \<and> uint t div 256 mod 256 = 0"
    using mod_slot [of "uint t" 256 0] by simp
  have y: "uint t mod 16777216 = 0 \<Longrightarrow> uint t mod 65536 = 0 \<and> uint t div 65536 mod 256 = 0"
    using mod_slot [of "uint t" 65536 0] by simp
  note M = MASKWHEEL_div [of 0 t] MASKWHEEL_div [of 1 t] MASKWHEEL_div [of 2 t]
  show "uint t mod 256 = 0 \<Longrightarrow> MASKWHEEL 0 t = 0" using M by simp
  show "uint t mod 65536 = 0 \<Longrightarrow> MASKWHEEL 0 t = 0 \<and> MASKWHEEL 1 t = 0" using M z by simp
  show "uint t mod 16777216 = 0 \<Longrightarrow> MASKWHEEL 0 t = 0 \<and> MASKWHEEL 1 t = 0 \<and> MASKWHEEL 2 t = 0"
    using M z y by simp
qed

lemma due_emptied:
  assumes b: "b < 1024" and d: "drain_dist b t = 1"
  shows "emptied b (t + 1)"
proof -
  note D = drain_dist_due [OF b d]
  have m: "int (MASKWHEEL w (t + 1)) = int x \<Longrightarrow> MASKWHEEL w (t + 1) = x" for w x by simp
  from b show ?thesis
  proof (cases rule: bucket_cases)
    case (1 x)
    then show ?thesis using D MASKWHEEL_div [of 0 "t + 1"] by (simp add: emptied_def)
  next
    case (2 x)
    then have "uint (t + 1) mod (256 * 256) = int x * 256" using D by simp
    from mod_slot [OF this] show ?thesis
      using 2 m [of 1 x] MASKWHEEL_div [of 1 "t + 1"] mod_mask_0(1) [of "t + 1"] by (simp add: emptied_def)
  next
    case (3 x)
    then have "uint (t + 1) mod (65536 * 256) = int x * 65536" using D by simp
    from mod_slot [OF this] show ?thesis
      using 3 m [of 2 x] MASKWHEEL_div [of 2 "t + 1"] mod_mask_0(2) [of "t + 1"] by (simp add: emptied_def)
  next
    case (4 x)
    then have "uint (t + 1) mod (16777216 * 256) = int x * 16777216" using D by simp
    from mod_slot [OF this] show ?thesis
      using 4 m [of 3 x] MASKWHEEL_div [of 3 "t + 1"] mod_mask_0(3) [of "t + 1"] by (simp add: emptied_def)
  qed
qed

lemma sint_small: "- (2 ^ 31) \<le> n \<Longrightarrow> n < 2 ^ 31 \<Longrightarrow> sint (word_of_int n :: u32) = n"
  by (simp add: sint_sbintrunc' signed_take_bit_int_eq_self)

lemma sint_minus_1:
  assumes "- (2 ^ 30) < sint (x :: u32)" "sint x \<le> CALLOUT_NO_NEXT"
  shows "sint (x - 1) = sint x - 1"
proof -
  have "x - 1 = word_of_int (sint x - 1)" by simp
  then show ?thesis using assms by (simp only:) (intro sint_small, simp_all)
qed

text \<open>The clock finds the worklist and the cached deadline recent enough.\<close>

definition cc_recent :: "u32 \<Rightarrow> (nat \<Rightarrow> callout) \<Rightarrow> callout_cpu \<Rightarrow> bool" where
  "cc_recent gen tab cc \<longleftrightarrow> (\<forall>c\<in>set (cc_todo cc). due_in tab cc c \<noteq> - (2 ^ 30)) \<and>
    (cc_next_gen cc = gen \<and> \<not> cc_next_none cc \<longrightarrow> next_in cc \<noteq> - (2 ^ 30))"

section \<open>Coalescing\<close>

text \<open>
  The delay a callout gets: none, or, for one that asked for slack and is at least two grid
  lengths long, less than a grid length and exactly up to the next grid point of the global ticks.
\<close>

definition coalesce_delay :: "platform \<Rightarrow> u32 \<Rightarrow> callout \<Rightarrow> int \<Rightarrow> lpsched \<Rightarrow> int \<Rightarrow> bool" where
  "coalesce_delay P getticks c to_ticks lp delay \<longleftrightarrow> delay = 0 \<or>
    (let grid = mstohz P (lpsched_coalesce_ms lp)
     in lpsched_enabled lp \<noteq> 0 \<and> lpsched_coalesce_ms lp \<noteq> 0 \<and> co_flag CALLOUT_SLACK c \<and> \<not> co_flag CALLOUT_PRECISE c \<and>
        0 < delay \<and> delay < grid \<and> 2 * grid \<le> to_ticks \<and>
        (uint (getticks + word_of_int to_ticks) + delay) mod grid = 0)"

definition ticks_fit :: "platform \<Rightarrow> int \<Rightarrow> lpsched \<Rightarrow> bool" where
  "ticks_fit P to_ticks lp \<longleftrightarrow> 0 \<le> to_ticks \<and> to_ticks + max 0 (mstohz P (lpsched_coalesce_ms lp)) \<le> CALLOUT_NO_NEXT"

lemma grid_rem:
  fixes x :: u32
  assumes "1 < grid" "grid \<le> INT_MAX" "x mod word_of_int grid \<noteq> 0"
  shows "0 < uint (x mod word_of_int grid)" "uint (x mod word_of_int grid) < grid"
    "(uint x + (grid - uint (x mod word_of_int grid))) mod grid = 0"
proof -
  have g: "uint (word_of_int grid :: u32) = grid" using assms(1,2) by (intro uint_word_of_int_eq [THEN trans]) (simp add: take_bit_int_eq_self)
  have r: "uint (x mod word_of_int grid) = uint x mod grid" by (simp add: uint_mod g)
  show "0 < uint (x mod word_of_int grid)"
    using assms(3) by (metis order_le_imp_less_or_eq uint_0_iff unsigned_greater_eq)
  show "uint (x mod word_of_int grid) < grid" unfolding r using assms(1) by simp
  have "uint x + (grid - uint x mod grid) = grid + (uint x - uint x mod grid)" by simp
  also have "\<dots> mod grid = 0" by (simp add: minus_mod_eq_mult_div)
  finally show "(uint x + (grid - uint (x mod word_of_int grid))) mod grid = 0" unfolding r .
qed

lemma lpsched_coalesce_delay:
  assumes "ticks_fit P to_ticks lp"
  obtains delay where "fst (lpsched_coalesce P cur g c to_ticks now lp) = now + word_of_int (to_ticks + delay)"
    "0 \<le> delay" "to_ticks + delay \<le> CALLOUT_NO_NEXT" "coalesce_delay P g c to_ticks lp delay"
proof -
  let ?grid = "mstohz P (lpsched_coalesce_ms lp)"
  let ?x = "g + word_of_int to_ticks"
  let ?rem = "?x mod word_of_int ?grid"
  let ?c = "lpsched_enabled lp \<noteq> 0 \<and> lpsched_coalesce_ms lp \<noteq> 0 \<and> co_flag CALLOUT_SLACK c \<and> \<not> co_flag CALLOUT_PRECISE c \<and>
      1 < ?grid \<and> 2 * ?grid \<le> to_ticks \<and> ?rem \<noteq> 0"
  have none: "fst (lpsched_coalesce P cur g c to_ticks now lp) = now + word_of_int to_ticks" if "\<not> ?c"
    using that unfolding lpsched_coalesce_def Let_def by (auto simp: add.commute split: if_splits)
  have grid: "fst (lpsched_coalesce P cur g c to_ticks now lp) = now + word_of_int (to_ticks + (?grid - uint ?rem))" if ?c
    using that unfolding lpsched_coalesce_def Let_def by (simp add: algebra_simps)
  show thesis
  proof (cases ?c)
    case False
    then show ?thesis using assms none by (intro that [of 0]) (auto simp: ticks_fit_def coalesce_delay_def)
  next
    case True
    then have g: "1 < ?grid" "?rem \<noteq> 0" by simp_all
    have le: "?grid \<le> INT_MAX" using assms g(1) unfolding ticks_fit_def by simp
    note G = grid_rem [OF g(1) le g(2)]
    show ?thesis
    proof (rule that [OF grid [OF True]])
      show "0 \<le> ?grid - uint ?rem" using G(2) by simp
      show "to_ticks + (?grid - uint ?rem) \<le> CALLOUT_NO_NEXT" using assms G(1) unfolding ticks_fit_def by linarith
      show "coalesce_delay P g c to_ticks lp (?grid - uint ?rem)"
        using True G unfolding coalesce_delay_def Let_def by simp
    qed
  qed
qed

lemma uint_of_small: "0 \<le> n \<Longrightarrow> n \<le> INT_MAX \<Longrightarrow> uint (word_of_int n :: u32) = n"
  by (intro uint_word_of_int_eq [THEN trans]) (simp add: take_bit_int_eq_self)

text \<open>The difference of two times is the difference of their distances from now.\<close>

lemma sint_diff:
  fixes a b t :: u32
  assumes "- (2 ^ 30) \<le> sint (a - t)" "sint (a - t) \<le> CALLOUT_NO_NEXT"
    "- (2 ^ 30) \<le> sint (b - t)" "sint (b - t) \<le> CALLOUT_NO_NEXT"
  shows "sint (a - b) = sint (a - t) - sint (b - t)"
proof -
  have "a - b = (a - t) - (b - t)" by simp
  also have "\<dots> = word_of_int (sint (a - t) - sint (b - t))" by simp
  finally show ?thesis using assms by (simp only:) (intro sint_small, simp_all)
qed

section \<open>The invariant\<close>

definition cpu_ok :: "u32 \<Rightarrow> bool \<Rightarrow> (nat \<Rightarrow> callout) \<Rightarrow> nat \<Rightarrow> callout_cpu \<Rightarrow> bool" where
  "cpu_ok gen d tab k cc \<longleftrightarrow> queues_wf cc \<and> wheel_ok tab cc \<and> next_ok gen d tab cc \<and>
    (\<forall>c. c \<in> placed cc \<longleftrightarrow> co_flag CALLOUT_PENDING (tab c) \<and> c_cpu (tab c) = k)"

definition co_inv :: "callouts \<Rightarrow> bool" where
  "co_inv s \<longleftrightarrow> callout_next_gen s \<noteq> 0 \<and>
    (\<forall>k. cpu_ok (callout_next_gen s) (callout_deferrable_enabled s) (co_tab s) k (co_cpu s k))"

lemma co_invD: "co_inv s \<Longrightarrow> cpu_ok (callout_next_gen s) (callout_deferrable_enabled s) (co_tab s) k (co_cpu s k)"
  by (simp add: co_inv_def)

lemma cpu_ok_cong:
  assumes "cc_todo cc = cc_todo cd" "cc_wheel cc = cc_wheel cd" "cc_ticks cc = cc_ticks cd"
    "cc_next_gen cc = cc_next_gen cd" "cc_next_none cc = cc_next_none cd" "cc_next_time cc = cc_next_time cd"
  shows "cpu_ok gen d tab k cc = cpu_ok gen d tab k cd"
  using assms by (simp add: cpu_ok_def queues_wf_def wheel_ok_def next_ok_def placed_def due_in_def next_in_def)

text \<open>Changing a callout that keeps its place, or has none on this CPU.\<close>

lemma cpu_ok_set:
  assumes ok: "cpu_ok gen d tab k cc"
    and mem: "(co_flag CALLOUT_PENDING v \<and> c_cpu v = k) = (co_flag CALLOUT_PENDING (tab c) \<and> c_cpu (tab c) = k)"
    and keep: "c \<in> placed cc \<Longrightarrow> due_in tab cc c \<le> sint (c_time v - cc_ticks cc) \<and> sint (c_time v - cc_ticks cc) \<le> CALLOUT_NO_NEXT"
    and hon: "c \<in> placed cc \<Longrightarrow> cc_next_gen cc = gen \<Longrightarrow> callout_next_honoured d v \<Longrightarrow> callout_next_honoured d (tab c)"
  shows "cpu_ok gen d (tab(c := v)) k cc"
proof -
  have p: "x \<in> placed cc \<longleftrightarrow> co_flag CALLOUT_PENDING ((tab(c := v)) x) \<and> c_cpu ((tab(c := v)) x) = k" for x
    using ok mem unfolding cpu_ok_def by simp
  have g: "x \<in> placed cc \<Longrightarrow> due_in tab cc x \<le> due_in (tab(c := v)) cc x"
      "x \<in> placed cc \<Longrightarrow> due_in tab cc x \<le> CALLOUT_NO_NEXT \<Longrightarrow> due_in (tab(c := v)) cc x \<le> CALLOUT_NO_NEXT"
      "x \<in> placed cc \<Longrightarrow> cc_next_gen cc = gen \<Longrightarrow> callout_next_honoured d ((tab(c := v)) x) \<Longrightarrow> callout_next_honoured d (tab x)" for x
    using keep hon by (cases "x = c"; simp add: due_in_def)+
  have ok': "wheel_ok tab cc" "next_ok gen d tab cc" "queues_wf cc" using ok by (simp_all add: cpu_ok_def)
  have w: "wheel_ok (tab(c := v)) cc"
    using ok'(1) placedI g(1,2) unfolding wheel_ok_def by (meson order_trans)
  have n: "next_ok gen d (tab(c := v)) cc"
    using ok'(2) placedI(2) g(1,3) unfolding next_ok_def by (meson order_trans)
  show ?thesis unfolding cpu_ok_def using ok'(3) p w n by blast
qed

lemma cpu_ok_other:
  assumes "cpu_ok gen d tab k cc" "c \<notin> placed cc" "\<not> (co_flag CALLOUT_PENDING v \<and> c_cpu v = k)"
  shows "cpu_ok gen d (tab(c := v)) k cc"
  using assms by (intro cpu_ok_set) (auto simp: cpu_ok_def)

lemma wheel_ok_sub:
  assumes "wheel_ok tab cc" "cc_ticks cd = cc_ticks cc" "set (cc_todo cd) \<subseteq> set (cc_todo cc)"
    "\<And>b. set (cc_wheel cd b) \<subseteq> set (cc_wheel cc b)"
  shows "wheel_ok tab cd"
  using assms(1,3,4) unfolding wheel_ok_def due_in_def assms(2) by blast

lemma next_ok_sub:
  assumes "next_ok gen d tab cc" "cc_ticks cd = cc_ticks cc" "cc_next_gen cd = cc_next_gen cc"
    "cc_next_none cd = cc_next_none cc" "cc_next_time cd = cc_next_time cc"
    "\<And>b. set (cc_wheel cd b) \<subseteq> set (cc_wheel cc b)"
  shows "next_ok gen d tab cd"
  using assms(1,6) unfolding next_ok_def due_in_def next_in_def assms(2-5) by blast

lemma ok_unplaced:
  assumes "c \<notin> placed cc"
  shows "wheel_ok (tab(c := v)) cc = wheel_ok tab cc" "next_ok gen d (tab(c := v)) cc = next_ok gen d tab cc"
proof -
  have n: "c \<notin> set (cc_todo cc)" "c \<notin> set (cc_wheel cc b)" for b using assms placedI by blast+
  have e: "x \<noteq> c \<Longrightarrow> due_in (tab(c := v)) cc x = due_in tab cc x" for x by (simp add: due_in_def)
  show "wheel_ok (tab(c := v)) cc = wheel_ok tab cc"
    unfolding wheel_ok_def by (intro conj_cong all_cong1 ball_cong refl) (use n e in metis)+
  show "next_ok gen d (tab(c := v)) cc = next_ok gen d tab cc"
    unfolding next_ok_def by (intro conj_cong disj_cong all_cong1 ball_cong refl) (use n e in \<open>metis fun_upd_other\<close>)
qed

lemma cpu_ok_remove:
  assumes ok: "cpu_ok gen d tab k cc" and v: "\<not> (co_flag CALLOUT_PENDING v \<and> c_cpu v = k)"
  shows "cpu_ok gen d (tab(c := v)) k (cc_remove c cc)"
proof -
  have wf: "queues_wf cc" and wo: "wheel_ok tab cc" and no: "next_ok gen d tab cc"
    and mem: "x \<in> placed cc \<longleftrightarrow> co_flag CALLOUT_PENDING (tab x) \<and> c_cpu (tab x) = k" for x
    using ok unfolding cpu_ok_def by blast+
  have u: "c \<notin> placed (cc_remove c cc)" using cc_remove_placed [OF wf] by simp
  have sub: "set (cc_todo (cc_remove c cc)) \<subseteq> set (cc_todo cc)" "set (cc_wheel (cc_remove c cc) b) \<subseteq> set (cc_wheel cc b)" for b
    by (simp_all add: cc_remove_def set_remove1_subset)
  have "wheel_ok tab (cc_remove c cc)" by (rule wheel_ok_sub [OF wo _ sub]) simp
  moreover have "next_ok gen d tab (cc_remove c cc)" by (rule next_ok_sub [OF no _ _ _ _ sub(2)]) (simp_all add: cc_remove_def)
  ultimately have w: "wheel_ok (tab(c := v)) (cc_remove c cc)" "next_ok gen d (tab(c := v)) (cc_remove c cc)"
    unfolding ok_unplaced [OF u] .
  have "x \<in> placed (cc_remove c cc) \<longleftrightarrow> co_flag CALLOUT_PENDING ((tab(c := v)) x) \<and> c_cpu ((tab(c := v)) x) = k" for x
    using mem [of x] v unfolding cc_remove_placed [OF wf] by (cases "x = c") simp_all
  then show ?thesis unfolding cpu_ok_def using w cc_remove_wf [OF wf] by blast
qed

lemma cpu_ok_todo_insert:
  assumes ok: "cpu_ok gen d tab k cc" and c: "c \<notin> placed cc"
    and v: "co_flag CALLOUT_PENDING v" "c_cpu v = k"
      "- (2 ^ 30) \<le> sint (c_time v - cc_ticks cc)" "sint (c_time v - cc_ticks cc) \<le> CALLOUT_NO_NEXT"
  shows "cpu_ok gen d (tab(c := v)) k (todo_insert c cc)"
proof -
  have "wheel_ok (tab(c := v)) cc" "next_ok gen d (tab(c := v)) cc"
    using ok unfolding ok_unplaced [OF c] cpu_ok_def by blast+
  then have w: "wheel_ok (tab(c := v)) (todo_insert c cc)" and n: "next_ok gen d (tab(c := v)) (todo_insert c cc)"
    using v(3,4) unfolding wheel_ok_def next_ok_def due_in_def next_in_def by (auto simp: todo_insert_def)
  show ?thesis
    using ok c v w n todo_insert_wf [OF _ c] todo_insert_placed [of c cc] unfolding cpu_ok_def by auto
qed

lemma cpu_okD:
  assumes "cpu_ok gen d tab k cc"
  shows "queues_wf cc" "wheel_ok tab cc" "next_ok gen d tab cc"
    "c \<in> placed cc \<longleftrightarrow> co_flag CALLOUT_PENDING (tab c) \<and> c_cpu (tab c) = k"
  using assms unfolding cpu_ok_def by blast+

lemma sint_pos:
  assumes "0 < sint (x :: u32)"
  shows "uint x = sint x"
proof -
  have "sint x < 2 ^ 31" using sint_lt [of x] by simp
  then have "uint (word_of_int (sint x) :: u32) = sint x"
    using assms by (intro uint_word_of_int_eq [THEN trans]) (simp add: take_bit_int_eq_self)
  then show ?thesis by simp
qed

lemma wheel_insert_ok:
  assumes w: "wheel_ok tab cc" and r: "r = due_in tab cc c" "0 < r" "r \<le> CALLOUT_NO_NEXT"
  shows "BUCKET r (c_time (tab c)) < BUCKETS" "wheel_ok tab (wheel_insert c (BUCKET r (c_time (tab c))) cc)"
proof -
  let ?b = "BUCKET r (c_time (tab c))"
  have "r = uint (c_time (tab c) - cc_ticks cc)" using r sint_pos by (simp add: due_in_def)
  from BUCKET_insert [OF this r(2)]
  have b: "?b < 1024" "drain_dist ?b (cc_ticks cc) \<le> due_in tab cc c" using r(1) by simp_all
  show "?b < BUCKETS" using b by simp
  show "wheel_ok tab (wheel_insert c ?b cc)"
    using w b(2) r(1,3) unfolding wheel_ok_def due_in_def by (simp add: wheel_insert_def)
qed

lemma next_note_ok:
  assumes n: "next_ok gen d tab cc" and r: "r = due_in tab cc c" "0 < r" "r \<le> CALLOUT_NO_NEXT"
  shows "next_ok gen d tab (callout_next_note gen d (tab c) (wheel_insert c b cc))"
proof (cases "cc_next_gen cc = gen \<and> callout_next_honoured d (tab c)")
  case False
  then have e: "callout_next_note gen d (tab c) (wheel_insert c b cc) = wheel_insert c b cc"
    by (auto simp: callout_next_note_def wheel_insert_def)
  have W: "x \<in> set (cc_wheel (wheel_insert c b cc) b') \<longleftrightarrow> x \<in> set (cc_wheel cc b') \<or> x = c \<and> b' = b" for x b'
    by (auto simp: wheel_insert_def)
  have "next_in (wheel_insert c b cc) = next_in cc" "due_in tab (wheel_insert c b cc) x = due_in tab cc x"
    "cc_next_gen (wheel_insert c b cc) = cc_next_gen cc" "cc_next_none (wheel_insert c b cc) = cc_next_none cc" for x
    by (simp_all add: wheel_insert_def next_in_def due_in_def)
  note F = this
  have "callout_next_honoured d (tab x) \<longrightarrow> \<not> cc_next_none cc \<and> (next_in cc \<le> 0 \<or> next_in cc \<le> due_in tab cc x)"
    if "x \<in> set (cc_wheel (wheel_insert c b cc) b')" "cc_next_gen cc = gen" for x b'
    using that(1) n False that(2) unfolding W next_ok_def by blast
  then show ?thesis using n unfolding e next_ok_def F by blast
next
  case True
  let ?upd = "cc_next_none cc \<or> sint (c_time (tab c) - cc_next_time cc) < 0"
  let ?cd = "callout_next_note gen d (tab c) (wheel_insert c b cc)"
  have rng: "cc_next_none cc \<or> - (2 ^ 30) \<le> next_in cc \<and> next_in cc \<le> CALLOUT_NO_NEXT"
    and old: "x \<in> set (cc_wheel cc b') \<Longrightarrow> callout_next_honoured d (tab x) \<Longrightarrow>
      \<not> cc_next_none cc \<and> (next_in cc \<le> 0 \<or> next_in cc \<le> due_in tab cc x)" for x b'
    using n True unfolding next_ok_def by blast+
  have diff: "sint (c_time (tab c) - cc_next_time cc) = r - next_in cc" if "\<not> cc_next_none cc"
    using rng that r sint_diff [of "c_time (tab c)" "cc_ticks cc" "cc_next_time cc"]
    unfolding next_in_def due_in_def by simp
  have N: "next_in ?cd = (if ?upd then r else next_in cc)" "cc_next_none ?cd = (if ?upd then False else cc_next_none cc)"
    using True r(1) by (simp_all add: callout_next_note_def wheel_insert_def next_in_def due_in_def)
  have W: "x \<in> set (cc_wheel ?cd b') \<longleftrightarrow> x \<in> set (cc_wheel cc b') \<or> x = c \<and> b' = b" for x b'
    by (auto simp: wheel_insert_def)
  have D: "due_in tab ?cd x = due_in tab cc x" for x by (simp add: due_in_def)
  show ?thesis
  proof (cases ?upd)
    case True
    have "r \<le> due_in tab cc x" if "x \<in> set (cc_wheel ?cd b')" "callout_next_honoured d (tab x)" for x b'
    proof (cases "x = c")
      case False
      then have "x \<in> set (cc_wheel cc b')" using that(1) W [of x b'] by blast
      note O = old [OF this that(2)]
      then have "r < next_in cc" using True diff by simp
      then show ?thesis using O r(2) by linarith
    qed (simp add: r(1))
    moreover have "next_in ?cd = r" "\<not> cc_next_none ?cd" using N True by simp_all
    ultimately show ?thesis using r unfolding next_ok_def D by simp
  next
    case False
    then have "next_in cc \<le> r" "\<not> cc_next_none cc" using diff by simp_all
    then have "next_in cc \<le> 0 \<or> next_in cc \<le> due_in tab cc x"
      if "x \<in> set (cc_wheel ?cd b')" "callout_next_honoured d (tab x)" for x b'
      using that(1) old [of x b'] that(2) r(1) unfolding W by blast
    moreover have "next_in ?cd = next_in cc" "\<not> cc_next_none ?cd" using N False by simp_all
    ultimately show ?thesis using rng False unfolding next_ok_def D by simp
  qed
qed

lemma cpu_ok_wheel_insert:
  assumes ok: "cpu_ok gen d tab k cc" and c: "c \<notin> placed cc"
    and v: "co_flag CALLOUT_PENDING v" "c_cpu v = k" and r: "r = sint (c_time v - cc_ticks cc)" "0 < r" "r \<le> CALLOUT_NO_NEXT"
  shows "cpu_ok gen d (tab(c := v)) k (callout_next_note gen d v (wheel_insert c (BUCKET r (c_time v)) cc))"
proof -
  let ?tab = "tab(c := v)" and ?cd = "wheel_insert c (BUCKET r (c_time v)) cc"
  note D = cpu_okD [OF ok]
  have ok': "wheel_ok ?tab cc" "next_ok gen d ?tab cc" unfolding ok_unplaced [OF c] by (rule D)+
  have r': "r = due_in ?tab cc c" using r(1) by (simp add: due_in_def)
  have w: "BUCKET r (c_time v) < BUCKETS" "wheel_ok ?tab ?cd"
    using wheel_insert_ok [OF ok'(1) r' r(2,3)] by simp_all
  have n: "next_ok gen d ?tab (callout_next_note gen d v ?cd)"
    using next_note_ok [OF ok'(2) r' r(2,3)] by simp
  have wf: "queues_wf ?cd" by (rule wheel_insert_wf [OF D(1) c w(1)])
  have "x \<in> placed ?cd \<longleftrightarrow> co_flag CALLOUT_PENDING (?tab x) \<and> c_cpu (?tab x) = k" for x
    unfolding wheel_insert_placed using D(4) [of x] v by (cases "x = c") simp_all
  moreover have "queues_wf (callout_next_note gen d v ?cd) = queues_wf ?cd" "placed (callout_next_note gen d v ?cd) = placed ?cd"
    "wheel_ok ?tab (callout_next_note gen d v ?cd) = wheel_ok ?tab ?cd"
    by (rule queues_wf_cong; simp)+
  ultimately show ?thesis unfolding cpu_ok_def using w(2) n wf by blast
qed

lemma hardclock_next:
  "cc_next_gen (hardclock_cc cc) = cc_next_gen cc" "cc_next_none (hardclock_cc cc) = cc_next_none cc"
  "cc_next_time (hardclock_cc cc) = cc_next_time cc" "cc_active (hardclock_cc cc) = cc_active cc"
  "cc_lwp (hardclock_cc cc) = cc_lwp cc"
  by (simp_all add: hardclock_cc_def MOVEBUCKET_def Let_def)

lemma hardclock_ok:
  assumes ok: "cpu_ok gen d tab k cc" and rec: "cc_recent gen tab cc"
  shows "cpu_ok gen d tab k (hardclock_cc cc)"
proof -
  note D = cpu_okD [OF ok]
  let ?cd = "hardclock_cc cc"
  note H = hardclock_cc_queues [OF D(1)]
  have t: "cc_ticks ?cd = cc_ticks cc + 1" and p: "placed ?cd = placed cc" and wf: "queues_wf ?cd" using H by blast+
  have wb: "x \<in> set (cc_wheel ?cd b) \<Longrightarrow> x \<in> set (cc_wheel cc b) \<and> \<not> emptied b (cc_ticks cc + 1)" for x b
    using H by (auto split: if_splits)
  have all: "- (2 ^ 30) < due_in tab cc x \<and> due_in tab cc x \<le> CALLOUT_NO_NEXT" if x: "x \<in> placed cc" for x
  proof (cases "x \<in> set (cc_todo cc)")
    case True
    then show ?thesis using D(2) rec unfolding wheel_ok_def cc_recent_def by force
  next
    case False
    then obtain b where "x \<in> set (cc_wheel cc b)" using x by (auto simp: placed_def)
    then show ?thesis using D(2) drain_dist_pos [of b "cc_ticks cc"] unfolding wheel_ok_def by force
  qed
  have due: "due_in tab ?cd x = due_in tab cc x - 1" if "x \<in> placed cc" for x
    using all [OF that] sint_minus_1 [of "c_time (tab x) - cc_ticks cc"] unfolding due_in_def t by (simp add: diff_diff_eq add.commute)
  have w: "wheel_ok tab ?cd"
    unfolding wheel_ok_def
  proof (intro conjI allI ballI)
    fix b x assume x: "x \<in> set (cc_wheel ?cd b)"
    then have xb: "x \<in> set (cc_wheel cc b)" and ne: "\<not> emptied b (cc_ticks cc + 1)" using wb by blast+
    then have b: "b < 1024" using D(1) by (auto simp: queues_wf_def not_less [symmetric])
    have "drain_dist b (cc_ticks cc + 1) = drain_dist b (cc_ticks cc) - 1"
      using due_emptied [OF b] ne by (intro drain_dist_tick [OF b]) auto
    moreover have "drain_dist b (cc_ticks cc) \<le> due_in tab cc x" using D(2) xb unfolding wheel_ok_def by blast
    ultimately show "drain_dist b (cc_ticks ?cd) \<le> due_in tab ?cd x" using due [OF placedI(2) [OF xb]] t by simp
    show "due_in tab ?cd x \<le> CALLOUT_NO_NEXT" using all [OF placedI(2) [OF xb]] due [OF placedI(2) [OF xb]] by simp
  next
    fix x assume "x \<in> set (cc_todo ?cd)"
    then have "x \<in> placed cc" using placedI(1) [of x ?cd] p by simp
    then show "- (2 ^ 30) \<le> due_in tab ?cd x" "due_in tab ?cd x \<le> CALLOUT_NO_NEXT" using all due by force+
  qed
  have n: "next_ok gen d tab ?cd"
  proof (cases "cc_next_gen cc = gen")
    case False
    then show ?thesis by (simp add: next_ok_def hardclock_next)
  next
    case True
    have nx: "next_in ?cd = next_in cc - 1" if "\<not> cc_next_none cc"
    proof -
      have "- (2 ^ 30) < next_in cc \<and> next_in cc \<le> CALLOUT_NO_NEXT"
        using D(3) rec True that unfolding next_ok_def cc_recent_def by force
      then show ?thesis
        using sint_minus_1 [of "cc_next_time cc - cc_ticks cc"] unfolding next_in_def t hardclock_next
        by (simp add: diff_diff_eq add.commute)
    qed
    have "\<not> cc_next_none cc \<and> (next_in cc \<le> 0 \<or> next_in cc \<le> due_in tab cc x)"
      if "x \<in> set (cc_wheel ?cd b)" "callout_next_honoured d (tab x)" for x b
      using D(3) True wb [OF that(1)] that(2) unfolding next_ok_def by blast
    then have "\<not> cc_next_none cc \<and> (next_in ?cd \<le> 0 \<or> next_in ?cd \<le> due_in tab ?cd x)"
      if "x \<in> set (cc_wheel ?cd b)" "callout_next_honoured d (tab x)" for x b
      using that nx due [OF placedI(2)] wb [OF that(1)] by force
    moreover have "cc_next_none cc \<or> - (2 ^ 30) \<le> next_in ?cd \<and> next_in ?cd \<le> CALLOUT_NO_NEXT"
      using nx D(3) rec True unfolding next_ok_def cc_recent_def by force
    ultimately show ?thesis unfolding next_ok_def hardclock_next by blast
  qed
  show ?thesis unfolding cpu_ok_def using wf w n p D(4) by blast
qed

section \<open>The operations keep the invariant\<close>

lemma co_inv_upd:
  assumes inv: "co_inv s"
    and s': "callout_next_gen s' = callout_next_gen s" "callout_deferrable_enabled s' = callout_deferrable_enabled s"
      "co_tab s' = (co_tab s)(c := v)" "co_cpu s' = (co_cpu s)(k := cc)"
    and ok: "cpu_ok (callout_next_gen s) (callout_deferrable_enabled s) ((co_tab s)(c := v)) k cc"
    and old: "co_flag CALLOUT_PENDING (co_tab s c) \<Longrightarrow> c_cpu (co_tab s c) = k"
    and new: "co_flag CALLOUT_PENDING v \<Longrightarrow> c_cpu v = k"
  shows "co_inv s'"
proof -
  let ?g = "callout_next_gen s" and ?d = "callout_deferrable_enabled s"
  have "cpu_ok ?g ?d ((co_tab s)(c := v)) j (co_cpu s j)" if "j \<noteq> k" for j
  proof (rule cpu_ok_other [OF co_invD [OF inv]])
    show "c \<notin> placed (co_cpu s j)" using cpu_okD(4) [OF co_invD [OF inv], of c j] old that by auto
    show "\<not> (co_flag CALLOUT_PENDING v \<and> c_cpu v = j)" using new that by blast
  qed
  then show ?thesis using inv ok unfolding co_inv_def s' by simp
qed

lemma co_inv_not_placed:
  "co_inv s \<Longrightarrow> \<not> co_flag CALLOUT_PENDING (co_tab s c) \<Longrightarrow> c \<notin> placed (co_cpu s k)"
  using cpu_okD(4) [OF co_invD] by blast

lemma co_inv_due:
  assumes inv: "co_inv s" and c: "c \<in> placed (co_cpu s k)"
  shows "- (2 ^ 30) \<le> due_in (co_tab s) (co_cpu s k) c" "due_in (co_tab s) (co_cpu s k) c \<le> CALLOUT_NO_NEXT"
proof -
  note W = cpu_okD(2) [OF co_invD [OF inv, of k]]
  have "- (2 ^ 30) \<le> due_in (co_tab s) (co_cpu s k) c \<and> due_in (co_tab s) (co_cpu s k) c \<le> CALLOUT_NO_NEXT"
  proof (cases "c \<in> set (cc_todo (co_cpu s k))")
    case True
    then show ?thesis using W unfolding wheel_ok_def by blast
  next
    case False
    then obtain b where "c \<in> set (cc_wheel (co_cpu s k) b)" using c by (auto simp: placed_def)
    then show ?thesis using W drain_dist_pos [of b "cc_ticks (co_cpu s k)"] unfolding wheel_ok_def by force
  qed
  then show "- (2 ^ 30) \<le> due_in (co_tab s) (co_cpu s k) c" "due_in (co_tab s) (co_cpu s k) c \<le> CALLOUT_NO_NEXT" by blast+
qed

lemma cancel_not_pending [simp]: "\<not> co_flag CALLOUT_PENDING (co_tab (callout_cancel c s) c)"
  by (simp add: callout_cancel_def flag_bits bit_simps)

lemma cancel_inv:
  assumes inv: "co_inv s"
  shows "co_inv (callout_cancel c s)"
proof -
  let ?k = "c_cpu (co_tab s c)" and ?v = "co_tab (callout_cancel c s) c"
  let ?cc = "if co_flag CALLOUT_PENDING (co_tab s c) then cc_remove c (co_cpu s ?k) else co_cpu s ?k"
  have np: "\<not> co_flag CALLOUT_PENDING ?v" by (rule cancel_not_pending)
  show ?thesis
  proof (rule co_inv_upd [OF inv, where c = c and v = ?v and k = ?k and cc = ?cc])
    show "cpu_ok (callout_next_gen s) (callout_deferrable_enabled s) ((co_tab s)(c := ?v)) ?k ?cc"
      using cpu_ok_remove [OF co_invD [OF inv]] cpu_ok_other [OF co_invD [OF inv] co_inv_not_placed [OF inv]] np by auto
  qed (use np in \<open>simp_all add: callout_cancel_def Let_def\<close>)
qed

text \<open>A callout that changes in place, without its flags for the queues or its time.\<close>

lemma co_inv_touch:
  assumes inv: "co_inv s"
    and s': "callout_next_gen s' = callout_next_gen s" "callout_deferrable_enabled s' = callout_deferrable_enabled s"
      "co_tab s' = (co_tab s)(c := v)" "co_cpu s' = co_cpu s"
    and v: "co_flag CALLOUT_PENDING v = co_flag CALLOUT_PENDING (co_tab s c)"
      "co_flag CALLOUT_DEFERRABLE (co_tab s c) \<Longrightarrow> co_flag CALLOUT_DEFERRABLE v" "c_time v = c_time (co_tab s c)"
      "co_flag CALLOUT_PENDING v \<Longrightarrow> c_cpu v = c_cpu (co_tab s c)"
  shows "co_inv s'"
proof -
  have "cpu_ok (callout_next_gen s) (callout_deferrable_enabled s) ((co_tab s)(c := v)) k (co_cpu s k)" for k
    using v co_inv_due [OF inv, of c k]
    by (intro cpu_ok_set [OF co_invD [OF inv]]) (auto simp: due_in_def callout_next_honoured_def)
  then show ?thesis using inv unfolding co_inv_def s' by simp
qed

lemma coalesce_due:
  assumes "ticks_fit P to_ticks lp"
  shows "to_ticks \<le> sint (fst (lpsched_coalesce P cur g c to_ticks now lp) - now)"
    "sint (fst (lpsched_coalesce P cur g c to_ticks now lp) - now) \<le> CALLOUT_NO_NEXT"
proof -
  obtain delay where d: "fst (lpsched_coalesce P cur g c to_ticks now lp) = now + word_of_int (to_ticks + delay)"
    "0 \<le> delay" "to_ticks + delay \<le> CALLOUT_NO_NEXT"
    using lpsched_coalesce_delay [OF assms] .
  have "0 \<le> to_ticks" using assms by (simp add: ticks_fit_def)
  then have "sint (word_of_int (to_ticks + delay) :: u32) = to_ticks + delay" using d(2,3) by (intro sint_small) simp_all
  then have "sint (fst (lpsched_coalesce P cur g c to_ticks now lp) - now) = to_ticks + delay" unfolding d(1) by simp
  then show "to_ticks \<le> sint (fst (lpsched_coalesce P cur g c to_ticks now lp) - now)"
    "sint (fst (lpsched_coalesce P cur g c to_ticks now lp) - now) \<le> CALLOUT_NO_NEXT" using d by simp_all
qed

lemma co_lp_frame [simp]: "co_lp (set_flags c f s) = co_lp s"
  by (simp add: set_flags_def)

text \<open>The callout as scheduling leaves it, on CPU \<open>k\<close>.\<close>

definition scheduled :: "platform \<Rightarrow> nat \<Rightarrow> u32 \<Rightarrow> nat \<Rightarrow> nat \<Rightarrow> int \<Rightarrow> callouts \<Rightarrow> callout" where
  "scheduled P cur g k c to_ticks s =
    (let v = (co_tab s c) \<lparr> c_flags := c_flags (co_tab s c) AND NOT (CALLOUT_FIRED OR CALLOUT_INVOKING), c_cpu := k \<rparr>
     in v \<lparr> c_time := fst (lpsched_coalesce P cur g v to_ticks (cc_ticks (co_cpu s k)) (co_lp s)),
            c_flags := c_flags v OR CALLOUT_PENDING \<rparr>)"

definition schedule_cpu :: "nat \<Rightarrow> bool \<Rightarrow> nat \<Rightarrow> callouts \<Rightarrow> nat" where
  "schedule_cpu cur tryenter c s =
    (let occ = c_cpu (co_tab s c)
     in if co_flag CALLOUT_PENDING (co_tab s c) \<or> co_flag CALLOUT_BOUND (co_tab s c) \<or> \<not> tryenter then occ else cur)"

lemma pending_or [simp]: "co_flag CALLOUT_PENDING (v \<lparr> c_flags := f OR CALLOUT_PENDING \<rparr>)"
  by (simp add: flag_bits bit_simps)

lemma scheduled_simps [simp]:
  "co_flag CALLOUT_PENDING (scheduled P cur g k c t s)" "c_cpu (scheduled P cur g k c t s) = k"
  by (simp_all add: scheduled_def Let_def flag_bits bit_simps)

lemma schedule_locked_eq:
  fixes P cur g te c to_ticks s
  defines "k \<equiv> schedule_cpu cur te c s"
  defines "v \<equiv> scheduled P cur g k c to_ticks s"
  shows "co_tab (callout_schedule_locked P cur g te c to_ticks s) = (co_tab s)(c := v)"
    "co_cpu (callout_schedule_locked P cur g te c to_ticks s) = (co_cpu s)(k :=
      (if co_flag CALLOUT_PENDING (co_tab s c)
       then if sint (c_time v - c_time (co_tab s c)) < 0 then todo_insert c (cc_remove c (co_cpu s k)) else co_cpu s k
       else todo_insert c (co_cpu s k)))"
    "callout_next_gen (callout_schedule_locked P cur g te c to_ticks s) = callout_next_gen s"
    "callout_deferrable_enabled (callout_schedule_locked P cur g te c to_ticks s) = callout_deferrable_enabled s"
proof -
  let ?r = "callout_schedule_locked P cur g te c to_ticks s" and ?c = "co_tab s c"
  let ?f = "c_flags ?c AND NOT (CALLOUT_FIRED OR CALLOUT_INVOKING)"
  have keep: "co_flag CALLOUT_PENDING (?c \<lparr> c_flags := ?f \<rparr>) = co_flag CALLOUT_PENDING ?c"
    "co_flag CALLOUT_BOUND (?c \<lparr> c_flags := ?f \<rparr>) = co_flag CALLOUT_BOUND ?c"
    by (simp_all add: flag_bits bit_simps)
  have or: "?f OR CALLOUT_PENDING = ?f" if "co_flag CALLOUT_PENDING ?c"
    using that by (intro bit_word_eqI) (auto simp: flag_bits bit_simps numeral_2_eq_2 bit_double_iff)
  show "callout_next_gen ?r = callout_next_gen s" "callout_deferrable_enabled ?r = callout_deferrable_enabled s"
    unfolding callout_schedule_locked_def Let_def by simp_all
  show "co_tab ?r = (co_tab s)(c := v)"
    using or keep unfolding callout_schedule_locked_def Let_def v_def k_def scheduled_def schedule_cpu_def by auto
  show "co_cpu ?r = (co_cpu s)(k := (if co_flag CALLOUT_PENDING ?c
       then if sint (c_time v - c_time ?c) < 0 then todo_insert c (cc_remove c (co_cpu s k)) else co_cpu s k
       else todo_insert c (co_cpu s k)))"
    using keep unfolding callout_schedule_locked_def Let_def v_def k_def scheduled_def schedule_cpu_def by auto
qed


lemma schedule_inv:
  assumes inv: "co_inv s" and fit: "ticks_fit P to_ticks (co_lp s)"
  shows "co_inv (callout_schedule_locked P cur g te c to_ticks s)"
proof -
  let ?k = "schedule_cpu cur te c s"
  let ?v = "scheduled P cur g ?k c to_ticks s"
  let ?p = "co_flag CALLOUT_PENDING (co_tab s c)"
  note E = schedule_locked_eq [of P cur g te c to_ticks s]
  have due: "0 \<le> sint (c_time ?v - cc_ticks (co_cpu s ?k))" "sint (c_time ?v - cc_ticks (co_cpu s ?k)) \<le> CALLOUT_NO_NEXT"
  proof -
    have "0 \<le> to_ticks" using fit by (simp add: ticks_fit_def)
    then show "0 \<le> sint (c_time ?v - cc_ticks (co_cpu s ?k))" "sint (c_time ?v - cc_ticks (co_cpu s ?k)) \<le> CALLOUT_NO_NEXT"
      using coalesce_due [OF fit] order_trans unfolding scheduled_def Let_def by (auto intro: order_trans)
  qed
  have k: "?p \<Longrightarrow> c_cpu (co_tab s c) = ?k" by (simp add: schedule_cpu_def)
  note ok = co_invD [OF inv, of ?k]
  have cc: "cpu_ok (callout_next_gen s) (callout_deferrable_enabled s) ((co_tab s)(c := ?v)) ?k (co_cpu
      (callout_schedule_locked P cur g te c to_ticks s) ?k)"
  proof (cases ?p)
    case False
    then show ?thesis
      using cpu_ok_todo_insert [OF ok co_inv_not_placed [OF inv False], of ?v] due unfolding E by simp
  next
    case p: True
    show ?thesis
    proof (cases "sint (c_time ?v - c_time (co_tab s c)) < 0")
      case True
      let ?u = "(co_tab s c) \<lparr> c_flags := 0 \<rparr>"
      have "\<not> co_flag CALLOUT_PENDING ?u" by (simp add: co_flag_def)
      then have "cpu_ok (callout_next_gen s) (callout_deferrable_enabled s) ((co_tab s)(c := ?u)) ?k (cc_remove c (co_cpu s ?k))"
        by (intro cpu_ok_remove [OF ok]) simp
      moreover have "c \<notin> placed (cc_remove c (co_cpu s ?k))" using cc_remove_placed [OF cpu_okD(1) [OF ok]] by simp
      ultimately have "cpu_ok (callout_next_gen s) (callout_deferrable_enabled s) ((co_tab s)(c := ?u, c := ?v)) ?k
          (todo_insert c (cc_remove c (co_cpu s ?k)))"
        by (rule cpu_ok_todo_insert) (use due in simp_all)
      then show ?thesis using p True unfolding E by simp
    next
      case False
      have pl: "c \<in> placed (co_cpu s ?k)" using cpu_okD(4) [OF ok, of c] p k by simp
      have "sint (c_time ?v - c_time (co_tab s c)) =
          sint (c_time ?v - cc_ticks (co_cpu s ?k)) - due_in (co_tab s) (co_cpu s ?k) c"
        unfolding due_in_def using due co_inv_due [OF inv pl] unfolding due_in_def by (intro sint_diff) simp_all
      then have le: "due_in (co_tab s) (co_cpu s ?k) c \<le> sint (c_time ?v - cc_ticks (co_cpu s ?k))" using False by simp
      have hon: "callout_next_honoured d ?v = callout_next_honoured d (co_tab s c)" for d
        by (simp add: callout_next_honoured_def scheduled_def Let_def flag_bits bit_simps)
      have "cpu_ok (callout_next_gen s) (callout_deferrable_enabled s) ((co_tab s)(c := ?v)) ?k (co_cpu s ?k)"
        by (rule cpu_ok_set [OF ok]) (use p k le due hon in simp_all)
      then show ?thesis using p False unfolding E by simp
    qed
  qed
  show ?thesis
    by (rule co_inv_upd [OF inv E(3,4,1) _ cc]) (use k E(2) in simp_all)
qed

lemma setfunc_inv: "co_inv s \<Longrightarrow> co_inv (set_co c ((co_tab s c) \<lparr> c_func := f, c_arg := a \<rparr>) s)"
  by (erule co_inv_touch [where c = c and v = "(co_tab s c) \<lparr> c_func := f, c_arg := a \<rparr>"]) (simp_all add: co_flag_def)

lemma reset_inv:
  "co_inv s \<Longrightarrow> ticks_fit P to_ticks (co_lp s) \<Longrightarrow> co_inv (callout_reset P cur g te c to_ticks f a s)"
  unfolding callout_reset_def by (intro schedule_inv setfunc_inv) simp_all

lemma ack_inv: "co_inv s \<Longrightarrow> co_inv (callout_ack c s)"
  unfolding callout_ack_def
  by (erule co_inv_touch [where c = c and v = "(co_tab s c) \<lparr> c_flags := c_flags (co_tab s c) AND NOT CALLOUT_INVOKING \<rparr>"])
    (simp_all add: flag_bits bit_simps)

lemma init_inv:
  assumes "co_inv s" "\<not> co_flag CALLOUT_PENDING (co_tab s c)" "flags AND 0xff = 0"
  shows "co_inv (callout_init cur has_cc c flags s)"
proof -
  let ?v = "co_tab (callout_init cur has_cc c flags s) c"
  have "\<not> bit flags 1" using arg_cong [OF assms(3), of "\<lambda>w. bit w 1"] by (simp add: bit_simps)
  then have np: "\<not> co_flag CALLOUT_PENDING ?v"
    by (simp add: callout_init_def Let_def flag_bits bit_simps)
  have "cpu_ok (callout_next_gen s) (callout_deferrable_enabled s) ((co_tab s)(c := ?v)) k (co_cpu s k)" for k
    using np co_inv_not_placed [OF assms(1,2)] by (intro cpu_ok_other [OF co_invD [OF assms(1)]]) simp_all
  moreover have t: "co_tab (callout_init cur has_cc c flags s) = (co_tab s)(c := ?v)"
    and f: "co_cpu (callout_init cur has_cc c flags s) = co_cpu s"
      "callout_next_gen (callout_init cur has_cc c flags s) = callout_next_gen s"
      "callout_deferrable_enabled (callout_init cur has_cc c flags s) = callout_deferrable_enabled s"
    by (simp_all add: callout_init_def Let_def)
  ultimately show ?thesis using assms(1) unfolding co_inv_def f by (subst t) blast
qed

lemma co_inv_cc_upd:
  assumes "co_inv s" "cpu_ok (callout_next_gen s) (callout_deferrable_enabled s) (co_tab s) k (f (co_cpu s k))"
  shows "co_inv (upd_cc k f s)"
  using assms unfolding co_inv_def by simp

lemma co_inv_cc_cong:
  assumes "co_inv s" "\<And>cc. cc_todo (f cc) = cc_todo cc" "\<And>cc. cc_wheel (f cc) = cc_wheel cc" "\<And>cc. cc_ticks (f cc) = cc_ticks cc"
    "\<And>cc. cc_next_gen (f cc) = cc_next_gen cc" "\<And>cc. cc_next_none (f cc) = cc_next_none cc"
    "\<And>cc. cc_next_time (f cc) = cc_next_time cc"
  shows "co_inv (upd_cc k f s)"
  using assms(1) co_invD [OF assms(1), of k] by (intro co_inv_cc_upd) (simp_all add: cpu_ok_cong [of "f _", OF assms(2-7)])

lemma setdeferrable_inv:
  assumes inv: "co_inv s"
  shows "co_inv (callout_setdeferrable c on s)"
proof (cases on)
  case True
  then show ?thesis
    unfolding callout_setdeferrable_def
    by (simp, intro co_inv_touch [OF inv, where c = c and v = "(co_tab s c) \<lparr> c_flags := c_flags (co_tab s c) OR CALLOUT_DEFERRABLE \<rparr>"])
      (simp_all add: flag_bits bit_simps)
next
  case False
  let ?k = "c_cpu (co_tab s c)" and ?v = "(co_tab s c) \<lparr> c_flags := c_flags (co_tab s c) AND NOT CALLOUT_DEFERRABLE \<rparr>"
  let ?cc = "(co_cpu s ?k) \<lparr> cc_next_gen := 0 \<rparr>"
  note ok = co_invD [OF inv, of ?k]
  have g: "callout_next_gen s \<noteq> 0" using inv by (simp add: co_inv_def)
  have "cpu_ok (callout_next_gen s) (callout_deferrable_enabled s) (co_tab s) ?k ?cc"
    using cpu_okD [OF ok] g unfolding cpu_ok_def
    by (simp add: next_ok_def queues_wf_cong(1) [of ?cc "co_cpu s ?k"] queues_wf_cong(2) [of ?cc "co_cpu s ?k"] queues_wf_cong(3) [of ?cc "co_cpu s ?k"])
  then have "cpu_ok (callout_next_gen s) (callout_deferrable_enabled s) ((co_tab s)(c := ?v)) ?k ?cc"
  proof (rule cpu_ok_set)
    show "(co_flag CALLOUT_PENDING ?v \<and> c_cpu ?v = ?k) = (co_flag CALLOUT_PENDING (co_tab s c) \<and> c_cpu (co_tab s c) = ?k)"
      by (simp add: flag_bits bit_simps)
    show "due_in (co_tab s) ?cc c \<le> sint (c_time ?v - cc_ticks ?cc) \<and> sint (c_time ?v - cc_ticks ?cc) \<le> CALLOUT_NO_NEXT" if "c \<in> placed ?cc"
      using co_inv_due(2) [OF inv, of c ?k] that queues_wf_cong(2) [of ?cc "co_cpu s ?k"] by (simp add: due_in_def)
  qed (use g in simp)
  then show ?thesis
    by (rule co_inv_upd [OF inv, where c = c and v = ?v and k = ?k and cc = ?cc, rotated -3])
      (use False in \<open>simp_all add: callout_setdeferrable_def flag_bits bit_simps\<close>)
qed

end
