(* ===== verification/Callout_Clock.thy ===== *)
theory Callout_Clock
  imports Callout_Inv
begin

text \<open>
  The clock side of the callout facility: the scan for the next deadline, the termination of the
  soft clock against what the callouts' functions may do (locale \<open>callout_env\<close>), the reachable
  states of the whole facility with its invariant, waiting for a running callout, and the
  properties the facility promises to its users.
\<close>

section \<open>The scan of the wheel\<close>

definition honoured_list :: "bool \<Rightarrow> (nat \<Rightarrow> callout) \<Rightarrow> nat list \<Rightarrow> nat list" where
  "honoured_list d tab xs = filter (\<lambda>c. callout_next_honoured d (tab c)) xs"

definition scan_ok :: "bool \<Rightarrow> u32 \<Rightarrow> (nat \<Rightarrow> callout) \<Rightarrow> nat list \<Rightarrow> next_scan \<Rightarrow> bool" where
  "scan_ok d t tab xs n \<longleftrightarrow>
    (if honoured_list d tab xs = [] then ns_none n \<and> ns_best n = CALLOUT_NO_NEXT
     else \<not> ns_none n \<and> ns_best n = sint (ns_earliest n - t) \<and>
       (\<exists>c\<in>set (honoured_list d tab xs). ns_earliest n = c_time (tab c)) \<and>
       (\<forall>c\<in>set (honoured_list d tab xs). ns_best n \<le> sint (c_time (tab c) - t)))"

lemma scan_one_ok: "scan_ok d t tab xs n \<Longrightarrow> scan_ok d t tab (xs @ [c]) (next_scan_one d t (tab c) n)"
  by (cases "honoured_list d tab xs = []"; cases "callout_next_honoured d (tab c)")
    (auto simp: scan_ok_def honoured_list_def next_scan_one_def Let_def)

lemma scan_list_ok:
  "scan_ok d t tab xs n \<Longrightarrow> scan_ok d t tab (xs @ ys) (fold (\<lambda>c. next_scan_one d t (tab c)) ys n)"
proof (induction ys arbitrary: xs n)
  case (Cons y ys)
  from Cons.IH [OF scan_one_ok [OF Cons.prems, of y]] show ?case by simp
qed simp

lemma scan_buckets_ok:
  "scan_ok d t tab xs n \<Longrightarrow> scan_ok d t tab (xs @ concat (map w bs)) (fold (\<lambda>i. fold (\<lambda>c. next_scan_one d t (tab c)) (w i)) bs n)"
proof (induction bs arbitrary: xs n)
  case (Cons b bs)
  from Cons.IH [OF scan_list_ok [OF Cons.prems, of "w b"]] show ?case by simp
qed simp

lemma next_scan_all_ok:
  "scan_ok d (cc_ticks cc) tab (concat (map (cc_wheel cc) [0..<1024])) (next_scan_all tab d cc)"
proof -
  have "scan_ok d (cc_ticks cc) tab [] \<lparr> ns_skipped = 0, ns_none = True, ns_best = CALLOUT_NO_NEXT, ns_earliest = 0 \<rparr>"
    by (simp add: scan_ok_def honoured_list_def)
  from scan_buckets_ok [OF this, of "cc_wheel cc" "[0..<1024]"] show ?thesis
    by (simp only: next_scan_all_def append_Nil)
qed

lemma in_wheel_list:
  assumes "queues_wf cc"
  shows "c \<in> set (concat (map (cc_wheel cc) [0..<1024])) \<longleftrightarrow> (\<exists>b. c \<in> set (cc_wheel cc b))"
proof -
  have "c \<in> set (cc_wheel cc b) \<Longrightarrow> b < 1024" for b
    using assms by (auto simp: queues_wf_def not_less [symmetric])
  then show ?thesis by (simp only: set_concat set_map set_upt) auto
qed

lemma scan_next_ok:
  assumes wf: "queues_wf cc" and w: "wheel_ok tab cc" and n: "n = next_scan_all tab d cc"
    and cd: "cc_wheel cd = cc_wheel cc" "cc_ticks cd = cc_ticks cc" "cc_next_none cd = ns_none n" "cc_next_time cd = ns_earliest n"
  shows "next_ok gen d tab cd" "0 \<le> ns_best n" "ns_best n \<le> CALLOUT_NO_NEXT"
    "c \<in> set (cc_wheel cc b) \<Longrightarrow> callout_next_honoured d (tab c) \<Longrightarrow> ns_best n \<le> due_in tab cc c"
    "ns_none n \<Longrightarrow> ns_best n = CALLOUT_NO_NEXT"
    "\<not> ns_none n \<Longrightarrow> \<exists>c b. c \<in> set (cc_wheel cc b) \<and> callout_next_honoured d (tab c) \<and> ns_best n = due_in tab cc c"
proof -
  let ?L = "concat (map (cc_wheel cc) [0..<1024])"
  have S: "scan_ok d (cc_ticks cc) tab ?L n" unfolding n by (rule next_scan_all_ok)
  have mem: "x \<in> set (honoured_list d tab ?L) \<longleftrightarrow> (\<exists>b. x \<in> set (cc_wheel cc b)) \<and> callout_next_honoured d (tab x)" for x
    unfolding honoured_list_def set_filter using in_wheel_list [OF wf, of x] by blast
  have rng: "1 \<le> due_in tab cc x \<and> due_in tab cc x \<le> CALLOUT_NO_NEXT" if "x \<in> set (cc_wheel cc b)" for x b
    using w that drain_dist_pos [of b "cc_ticks cc"] unfolding wheel_ok_def by force
  have none: "ns_none n \<longleftrightarrow> honoured_list d tab ?L = []" using S unfolding scan_ok_def by (auto split: if_splits)
  show e: "ns_none n \<Longrightarrow> ns_best n = CALLOUT_NO_NEXT" using S none unfolding scan_ok_def by simp
  show ex: "\<not> ns_none n \<Longrightarrow> \<exists>c b. c \<in> set (cc_wheel cc b) \<and> callout_next_honoured d (tab c) \<and> ns_best n = due_in tab cc c"
    using S none mem unfolding scan_ok_def due_in_def by (metis (no_types, lifting))
  show le: "c \<in> set (cc_wheel cc b) \<Longrightarrow> callout_next_honoured d (tab c) \<Longrightarrow> ns_best n \<le> due_in tab cc c" for c b
    using S none mem [of c] unfolding scan_ok_def due_in_def by (metis (no_types, lifting) empty_iff list.set(1))
  show b0: "0 \<le> ns_best n" "ns_best n \<le> CALLOUT_NO_NEXT" using e ex rng by (cases "ns_none n"; force)+
  have "next_in cd = ns_best n" if "\<not> ns_none n"
    using S none that unfolding scan_ok_def next_in_def cd by simp
  moreover have "\<not> ns_none n" if "x \<in> set (cc_wheel cc b')" "callout_next_honoured d (tab x)" for x b'
    using none mem [of x] that by (metis empty_iff list.set(1))
  ultimately show "next_ok gen d tab cd" using b0 le unfolding next_ok_def cd due_in_def by force
qed

section \<open>The next deadline\<close>

lemma next_ticks_all:
  assumes inv: "co_inv s" and r: "callout_next_ticks cur s = (n, s')"
  shows "co_inv s'" "0 \<le> n" "n \<le> CALLOUT_NO_NEXT" "cc_todo (co_cpu s cur) \<noteq> [] \<Longrightarrow> n = 0"
    "c \<in> set (cc_wheel (co_cpu s cur) b) \<Longrightarrow> callout_next_honoured (callout_deferrable_enabled s) (co_tab s c) \<Longrightarrow>
      n \<le> due_in (co_tab s) (co_cpu s cur) c"
proof -
  let ?cc = "co_cpu s cur" and ?g = "callout_next_gen s" and ?d = "callout_deferrable_enabled s" and ?tab = "co_tab s"
  let ?n = "next_scan_all ?tab ?d ?cc"
  note ok = co_invD [OF inv, of cur]
  note D = cpu_okD [OF ok]
  let ?scan = "?cc \<lparr> cc_next_scans := cc_next_scans ?cc + 1, cc_deferred_skips := cc_deferred_skips ?cc + ns_skipped ?n,
     cc_next_gen := ?g, cc_next_none := ns_none ?n, cc_next_time := ns_earliest ?n \<rparr>"
  let ?hit = "?cc \<lparr> cc_next_hits := cc_next_hits ?cc + 1 \<rparr>"
  note N = scan_next_ok [OF D(1,2) refl, of ?scan ?d, simplified]
  have scan: "cpu_ok ?g ?d ?tab cur ?scan"
    using D N(1) [of ?g] unfolding cpu_ok_def
    by (simp add: queues_wf_cong(1) [of ?scan ?cc] queues_wf_cong(2) [of ?scan ?cc] queues_wf_cong(3) [of ?scan ?cc])
  have hit: "cpu_ok ?g ?d ?tab cur ?hit" using ok by (simp add: cpu_ok_cong [of ?hit ?cc])
  have pos: "1 \<le> due_in ?tab ?cc x" if "x \<in> set (cc_wheel ?cc b')" for x b'
    using D(2) that drain_dist_pos [of b' "cc_ticks ?cc"] unfolding wheel_ok_def by force
  have nx: "cc_next_none ?cc \<or> - (2 ^ 30) \<le> next_in ?cc \<and> next_in ?cc \<le> CALLOUT_NO_NEXT"
    "x \<in> set (cc_wheel ?cc b') \<Longrightarrow> callout_next_honoured ?d (?tab x) \<Longrightarrow>
      \<not> cc_next_none ?cc \<and> (next_in ?cc \<le> 0 \<or> next_in ?cc \<le> due_in ?tab ?cc x)" if "cc_next_gen ?cc = ?g" for x b'
    using D(3) that unfolding next_ok_def by blast+
  consider (todo) "cc_todo ?cc \<noteq> []" "n = 0" "s' = upd_cc cur (\<lambda>_. ?cc) s"
    | (none) "cc_todo ?cc = []" "cc_next_gen ?cc = ?g" "cc_next_none ?cc" "n = CALLOUT_NO_NEXT" "s' = upd_cc cur (\<lambda>_. ?hit) s"
    | (cached) "cc_todo ?cc = []" "cc_next_gen ?cc = ?g" "\<not> cc_next_none ?cc" "0 < next_in ?cc" "n = next_in ?cc" "s' = upd_cc cur (\<lambda>_. ?hit) s"
    | (walk) "cc_todo ?cc = []" "n = ns_best ?n" "s' = upd_cc cur (\<lambda>_. ?scan) s"
    using r N(2) unfolding callout_next_ticks_def Let_def next_in_def by (auto split: if_splits)
  then have "co_inv s' \<and> 0 \<le> n \<and> n \<le> CALLOUT_NO_NEXT \<and> (cc_todo ?cc \<noteq> [] \<longrightarrow> n = 0) \<and>
      (c \<in> set (cc_wheel ?cc b) \<longrightarrow> callout_next_honoured ?d (?tab c) \<longrightarrow> n \<le> due_in ?tab ?cc c)"
  proof cases
    case todo
    then show ?thesis using pos [of c b] ok inv by (auto intro: co_inv_cc_upd)
  next
    case none
    then show ?thesis using nx hit inv by (auto intro: co_inv_cc_upd)
  next
    case cached
    then show ?thesis using nx [OF cached(2)] hit inv by (auto intro: co_inv_cc_upd)
  next
    case walk
    then show ?thesis using N(2,3) N(4) [of c b] scan inv by (auto intro: co_inv_cc_upd)
  qed
  then show "co_inv s'" "0 \<le> n" "n \<le> CALLOUT_NO_NEXT" "cc_todo ?cc \<noteq> [] \<Longrightarrow> n = 0"
    "c \<in> set (cc_wheel ?cc b) \<Longrightarrow> callout_next_honoured ?d (?tab c) \<Longrightarrow> n \<le> due_in ?tab ?cc c" by blast+
qed

lemma next_ticks_exact:
  assumes inv: "co_inv s" and r: "callout_next_ticks cur s = (n, s')"
    and z: "cc_todo (co_cpu s cur) = []" "cc_next_gen (co_cpu s cur) \<noteq> callout_next_gen s" "n \<noteq> CALLOUT_NO_NEXT"
  shows "\<exists>c. co_flag CALLOUT_PENDING (co_tab s c) \<and> c_cpu (co_tab s c) = cur \<and>
    callout_next_honoured (callout_deferrable_enabled s) (co_tab s c) \<and> n = due_in (co_tab s) (co_cpu s cur) c"
proof -
  let ?cc = "co_cpu s cur" and ?n = "next_scan_all (co_tab s) (callout_deferrable_enabled s) (co_cpu s cur)"
  note D = cpu_okD [OF co_invD [OF inv, of cur]]
  note N = scan_next_ok [OF D(1,2) refl, of "?cc \<lparr> cc_next_none := ns_none ?n, cc_next_time := ns_earliest ?n \<rparr>"
      "callout_deferrable_enabled s", simplified]
  have n: "n = ns_best ?n" using r z(1,2) N(2) by (auto simp: callout_next_ticks_def Let_def split: if_splits)
  then have "\<not> ns_none ?n" using z(3) N(5) by auto
  then obtain c b where "c \<in> set (cc_wheel ?cc b)" "callout_next_honoured (callout_deferrable_enabled s) (co_tab s c)"
    "ns_best ?n = due_in (co_tab s) ?cc c" using N(6) by blast
  then show ?thesis using D(4) [of c] placedI(2) n by auto
qed

section \<open>The soft clock\<close>

lemma upd_cc_const: "upd_cc k (\<lambda>_. X) (upd_cc k f s) = upd_cc k (\<lambda>_. X) s"
  by (simp add: upd_cc_def)

lemma requeue_inv:
  assumes inv: "co_inv s" and todo: "c \<in> set (cc_todo (co_cpu s cur))" and due: "0 < due_in (co_tab s) (co_cpu s cur) c"
  shows "co_inv (softclock_requeue cur c (upd_cc cur (cc_remove c) s))"
proof -
  let ?g = "callout_next_gen s" and ?d = "callout_deferrable_enabled s" and ?tab = "co_tab s"
  let ?cc = "co_cpu s cur" and ?r = "sint (c_time (co_tab s c) - cc_ticks (co_cpu s cur))"
  let ?u = "(co_tab s c) \<lparr> c_flags := 0 \<rparr>"
  note ok = co_invD [OF inv, of cur]
  note D = cpu_okD [OF ok]
  have c: "c \<in> placed ?cc" by (rule placedI(1) [OF todo])
  have "\<not> co_flag CALLOUT_PENDING ?u" by (simp add: co_flag_def)
  then have rm: "cpu_ok ?g ?d (?tab(c := ?u)) cur (cc_remove c ?cc)" by (intro cpu_ok_remove [OF ok]) simp
  have "c \<notin> placed (cc_remove c ?cc)" using cc_remove_placed [OF D(1)] by simp
  from cpu_ok_wheel_insert [OF rm this, of "co_tab s c" ?r]
  have "cpu_ok ?g ?d ?tab cur (callout_next_note ?g ?d (co_tab s c) (wheel_insert c (BUCKET ?r (c_time (co_tab s c))) (cc_remove c ?cc)))"
    using D(4) [of c] c due co_inv_due(2) [OF inv c] unfolding due_in_def by simp
  then show ?thesis
    unfolding softclock_requeue_def Let_def upd_cc_const by (intro co_inv_cc_upd [OF inv]) simp
qed
lemma fire_inv:
  assumes inv: "co_inv s" and c: "c \<in> placed (co_cpu s cur)"
  shows "co_inv (softclock_fire cur c (upd_cc cur (cc_remove c) s))"
proof -
  let ?v = "(co_tab s c) \<lparr> c_flags := (c_flags (co_tab s c) AND NOT CALLOUT_PENDING) OR (CALLOUT_FIRED OR CALLOUT_INVOKING) \<rparr>"
  let ?s1 = "set_flags c (\<lambda>f. (f AND NOT CALLOUT_PENDING) OR (CALLOUT_FIRED OR CALLOUT_INVOKING)) (upd_cc cur (cc_remove c) s)"
  have np: "\<not> co_flag CALLOUT_PENDING ?v" by (simp add: flag_bits bit_simps)
  have k: "c_cpu (co_tab s c) = cur" using cpu_okD(4) [OF co_invD [OF inv, of cur], of c] c by simp
  have "cpu_ok (callout_next_gen s) (callout_deferrable_enabled s) ((co_tab s)(c := ?v)) cur (cc_remove c (co_cpu s cur))"
    using np by (intro cpu_ok_remove [OF co_invD [OF inv]]) simp
  then have "co_inv ?s1"
    by (rule co_inv_upd [OF inv, where c = c and v = ?v and k = cur, rotated -3]) (use np k in simp_all)
  moreover have "softclock_fire cur c (upd_cc cur (cc_remove c) s) = upd_cc cur (\<lambda>cc. cc \<lparr>
      cc_ev_late := (if due_in (co_tab s) (co_cpu s cur) c < 0 then cc_ev_late cc + 1 else cc_ev_late cc),
      cc_active := Some c \<rparr>) ?s1"
    by (simp add: softclock_fire_def Let_def set_flags_def upd_cc_def set_co_def due_in_def cc_remove_def)
  ultimately show ?thesis by (simp only:) (rule co_inv_cc_cong, simp_all)
qed

lemma done_inv: "co_inv s \<Longrightarrow> co_inv (softclock_done cur s)"
  unfolding softclock_done_def by (rule co_inv_cc_cong) simp_all


definition due_count :: "nat \<Rightarrow> callouts \<Rightarrow> nat" where
  "due_count cur s = length (filter (\<lambda>c. due_in (co_tab s) (co_cpu s cur) c \<le> 0) (cc_todo (co_cpu s cur)))"

lemma pass_wait:
  assumes "cc_todo (co_cpu s cur) = c # cs" "0 < due_in (co_tab s) (co_cpu s cur) c"
  shows "softclock_pass run cur c s = softclock_requeue cur c (upd_cc cur (cc_remove c) s)"
    "cc_todo (co_cpu (softclock_pass run cur c s) cur) = cs" "due_count cur (softclock_pass run cur c s) = due_count cur s"
proof -
  show e: "softclock_pass run cur c s = softclock_requeue cur c (upd_cc cur (cc_remove c) s)"
    using assms(2) by (simp add: softclock_pass_def Let_def due_in_def)
  show t: "cc_todo (co_cpu (softclock_pass run cur c s) cur) = cs"
    unfolding e using assms(1) by (simp add: softclock_requeue_def Let_def cc_remove_def)
  have "due_in (co_tab (softclock_pass run cur c s)) (co_cpu (softclock_pass run cur c s) cur) = due_in (co_tab s) (co_cpu s cur)"
    unfolding e by (simp add: softclock_requeue_def Let_def due_in_def fun_eq_iff)
  then show "due_count cur (softclock_pass run cur c s) = due_count cur s"
    unfolding due_count_def t using assms by simp
qed

lemma pass_fire:
  assumes "cc_todo (co_cpu s cur) = c # cs" "due_in (co_tab s) (co_cpu s cur) c \<le> 0"
  defines "f \<equiv> softclock_fire cur c (upd_cc cur (cc_remove c) s)"
  shows "softclock_pass run cur c s = softclock_done cur (run (c_func (co_tab s c)) (c_arg (co_tab s c)) f)"
    "due_count cur f < due_count cur s"
proof -
  show "softclock_pass run cur c s = softclock_done cur (run (c_func (co_tab s c)) (c_arg (co_tab s c)) f)"
    using assms(2) by (simp add: softclock_pass_def Let_def due_in_def f_def)
  have t: "cc_todo (co_cpu f cur) = cs" unfolding f_def using assms(1) by (simp add: softclock_fire_def Let_def cc_remove_def)
  have "due_in (co_tab f) (co_cpu f cur) = due_in (co_tab s) (co_cpu s cur)"
    unfolding f_def by (simp add: softclock_fire_def Let_def due_in_def fun_eq_iff)
  then show "due_count cur f < due_count cur s" unfolding due_count_def t using assms(1,2) by simp
qed

lemma done_due_count: "due_count cur (softclock_done cur s) = due_count cur s"
  by (simp add: due_count_def softclock_done_def due_in_def)

text \<open>
  What the soft clock needs of the functions it calls, and of everything else that happens while
  its lock is dropped: they keep the invariant, and put no callout that is already due onto this
  CPU's worklist. Then the soft clock terminates.
\<close>

locale callout_env =
  fixes run :: "nat option \<Rightarrow> nat \<Rightarrow> callouts \<Rightarrow> callouts" and cur :: nat
  assumes run_inv: "co_inv s \<Longrightarrow> co_inv (run f a s)"
    and run_due: "co_inv s \<Longrightarrow> due_count cur (run f a s) \<le> due_count cur s"
begin

lemma pass_inv:
  assumes inv: "co_inv s" and todo: "cc_todo (co_cpu s cur) = c # cs"
  shows "co_inv (softclock_pass run cur c s)"
    "(softclock_pass run cur c s, s) \<in> measures [due_count cur, \<lambda>s. length (cc_todo (co_cpu s cur))]"
proof -
  have c: "c \<in> set (cc_todo (co_cpu s cur))" using todo by simp
  show "co_inv (softclock_pass run cur c s)"
    using requeue_inv [OF inv c] fire_inv [OF inv placedI(1) [OF c]] pass_wait(1) [OF todo, of run] pass_fire(1) [OF todo, of run]
      run_inv done_inv by (cases "0 < due_in (co_tab s) (co_cpu s cur) c") (simp_all add: not_less)
  show "(softclock_pass run cur c s, s) \<in> measures [due_count cur, \<lambda>s. length (cc_todo (co_cpu s cur))]"
  proof (cases "0 < due_in (co_tab s) (co_cpu s cur) c")
    case True
    then show ?thesis using pass_wait(2,3) [OF todo True, of run] todo by simp
  next
    case False
    then have d: "due_in (co_tab s) (co_cpu s cur) c \<le> 0" by simp
    have "due_count cur (softclock_pass run cur c s) < due_count cur s"
      unfolding pass_fire(1) [OF todo d] done_due_count
      by (rule order_le_less_trans [OF run_due [OF fire_inv [OF inv placedI(1) [OF c]]] pass_fire(2) [OF todo d]])
    then show ?thesis by simp
  qed
qed

lemma softclock_total:
  "co_inv s \<Longrightarrow> \<exists>s'. softclock_loop run cur s = Some s' \<and> co_inv s' \<and> cc_todo (co_cpu s' cur) = []"
proof (induction s rule: wf_induct_rule [OF wf_measures [of "[due_count cur, \<lambda>s. length (cc_todo (co_cpu s cur))]"]])
  case (1 s)
  show ?case
  proof (cases "cc_todo (co_cpu s cur)")
    case Nil
    then show ?thesis using 1(2) by (simp add: softclock_loop.simps)
  next
    case (Cons c cs)
    from 1(1) [OF pass_inv(2) [OF 1(2) Cons] pass_inv(1) [OF 1(2) Cons]] Cons
    show ?thesis by (simp add: softclock_loop.simps [of run cur s])
  qed
qed

end

text \<open>An example of such a function: a callout that sets itself again, for a positive time.\<close>

definition rearm :: "platform \<Rightarrow> nat \<Rightarrow> u32 \<Rightarrow> int \<Rightarrow> nat option \<Rightarrow> nat \<Rightarrow> callouts \<Rightarrow> callouts" where
  "rearm P cur getticks to_ticks f c s =
    (if 0 < to_ticks \<and> ticks_fit P to_ticks (co_lp s) then callout_schedule P cur getticks True c to_ticks s else s)"

lemma schedule_due_count:
  assumes inv: "co_inv s" and fit: "ticks_fit P t (co_lp s)" "0 < t"
  shows "due_count cur (callout_schedule_locked P cur g te c t s) \<le> due_count cur s"
proof -
  let ?k = "schedule_cpu cur te c s" and ?r = "callout_schedule_locked P cur g te c t s"
  let ?v = "scheduled P cur g ?k c t s"
  note E = schedule_locked_eq [of P cur g te c t s]
  let ?cc = "co_cpu s cur" and ?cd = "co_cpu ?r cur"
  have t: "cc_ticks ?cd = cc_ticks ?cc" unfolding E by (simp add: todo_insert_def)
  have new: "0 < due_in (co_tab ?r) ?cd c" if "?k = cur"
    using coalesce_due(1) [OF fit(1), of cur g _ "cc_ticks (co_cpu s ?k)"] fit(2) that
    unfolding due_in_def t E scheduled_def Let_def by (simp add: order_less_le_trans)
  have old: "due_in (co_tab ?r) ?cd x = due_in (co_tab s) ?cc x" if "x \<noteq> c" for x
    using that unfolding due_in_def t E by simp
  have sub: "filter (\<lambda>x. x \<noteq> c) (cc_todo ?cd) = filter (\<lambda>x. x \<noteq> c) (cc_todo ?cc)"
    unfolding E by (simp add: todo_insert_def cc_remove_def filter_remove1)
  have nc: "x \<noteq> c" if x: "x \<in> set (cc_todo ?cd)" "due_in (co_tab ?r) ?cd x \<le> 0" for x
  proof (cases "?k = cur")
    case True
    then show ?thesis using new x(2) by auto
  next
    case False
    then have "x \<in> placed ?cc" using placedI(1) [OF x(1)] unfolding E by simp
    then show ?thesis using False cpu_okD(4) [OF co_invD [OF inv, of cur], of x] by (auto simp: schedule_cpu_def Let_def)
  qed
  have "filter (\<lambda>x. due_in (co_tab ?r) ?cd x \<le> 0) (cc_todo ?cd) =
      filter (\<lambda>x. due_in (co_tab s) ?cc x \<le> 0) (filter (\<lambda>x. x \<noteq> c) (cc_todo ?cd))"
    unfolding filter_filter
  proof (rule filter_cong [OF refl])
    fix x assume "x \<in> set (cc_todo ?cd)"
    then show "due_in (co_tab ?r) ?cd x \<le> 0 \<longleftrightarrow> x \<noteq> c \<and> due_in (co_tab s) ?cc x \<le> 0"
      using nc [of x] old [of x] by (cases "x = c") auto
  qed
  also have "\<dots> = filter (\<lambda>x. x \<noteq> c) (filter (\<lambda>x. due_in (co_tab s) ?cc x \<le> 0) (cc_todo ?cc))"
    unfolding sub by (simp add: conj_commute)
  finally show ?thesis unfolding due_count_def by (simp only: length_filter_le)
qed

interpretation rearming: callout_env "rearm P cur g t" cur for P cur g t
proof unfold_locales
  fix s f a assume inv: "co_inv s"
  show "co_inv (rearm P cur g t f a s)"
    unfolding rearm_def callout_schedule_def using inv by (simp add: schedule_inv)
  show "due_count cur (rearm P cur g t f a s) \<le> due_count cur s"
    unfolding rearm_def callout_schedule_def using inv by (simp add: schedule_due_count)
qed


section \<open>Reachable states\<close>

lemma sysctl_inv:
  assumes inv: "co_inv s" and r: "sysctl_kern_callout_deferrable lk newp s = (e, s')"
    and fresh: "\<And>k. callout_next_gen s' = callout_next_gen s \<or> cc_next_gen (co_cpu s k) \<noteq> callout_next_gen s'"
  shows "co_inv s'"
proof (cases "fst (lk newp (if callout_deferrable_enabled s then 1 else 0)) \<noteq> None \<or> newp = None")
  case True
  then have "s' = s" using r by (auto simp: sysctl_kern_callout_deferrable_def split: prod.splits if_splits)
  then show ?thesis using inv by simp
next
  case False
  let ?g = "callout_next_gen s + 1"
  have s': "co_tab s' = co_tab s" "co_cpu s' = co_cpu s" "callout_next_gen s' = (if ?g = 0 then ?g + 1 else ?g)"
    using r False by (auto simp: sysctl_kern_callout_deferrable_def Let_def split: prod.splits if_splits)
  have ne: "callout_next_gen s' \<noteq> callout_next_gen s" "callout_next_gen s' \<noteq> 0"
    unfolding s'(3) by auto
  have "next_ok (callout_next_gen s') (callout_deferrable_enabled s') (co_tab s) (co_cpu s k)" for k
    using fresh [of k] ne(1) unfolding next_ok_def by blast
  then show ?thesis using inv ne(2) unfolding co_inv_def cpu_ok_def s'(1,2) by blast
qed

text \<open>
  The states the kernel can be in: from boot, by any sequence of the operations, each one a
  critical section of the code. The soft clock contributes its three sections, so that anything
  may happen while a callout's function runs. The side conditions are the callers' duties, the
  length limit, and that the clock finds the worklist and the cache less than \<open>2 ^ 30\<close> ticks old.
\<close>

inductive co_reach :: "platform \<Rightarrow> callouts \<Rightarrow> bool" for P where
  boot: "(\<And>c. \<not> co_flag CALLOUT_PENDING (co_tab s c)) \<Longrightarrow> (\<And>k. co_cpu s k = callout_cpu_init) \<Longrightarrow>
    callout_next_gen s = 1 \<Longrightarrow> co_reach P s"
| init: "co_reach P s \<Longrightarrow> \<not> co_flag CALLOUT_PENDING (co_tab s c) \<Longrightarrow> flags AND 0xff = 0 \<Longrightarrow>
    co_reach P (callout_init cur has_cc c flags s)"
| init_cpu: "co_reach P s \<Longrightarrow> placed (co_cpu s k) = {} \<Longrightarrow> co_reach P (callout_init_cpu k first s)"
| destroy: "co_reach P s \<Longrightarrow> callout_destroy me c s = Some s' \<Longrightarrow> co_reach P s'"
| setfunc: "co_reach P s \<Longrightarrow> co_reach P (callout_setfunc c f a s)"
| schedule: "co_reach P s \<Longrightarrow> ticks_fit P to_ticks (co_lp s) \<Longrightarrow>
    co_reach P (callout_schedule P cur g te c to_ticks s)"
| reset: "co_reach P s \<Longrightarrow> ticks_fit P to_ticks (co_lp s) \<Longrightarrow>
    co_reach P (callout_reset P cur g te c to_ticks f a s)"
| stop: "co_reach P s \<Longrightarrow> co_reach P (snd (callout_stop c s))"
| wait: "co_reach P s \<Longrightarrow> co_reach P (upd_cc k (\<lambda>cc. cc \<lparr> cc_nwait := cc_nwait cc + 1, cc_ev_block := cc_ev_block cc + 1 \<rparr>) s)"
| ack: "co_reach P s \<Longrightarrow> co_reach P (callout_ack c s)"
| setdeferrable: "co_reach P s \<Longrightarrow> co_reach P (callout_setdeferrable c on s)"
| hardclock: "co_reach P s \<Longrightarrow> cc_recent (callout_next_gen s) (co_tab s) (co_cpu s cur) \<Longrightarrow>
    co_reach P (snd (callout_hardclock cur s))"
| next_ticks: "co_reach P s \<Longrightarrow> co_reach P (snd (callout_next_ticks cur s))"
| deferrable: "co_reach P s \<Longrightarrow> sysctl_kern_callout_deferrable lk newp s = (e, s') \<Longrightarrow>
    (\<And>k. callout_next_gen s' = callout_next_gen s \<or> cc_next_gen (co_cpu s k) \<noteq> callout_next_gen s') \<Longrightarrow> co_reach P s'"
| requeue: "co_reach P s \<Longrightarrow> cc_todo (co_cpu s cur) = c # cs \<Longrightarrow> 0 < due_in (co_tab s) (co_cpu s cur) c \<Longrightarrow>
    co_reach P (softclock_requeue cur c (upd_cc cur (cc_remove c) s))"
| fire: "co_reach P s \<Longrightarrow> cc_todo (co_cpu s cur) = c # cs \<Longrightarrow> due_in (co_tab s) (co_cpu s cur) c \<le> 0 \<Longrightarrow>
    co_reach P (softclock_fire cur c (upd_cc cur (cc_remove c) s))"
| lwp: "co_reach P s \<Longrightarrow> co_reach P (upd_cc k (\<lambda>cc. cc \<lparr> cc_lwp := l \<rparr>) s)"
| finish: "co_reach P s \<Longrightarrow> co_reach P (softclock_done cur s)"

lemma cpu_init_ok: "(\<And>c. \<not> co_flag CALLOUT_PENDING (tab c)) \<Longrightarrow> gen \<noteq> 0 \<Longrightarrow> cpu_ok gen d tab k callout_cpu_init"
  by (simp add: cpu_ok_def queues_wf_def wheel_ok_def next_ok_def placed_def callout_cpu_init_def)

lemma init_cpu_inv:
  assumes inv: "co_inv s" and p: "placed (co_cpu s k) = {}"
  shows "co_inv (callout_init_cpu k first s)"
proof -
  have "c \<notin> placed (co_cpu s k)" for c using p by simp
  then have "\<not> (co_flag CALLOUT_PENDING (co_tab s c) \<and> c_cpu (co_tab s c) = k)" for c
    using cpu_okD(4) [OF co_invD [OF inv, of k]] by blast
  moreover have "callout_next_gen s \<noteq> 0" using inv by (simp add: co_inv_def)
  ultimately have "cpu_ok (callout_next_gen s) (callout_deferrable_enabled s) (co_tab s) k callout_cpu_init"
    by (simp add: cpu_ok_def queues_wf_def wheel_ok_def next_ok_def placed_def callout_cpu_init_def)
  then show ?thesis using inv unfolding callout_init_cpu_def by (simp add: co_inv_cc_upd)
qed

lemma destroy_inv: "co_inv s \<Longrightarrow> callout_destroy me c s = Some s' \<Longrightarrow> co_inv s'"
  by (erule co_inv_touch [where c = c and v = "(co_tab s c) \<lparr> c_magic := 0 \<rparr>"])
    (auto simp: callout_destroy_def co_flag_def split: if_splits)

lemma hardclock_inv:
  "co_inv s \<Longrightarrow> cc_recent (callout_next_gen s) (co_tab s) (co_cpu s cur) \<Longrightarrow> co_inv (snd (callout_hardclock cur s))"
  by (simp add: callout_hardclock_def Let_def co_inv_cc_upd hardclock_ok co_invD)

lemma reach_inv: "co_reach P s \<Longrightarrow> co_inv s"
proof (induction rule: co_reach.induct)
  case (boot s)
  then show ?case by (simp add: co_inv_def cpu_init_ok)
next
  case (next_ticks s cur)
  then show ?case using next_ticks_all(1) [OF next_ticks.IH, of cur] by (cases "callout_next_ticks cur s") simp
next
  case (fire s cur c cs)
  then show ?case by (intro fire_inv placedI(1)) simp_all
next
  case (wait s k)
  then show ?case by (intro co_inv_cc_cong) simp_all
next
  case (destroy s me c s')
  show ?case by (rule destroy_inv [OF destroy.IH destroy.hyps(2)])
next
  case (deferrable s lk newp e s')
  show ?case by (rule sysctl_inv [OF deferrable.IH deferrable.hyps(2,3)])
next
  case (lwp s k l)
  then show ?case by (intro co_inv_cc_cong) simp_all
qed (simp_all add: init_inv init_cpu_inv setfunc_inv callout_setfunc_def callout_schedule_def schedule_inv reset_inv callout_stop_def cancel_inv
    ack_inv setdeferrable_inv hardclock_inv requeue_inv done_inv)

section \<open>Halting\<close>

lemma callout_wait_post:
  assumes "callout_wait env me c il rl s = Some r"
  shows "\<not> co_flag CALLOUT_PENDING (co_tab s c) \<longrightarrow>
    \<not> co_flag CALLOUT_PENDING (co_tab (snd r) c) \<and> \<not> callout_running_somewhere_else me c (snd r)"
  using assms
proof (induction rule: callout_wait.raw_induct [rotated 1, consumes 1, case_names step])
  case (step cw env me c il rl s r)
  show ?case
  proof (cases "callout_running_somewhere_else me c s")
    case False
    then show ?thesis using step.hyps by auto
  next
    case True
    then show ?thesis using step.hyps step.IH by (auto split: if_splits)
  qed
qed

text \<open>The wait ends once the function has returned wherever it ran, which the environment brings about.\<close>

lemma callout_wait_returns:
  assumes "\<And>t. \<not> callout_running_somewhere_else me c (callout_cancel c (env t))"
  shows "\<exists>r. callout_wait env me c il rl s = Some r"
proof -
  have "\<exists>r. callout_wait env me c il' rl' (callout_cancel c (env t)) = Some r" for il' rl' t
    using assms by (subst callout_wait.simps) simp
  then show ?thesis by (subst callout_wait.simps) simp
qed

lemma halt_returns:
  "(\<And>t. \<not> callout_running_somewhere_else me c (callout_cancel c (env t))) \<Longrightarrow> \<exists>r. callout_halt env me c il s = Some r"
  using callout_wait_returns [of me c env il False "callout_cancel c s"] by (auto simp: callout_halt_def Let_def)

lemma halt_post:
  assumes "callout_halt env me c il s = Some (slept, s')"
  shows "\<not> callout_pending c s' \<and> \<not> callout_running_somewhere_else me c s' \<and> (\<not> slept \<longrightarrow> s' = callout_cancel c s)"
proof (cases "callout_running_somewhere_else me c (callout_cancel c s)")
  case True
  then obtain r where "callout_wait env me c il False (callout_cancel c s) = Some r" "slept" "snd r = s'"
    using assms by (auto simp: callout_halt_def)
  then show ?thesis using callout_wait_post [of env me c il False "callout_cancel c s" r] by (simp add: callout_pending_def)
next
  case False
  then show ?thesis using assms cancel_not_pending [of c s] by (auto simp: callout_halt_def callout_pending_def)
qed

section \<open>What the facility promises\<close>

lemma wheel_in_future:
  assumes "co_inv s" "co_flag CALLOUT_PENDING (co_tab s c)" "c_cpu (co_tab s c) = k" "due_in (co_tab s) (co_cpu s k) c \<le> 0"
  shows "c \<in> set (cc_todo (co_cpu s k))"
proof (rule ccontr)
  note D = cpu_okD [OF co_invD [OF assms(1), of k]]
  assume "c \<notin> set (cc_todo (co_cpu s k))"
  then obtain b where "c \<in> set (cc_wheel (co_cpu s k) b)" using D(4) [of c] assms(2,3) by (auto simp: placed_def)
  then have "1 \<le> due_in (co_tab s) (co_cpu s k) c"
    using D(2) order_trans [OF drain_dist_pos] unfolding wheel_ok_def by blast
  then show False using assms(4) by simp
qed

lemma hardclock_tab: "callout_hardclock cur s = (soft, s') \<Longrightarrow> soft \<longleftrightarrow> cc_todo (co_cpu s' cur) \<noteq> []"
  by (auto simp: callout_hardclock_def Let_def)

definition co_boot :: callouts where
  "co_boot = \<lparr> co_tab = \<lambda>_. \<lparr> c_func = None, c_arg = 0, c_cpu = 0, c_time = 0, c_flags = 0, c_magic = 0 \<rparr>,
    co_cpu = \<lambda>_. callout_cpu_init, callout_deferrable_enabled = True, callout_next_gen = 1, co_lp = lpsched_boot \<rparr>"

lemma co_boot_reach: "co_reach P co_boot"
  by (rule co_reach.boot) (simp_all add: co_boot_def co_flag_def)

text \<open>C1: every operation of the callout facility keeps its invariant. In every state the kernel
  can reach from boot, the pending callouts of a CPU are exactly those on its worklist and in its
  wheel, each once; a callout in the wheel is in a bucket that the clock will drain no later than
  the callout's deadline; and the cached next deadline, when valid, is not after the deadline of
  any callout that the idle CPU must honour.\<close>

theorem callout_invariant:
  assumes "co_reach P s"
  shows "(c \<in> placed (co_cpu s k) \<longleftrightarrow> callout_pending c s \<and> c_cpu (co_tab s c) = k) \<and> queues_wf (co_cpu s k) \<and>
    (c \<in> set (cc_wheel (co_cpu s k) b) \<longrightarrow> drain_dist b (cc_ticks (co_cpu s k)) \<le> due_in (co_tab s) (co_cpu s k) c) \<and>
    next_ok (callout_next_gen s) (callout_deferrable_enabled s) (co_tab s) (co_cpu s k)"
  using cpu_okD [OF co_invD [OF reach_inv [OF assms], of k]] unfolding wheel_ok_def callout_pending_def by blast

lemma callout_invariant_witness:
  "3 \<in> placed (co_cpu (callout_schedule sample_platform 2 0 True 3 70 co_boot) 2)"
proof -
  let ?s = "callout_schedule sample_platform 2 0 True 3 70 co_boot"
  have "co_reach sample_platform ?s"
    by (rule co_reach.schedule [OF co_boot_reach]) (simp add: ticks_fit_def sample_platform_def co_boot_def lpsched_boot_def)
  moreover have "callout_pending 3 ?s" "c_cpu (co_tab ?s 3) = 2"
    by (simp_all add: callout_pending_def callout_schedule_def schedule_locked_eq)
      (simp add: schedule_cpu_def co_boot_def co_flag_def)
  ultimately show ?thesis using callout_invariant by blast
qed

text \<open>C5: scheduling makes the callout pending with a deadline that is never earlier than asked
  for, and later only by the coalescing: by less than one grid length, only for a callout that
  asked for slack and is not marked precise, only if it is at least two grid lengths long, and
  then the global tick of its deadline is a multiple of the grid.\<close>

theorem callout_schedule_deadline:
  assumes "co_inv s" "ticks_fit P to_ticks (co_lp s)"
    and "s' = callout_schedule P cur g te c to_ticks s" "k = c_cpu (co_tab s' c)" "grid = mstohz P (lpsched_coalesce_ms (co_lp s))"
  shows "co_inv s' \<and> callout_pending c s' \<and> (callout_pending c s \<longrightarrow> k = c_cpu (co_tab s c)) \<and>
    (due_in (co_tab s') (co_cpu s' k) c = to_ticks \<or>
     (\<exists>delay. due_in (co_tab s') (co_cpu s' k) c = to_ticks + delay \<and> 0 < delay \<and> delay < grid \<and> 2 * grid \<le> to_ticks \<and>
       co_flag CALLOUT_SLACK (co_tab s c) \<and> \<not> co_flag CALLOUT_PRECISE (co_tab s c) \<and>
       (uint (g + word_of_int to_ticks) + delay) mod grid = 0))"
proof -
  let ?k = "schedule_cpu cur te c s"
  note E = schedule_locked_eq [of P cur g te c to_ticks s, folded callout_schedule_def, folded assms(3)]
  let ?w = "(co_tab s c) \<lparr> c_flags := c_flags (co_tab s c) AND NOT (CALLOUT_FIRED OR CALLOUT_INVOKING), c_cpu := ?k \<rparr>"
  have k: "k = ?k" unfolding assms(4) E by simp
  have t: "c_time (co_tab s' c) = fst (lpsched_coalesce P cur g ?w to_ticks (cc_ticks (co_cpu s ?k)) (co_lp s))"
    unfolding E scheduled_def Let_def by simp
  have n: "cc_ticks (co_cpu s' k) = cc_ticks (co_cpu s ?k)" unfolding k E by simp
  obtain d where d: "c_time (co_tab s' c) = cc_ticks (co_cpu s ?k) + word_of_int (to_ticks + d)" "0 \<le> d" "to_ticks + d \<le> CALLOUT_NO_NEXT"
    "coalesce_delay P g ?w to_ticks (co_lp s) d"
    unfolding t using lpsched_coalesce_delay [OF assms(2)] .
  have "0 \<le> to_ticks" using assms(2) by (simp add: ticks_fit_def)
  then have due: "due_in (co_tab s') (co_cpu s' k) c = to_ticks + d"
    unfolding due_in_def n d(1) using d(2,3) sint_small [of "to_ticks + d"] by simp
  have f: "co_flag CALLOUT_SLACK ?w = co_flag CALLOUT_SLACK (co_tab s c)" "co_flag CALLOUT_PRECISE ?w = co_flag CALLOUT_PRECISE (co_tab s c)"
    by (simp_all add: flag_bits bit_simps)
  have inv: "co_inv s'" unfolding assms(3) callout_schedule_def by (rule schedule_inv [OF assms(1,2)])
  have p: "callout_pending c s'" unfolding callout_pending_def E by simp
  have s: "callout_pending c s \<Longrightarrow> k = c_cpu (co_tab s c)" unfolding k by (simp add: schedule_cpu_def callout_pending_def)
  show ?thesis unfolding due using inv p s d(4) f unfolding coalesce_delay_def Let_def assms(5) by auto
qed

lemma callout_schedule_deadline_witness:
  "let s' = callout_schedule sample_platform 2 0 True 3 70 co_boot in callout_pending 3 s' \<and> due_in (co_tab s') (co_cpu s' 2) 3 = 70"
proof -
  let ?s = "callout_schedule sample_platform 2 0 True 3 70 co_boot"
  have fit: "ticks_fit sample_platform 70 (co_lp co_boot)" and inv: "co_inv co_boot"
    using reach_inv [OF co_boot_reach] by (simp_all add: ticks_fit_def sample_platform_def co_boot_def lpsched_boot_def)
  have k: "c_cpu (co_tab ?s 3) = 2"
    by (simp add: callout_schedule_def schedule_locked_eq schedule_cpu_def co_boot_def co_flag_def)
  have "\<not> co_flag CALLOUT_SLACK (co_tab co_boot 3)" by (simp add: co_boot_def co_flag_def)
  then show ?thesis using callout_schedule_deadline [OF inv fit refl k [symmetric] refl] unfolding Let_def by blast
qed

text \<open>C2: the clock interrupt is timely. After it, every callout of this CPU whose deadline has
  come is on the worklist, not in the wheel, and the soft interrupt has been asked for.\<close>

theorem callout_hardclock_timely:
  assumes "co_reach P s" "cc_recent (callout_next_gen s) (co_tab s) (co_cpu s cur)" "callout_hardclock cur s = (soft, s')"
    and "callout_pending c s'" "c_cpu (co_tab s' c) = cur" "due_in (co_tab s') (co_cpu s' cur) c \<le> 0"
  shows "soft \<and> c \<in> set (cc_todo (co_cpu s' cur))"
proof -
  have "co_inv s'" using hardclock_inv [OF reach_inv [OF assms(1)] assms(2)] assms(3) by simp
  then have "c \<in> set (cc_todo (co_cpu s' cur))"
    using assms(4-6) unfolding callout_pending_def by (rule wheel_in_future)
  then show ?thesis using hardclock_tab [OF assms(3)] by auto
qed

lemma callout_hardclock_timely_witness:
  "let s = callout_schedule sample_platform 2 0 True 3 1 co_boot; s = softclock_requeue 2 3 (upd_cc 2 (cc_remove 3) s);
       (soft, s') = callout_hardclock 2 s
   in cc_todo (co_cpu s 2) = [] \<and> soft \<and> cc_todo (co_cpu s' 2) = [3]"
proof -
  let ?s = "callout_schedule sample_platform 2 0 True 3 1 co_boot"
  let ?v = "scheduled sample_platform 2 0 2 3 1 co_boot"
  let ?q = "softclock_requeue 2 3 (upd_cc 2 (cc_remove 3) ?s)"
  have fit: "ticks_fit sample_platform 1 (co_lp co_boot)" by (simp add: ticks_fit_def sample_platform_def co_boot_def lpsched_boot_def)
  have r: "co_reach sample_platform ?s" by (rule co_reach.schedule [OF co_boot_reach fit])
  have t: "co_tab ?s 3 = ?v" "cc_ticks (co_cpu ?s 2) = 0" "cc_next_gen (co_cpu ?s 2) = 0" "cc_todo (co_cpu ?s 2) = [3]" "callout_next_gen ?s = 1"
    "cc_wheel (co_cpu ?s 2) = (\<lambda>_. [])"
    by (simp_all add: callout_schedule_def schedule_locked_eq schedule_cpu_def co_boot_def co_flag_def callout_cpu_init_def todo_insert_def)
  have v: "c_time ?v = 1" by (simp add: scheduled_def Let_def co_boot_def lpsched_coalesce_def lpsched_boot_def callout_cpu_init_def)
  have q: "co_reach sample_platform ?q" by (rule co_reach.requeue [OF r t(4)]) (simp add: due_in_def t v)
  have u: "co_tab ?q 3 = ?v" "cc_ticks (co_cpu ?q 2) = 0" "cc_todo (co_cpu ?q 2) = []" "cc_wheel (co_cpu ?q 2) 1 = [3]" "cc_next_gen (co_cpu ?q 2) = 0" "callout_next_gen ?q = 1"
    by (simp_all add: softclock_requeue_def Let_def t v wheel_insert_def cc_remove_def callout_next_note_def BUCKET_def MASKWHEEL_def upd_cc_def)
  have "cc_recent (callout_next_gen ?q) (co_tab ?q) (co_cpu ?q 2)" by (simp add: cc_recent_def u)
  note T = callout_hardclock_timely [OF q this surjective_pairing, of 3]
  have h: "co_tab (snd (callout_hardclock 2 ?q)) 3 = ?v" "cc_ticks (co_cpu (snd (callout_hardclock 2 ?q)) 2) = 1"
    "cc_todo (co_cpu (snd (callout_hardclock 2 ?q)) 2) = [3]"
    by (simp_all add: callout_hardclock_def hardclock_cc_def MOVEBUCKET_def MASKWHEEL_def Let_def u u(4) [unfolded One_nat_def])
  have "co_flag CALLOUT_PENDING ?v" "c_cpu ?v = 2" by (simp_all add: scheduled_def Let_def co_boot_def co_flag_def)
  then have "callout_pending 3 (snd (callout_hardclock 2 ?q))" "c_cpu ?v = 2" by (simp_all only: callout_pending_def h)
  then have "fst (callout_hardclock 2 ?q) \<and> 3 \<in> set (cc_todo (co_cpu (snd (callout_hardclock 2 ?q)) 2))" using T by (simp add: h due_in_def v)
  then show ?thesis using u(3) h(3) by (simp add: Let_def case_prod_beta)
qed

text \<open>C3: the soft clock always returns, whatever the callouts' functions do, as long as they
  keep the invariant and add no callout to this CPU's worklist that is already due. It leaves the
  worklist empty, so every callout still pending on this CPU has its deadline in the future.\<close>

theorem callout_softclock_drains:
  assumes "\<And>s f a. co_inv s \<Longrightarrow> co_inv (run f a s)"
    and "\<And>s f a. co_inv s \<Longrightarrow> due_count cur (run f a s) \<le> due_count cur s" and "co_inv s"
  shows "\<exists>s'. callout_softclock run me cur s = Some s' \<and> co_inv s' \<and> cc_todo (co_cpu s' cur) = [] \<and>
    (\<forall>c. callout_pending c s' \<and> c_cpu (co_tab s' c) = cur \<longrightarrow> 0 < due_in (co_tab s') (co_cpu s' cur) c)"
proof -
  have env: "callout_env run cur" using assms(1,2) by unfold_locales
  have i: "co_inv (upd_cc cur (\<lambda>cc. cc \<lparr> cc_lwp := l \<rparr>) t)" if "co_inv t" for t l
    using that by (intro co_inv_cc_cong) simp_all
  obtain t where t: "softclock_loop run cur (upd_cc cur (\<lambda>cc. cc \<lparr> cc_lwp := Some me \<rparr>) s) = Some t" "co_inv t" "cc_todo (co_cpu t cur) = []"
    using callout_env.softclock_total [OF env i [OF assms(3)]] by blast
  let ?s' = "upd_cc cur (\<lambda>cc. cc \<lparr> cc_lwp := None \<rparr>) t"
  have inv: "co_inv ?s'" by (rule i [OF t(2)])
  have todo: "cc_todo (co_cpu ?s' cur) = []" using t(3) by simp
  have "0 < due_in (co_tab ?s') (co_cpu ?s' cur) c" if "callout_pending c ?s' \<and> c_cpu (co_tab ?s' c) = cur" for c
    using wheel_in_future [OF inv, of c cur] that todo unfolding callout_pending_def by (auto simp: not_less [symmetric])
  then show ?thesis using inv todo t(1) unfolding callout_softclock_def by auto
qed

lemma callout_softclock_drains_witness:
  "\<exists>s'. callout_softclock (rearm sample_platform 2 0 5) 9 2 (callout_schedule sample_platform 2 0 True 3 0 co_boot) = Some s' \<and>
    cc_todo (co_cpu s' 2) = []"
proof -
  have "co_inv (callout_schedule sample_platform 2 0 True 3 0 co_boot)"
    by (rule reach_inv [of sample_platform], rule co_reach.schedule [OF co_boot_reach]) (simp add: ticks_fit_def sample_platform_def co_boot_def lpsched_boot_def)
  then show ?thesis
    using callout_softclock_drains [of "rearm sample_platform 2 0 5" 2, OF rearming.run_inv rearming.run_due] by blast
qed

text \<open>C4: the number of ticks a CPU may skip is safe and useful. It is between 0 and the largest
  skip; while the worklist is not empty it is 0; it never exceeds the time to the deadline of a
  pending callout that the idle CPU must honour; and when the cached deadline is not valid it is
  the time to the earliest such deadline, or the largest skip when there is none.\<close>

theorem callout_next_ticks_safe:
  assumes "co_reach P s" "callout_next_ticks cur s = (n, s')"
  shows "0 \<le> n \<and> n \<le> CALLOUT_NO_NEXT \<and> (cc_todo (co_cpu s cur) \<noteq> [] \<longrightarrow> n = 0) \<and>
    (\<forall>c. callout_pending c s \<and> c_cpu (co_tab s c) = cur \<and> callout_next_honoured (callout_deferrable_enabled s) (co_tab s c) \<longrightarrow>
      n \<le> max 0 (due_in (co_tab s) (co_cpu s cur) c)) \<and>
    (cc_todo (co_cpu s cur) = [] \<and> cc_next_gen (co_cpu s cur) \<noteq> callout_next_gen s \<and> n \<noteq> CALLOUT_NO_NEXT \<longrightarrow>
      (\<exists>c. callout_pending c s \<and> c_cpu (co_tab s c) = cur \<and> callout_next_honoured (callout_deferrable_enabled s) (co_tab s c) \<and>
        n = due_in (co_tab s) (co_cpu s cur) c))"
proof -
  note inv = reach_inv [OF assms(1)]
  note N = next_ticks_all [OF inv assms(2)]
  have "n \<le> max 0 (due_in (co_tab s) (co_cpu s cur) c)"
    if c: "callout_pending c s" "c_cpu (co_tab s c) = cur" "callout_next_honoured (callout_deferrable_enabled s) (co_tab s c)" for c
  proof -
    have "c \<in> placed (co_cpu s cur)" using cpu_okD(4) [OF co_invD [OF inv, of cur], of c] c(1,2) by (simp add: callout_pending_def)
    then consider "c \<in> set (cc_todo (co_cpu s cur))" | b where "c \<in> set (cc_wheel (co_cpu s cur) b)" by (auto simp: placed_def)
    then show ?thesis using N(4) N(5) [OF _ c(3)] by cases fastforce+
  qed
  moreover have "\<exists>c. callout_pending c s \<and> c_cpu (co_tab s c) = cur \<and> callout_next_honoured (callout_deferrable_enabled s) (co_tab s c) \<and>
        n = due_in (co_tab s) (co_cpu s cur) c"
    if z: "cc_todo (co_cpu s cur) = []" "cc_next_gen (co_cpu s cur) \<noteq> callout_next_gen s" "n \<noteq> CALLOUT_NO_NEXT"
    using next_ticks_exact [OF inv assms(2) z] by (auto simp: callout_pending_def)
  ultimately show ?thesis using N(2-4) by blast
qed

lemma callout_next_ticks_safe_witness: "fst (callout_next_ticks 2 (callout_schedule sample_platform 2 0 True 3 70 co_boot)) = 0"
proof -
  let ?s = "callout_schedule sample_platform 2 0 True 3 70 co_boot"
  have "co_reach sample_platform ?s"
    by (rule co_reach.schedule [OF co_boot_reach]) (simp add: ticks_fit_def sample_platform_def co_boot_def lpsched_boot_def)
  moreover have "cc_todo (co_cpu ?s 2) \<noteq> []"
    by (simp add: callout_schedule_def schedule_locked_eq schedule_cpu_def co_boot_def co_flag_def todo_insert_def)
  ultimately show ?thesis using callout_next_ticks_safe [OF _ surjective_pairing] by blast
qed

text \<open>C6: halting a callout is synchronous. When it returns, the callout is neither pending nor
  running on behalf of another thread, and if it did not sleep, nothing else has changed than that
  the callout was cancelled. It returns if the function is over whenever it wakes up.\<close>

theorem callout_halt_synchronous:
  "(callout_halt env me c interlock s = Some (slept, s') \<longrightarrow>
     \<not> callout_pending c s' \<and> \<not> callout_running_somewhere_else me c s' \<and> (\<not> slept \<longrightarrow> s' = snd (callout_stop c s))) \<and>
   ((\<forall>t. \<not> callout_running_somewhere_else me c (snd (callout_stop c (env t)))) \<longrightarrow>
     (\<exists>r. callout_halt env me c interlock s = Some r))"
  using halt_post [of env me c interlock s slept s'] halt_returns [of me c env interlock s] by (simp add: callout_stop_def)

lemma callout_halt_synchronous_witness:
  "\<exists>r. callout_halt (\<lambda>s. softclock_done (c_cpu (co_tab s 3)) s) 9 3 True
     (upd_cc 0 (\<lambda>cc. cc \<lparr> cc_active := Some 3, cc_lwp := Some 8 \<rparr>) co_boot) = Some r"
proof -
  let ?env = "\<lambda>s. softclock_done (c_cpu (co_tab s 3)) s"
  have "\<forall>t. \<not> callout_running_somewhere_else 9 3 (snd (callout_stop 3 (?env t)))"
    by (simp add: callout_stop_def callout_cancel_def callout_running_somewhere_else_def softclock_done_def cc_remove_def Let_def)
  then show ?thesis using callout_halt_synchronous [where env = ?env and me = 9 and c = 3] by blast
qed

end
