(* ===== verification/Timecounter.thy ===== *)
theory Timecounter
  imports Prelude "HOL-Library.Signed_Division"
begin

text \<open>
  Timekeeping, \<^verbatim>\<open>kernel/kern/kern_tc.c\<close>: reading the uptime and the time of day from the active
  time hands, winding the hands up, choosing, adding and removing counters, setting the clock,
  and the bound on a tickless sleep of the primary CPU.

  Counters are numbers; \<open>rd\<close> gives the reading of every counter at the time of a call. The ten
  time hands are an array with a current index. The bintime arithmetic of \<^verbatim>\<open>sys/time.h\<close> is the
  parameter \<open>timelib\<close> with its documented meaning \<open>timelib_doc\<close>; \<^verbatim>\<open>ntp_update_second\<close> is the
  parameter \<open>ntp\<close>, a function on its own state, the frequency adjustment and the second. A
  reader that would spin, because the generation it sees is 0, has the result \<open>None\<close>.
\<close>

section \<open>Time values\<close>

type_synonym s64 = "64 word"

record bintime =
  bt_sec :: s64
  bt_frac :: u64

record timeval =
  tv_sec :: s64
  tv_usec :: int

record timespec =
  ts_sec :: s64
  ts_nsec :: int

record timelib =
  bintime_addx :: "u64 \<Rightarrow> bintime \<Rightarrow> bintime"
  bintime_add :: "bintime \<Rightarrow> bintime \<Rightarrow> bintime"
  bintime_sub :: "bintime \<Rightarrow> bintime \<Rightarrow> bintime"
  bintime2timeval :: "bintime \<Rightarrow> timeval"
  bintime2timespec :: "bintime \<Rightarrow> timespec"
  timespec2bintime :: "timespec \<Rightarrow> bintime"

text \<open>A bintime is a 128-bit number of \<open>2 ^ -64\<close> second units.\<close>

definition bt_val :: "bintime \<Rightarrow> int" where
  "bt_val b = uint (bt_sec b) * 2 ^ 64 + uint (bt_frac b)"

definition timelib_doc :: "timelib \<Rightarrow> bool" where
  "timelib_doc T \<longleftrightarrow> (\<forall>x b. bt_val (bintime_addx T x b) = (bt_val b + uint x) mod 2 ^ 128) \<and>
    (\<forall>a b. bt_val (bintime_add T a b) = (bt_val a + bt_val b) mod 2 ^ 128) \<and>
    (\<forall>a b. bt_val (bintime_sub T a b) = (bt_val a - bt_val b) mod 2 ^ 128) \<and>
    (\<forall>b. tv_sec (bintime2timeval T b) = bt_sec b)"

section \<open>State\<close>

record timecounter =
  tc_counter_mask :: u32
  tc_frequency :: u64
  tc_quality :: int

record timehands =
  th_counter :: nat
  th_adjustment :: s64
  th_scale :: u64
  th_offset_count :: u64
  th_offset :: bintime
  th_microtime :: timeval
  th_nanotime :: timespec
  th_generation :: u32

record 'n timekeeping =
  tc_tab :: "nat \<Rightarrow> timecounter"
  tk_hands :: "nat \<Rightarrow> timehands"
  tk_cur :: nat
  tk_counter :: nat
  tk_counters :: "nat list"
  timebase_bin :: bintime
  timebase_gen :: u32
  time__second :: s64
  time__uptime :: s64
  timecounter_mods :: u32
  timecounter_bad :: u32
  tk_count :: int
  tk_ntp :: 'n

abbreviation (input) LARGE_STEP :: int where "LARGE_STEP \<equiv> 200"

definition th_next :: "nat \<Rightarrow> nat" where "th_next k = (if k = 9 then 0 else k + 1)"

abbreviation hands :: "'n timekeeping \<Rightarrow> timehands" where "hands s \<equiv> tk_hands s (tk_cur s)"

section \<open>Reading the time\<close>

definition tc_bintime_addscaled :: "timelib \<Rightarrow> u64 \<Rightarrow> u32 \<Rightarrow> bintime \<Rightarrow> bintime" where
  "tc_bintime_addscaled T scale delta bt =
    (let x = drop_bit 32 scale * ucast delta;
         bt = bt \<lparr> bt_sec := bt_sec bt + drop_bit 32 x \<rparr>;
         bt = bintime_addx T (push_bit 32 x) bt
     in bintime_addx T ((scale AND 0xffffffff) * ucast delta) bt)"

definition tc_delta :: "(nat \<Rightarrow> timecounter) \<Rightarrow> (nat \<Rightarrow> u32) \<Rightarrow> timehands \<Rightarrow> u32" where
  "tc_delta tab rd th =
    ucast ((ucast (rd (th_counter th)) - th_offset_count th) AND (ucast (tc_counter_mask (tab (th_counter th))) :: u64))"

definition binuptime :: "timelib \<Rightarrow> (nat \<Rightarrow> u32) \<Rightarrow> 'n timekeeping \<Rightarrow> bintime option" where
  "binuptime T rd s =
    (let th = hands s
     in if th_generation th = 0 then None
        else Some (tc_bintime_addscaled T (th_scale th) (tc_delta (tc_tab s) rd th) (th_offset th)))"

definition bintime_read :: "timelib \<Rightarrow> (nat \<Rightarrow> u32) \<Rightarrow> 'n timekeeping \<Rightarrow> bintime option" where
  "bintime_read T rd s = map_option (\<lambda>bt. bintime_add T bt (timebase_bin s)) (binuptime T rd s)"

section \<open>The tickless bound\<close>

definition tc_half_wrap_ticks :: "platform \<Rightarrow> timecounter \<Rightarrow> u64" where
  "tc_half_wrap_ticks P tc =
    (if tc_frequency tc = 0 then - 1 else (ucast (tc_counter_mask tc) * word_of_int (hz P)) div tc_frequency tc div 2)"

definition tc_max_windup_ticks :: "platform \<Rightarrow> 'n timekeeping \<Rightarrow> int" where
  "tc_max_windup_ticks P s =
    (let a = tc_half_wrap_ticks P (tc_tab s (th_counter (hands s)));
         b = tc_half_wrap_ticks P (tc_tab s (tk_counter s));
         a = (if b < a then b else a)
     in if uint a > INT_MAX then INT_MAX else uint a)"

section \<open>Winding up\<close>

type_synonym 'n ntp = "'n \<Rightarrow> s64 \<Rightarrow> s64 \<Rightarrow> 'n \<times> s64 \<times> s64"

definition ntp_crossed :: "'n ntp \<Rightarrow> s64 \<Rightarrow> nat \<Rightarrow> 'n \<times> s64 \<times> s64 \<Rightarrow> 'n \<times> s64 \<times> s64" where
  "ntp_crossed ntp first i =
    fold (\<lambda>t (n, adjustment, adj).
        let seen = first + of_nat t + adj;
            (n, adjustment, sec) = ntp n adjustment seen
        in (n, adjustment, if sec \<noteq> seen then adj + (sec - seen) else adj)) [1..<i + 1]"

text \<open>A step of the time base, under its generation number: odd while it changes, even again after.\<close>

definition timebase_step :: "s64 \<Rightarrow> bintime \<times> u32 \<Rightarrow> bintime \<times> u32" where
  "timebase_step d base = (case base of (b, gen) \<Rightarrow> (b \<lparr> bt_sec := bt_sec b + d \<rparr>, (gen OR 1) + 1))"

definition ntp_twice :: "'n ntp \<Rightarrow> 'n \<times> s64 \<times> s64 \<times> bintime \<times> u32 \<Rightarrow> 'n \<times> s64 \<times> s64 \<times> bintime \<times> u32" where
  "ntp_twice ntp =
    fold (\<lambda>_ (n, adjustment, t, base).
        let (n, adjustment, sec) = ntp n adjustment t
        in (n, adjustment, sec, if sec \<noteq> t then timebase_step (sec - t) base else base)) [(), ()]"

text \<open>The seconds processing: the new NTP state, the UTC time, the time base, and whether to rescale.\<close>

definition windup_seconds ::
    "'n ntp \<Rightarrow> s64 \<Rightarrow> 'n \<times> s64 \<Rightarrow> bintime \<Rightarrow> bintime \<times> u32 \<Rightarrow> ('n \<times> s64) \<times> bintime \<times> (bintime \<times> u32) \<times> bool" where
  "windup_seconds ntp first na bt base =
    (let i = sint (ucast (bt_sec bt - first) :: 32 word)
     in if i > LARGE_STEP then
          let (n, adjustment, sec, base) = ntp_twice ntp (fst na, snd na, bt_sec bt, base)
          in ((n, adjustment), bt \<lparr> bt_sec := sec \<rparr>, base, True)
        else if i > 0 then
          let (n, adjustment, adj) = ntp_crossed ntp first (nat i) (fst na, snd na, 0)
          in if adj \<noteq> 0
             then ((n, adjustment), bt \<lparr> bt_sec := bt_sec bt + adj \<rparr>, timebase_step adj base, True)
             else ((n, adjustment), bt, base, True)
        else (na, bt, base, False))"

text \<open>Switching to the selected counter, and the scale factor.\<close>

definition windup_switch :: "(nat \<Rightarrow> timecounter) \<Rightarrow> nat \<Rightarrow> u32 \<Rightarrow> bool \<Rightarrow> timehands \<Rightarrow> timehands" where
  "windup_switch tab sel ncount s_update th =
    (let (th, s_update) =
       (if th_counter th \<noteq> sel
        then (th \<lparr> th_counter := sel, th_offset_count := ucast ncount \<rparr>, True) else (th, s_update));
       scale = (push_bit 63 1 + word_of_int (sint (th_adjustment th) sdiv 1024 * 2199)) div tc_frequency (tab (th_counter th))
     in if s_update then th \<lparr> th_scale := scale * 2 \<rparr> else th)"

definition next_gen :: "u32 \<Rightarrow> u32" where "next_gen g = (if g + 1 = 0 then 1 else g + 1)"

definition tc_windup :: "timelib \<Rightarrow> 'n ntp \<Rightarrow> (nat \<Rightarrow> u32) \<Rightarrow> 'n timekeeping \<Rightarrow> 'n timekeeping" where
  "tc_windup T ntp rd s =
    (let tho = hands s; k = th_next (tk_cur s); ogen = th_generation (tk_hands s k);
         delta = tc_delta (tc_tab s) rd tho;
         ncount = (if th_counter tho \<noteq> tk_counter s then rd (tk_counter s) else 0);
         th = tho \<lparr> th_offset_count := th_offset_count tho + ucast delta,
                    th_offset := tc_bintime_addscaled T (th_scale tho) delta (th_offset tho) \<rparr>;
         bt = bintime_add T (th_offset th) (timebase_bin s);
         ((n, adjustment), bt, (base, gen), s_update) =
           windup_seconds ntp (tv_sec (th_microtime tho)) (tk_ntp s, th_adjustment th) bt (timebase_bin s, timebase_gen s);
         th = th \<lparr> th_adjustment := adjustment, th_microtime := bintime2timeval T bt, th_nanotime := bintime2timespec T bt \<rparr>;
         th = (windup_switch (tc_tab s) (tk_counter s) ncount s_update th) \<lparr> th_generation := next_gen ogen \<rparr>
     in s \<lparr> tk_hands := (tk_hands s)(k := th, tk_cur s := tho \<lparr> th_generation := next_gen (th_generation tho) \<rparr>),
           tk_cur := k, tk_ntp := n, timebase_bin := base, timebase_gen := gen,
           time__second := tv_sec (th_microtime th), time__uptime := bt_sec (th_offset th) \<rparr>)"

section \<open>Choosing a counter\<close>

definition tc_better :: "timecounter \<Rightarrow> timecounter \<Rightarrow> bool" where
  "tc_better tc best \<longleftrightarrow>
    (if tc_quality tc > tc_quality best then True
     else if tc_quality tc < tc_quality best then False
     else tc_frequency tc > tc_frequency best)"

definition tc_pick :: "'n timekeeping \<Rightarrow> 'n timekeeping" where
  "tc_pick s = s \<lparr> tk_counter :=
    fold (\<lambda>tc best. if tc_better (tc_tab s tc) (tc_tab s best) then tc else best) (tk_counters s) (hd (tk_counters s)) \<rparr>"

definition tc_gonebad :: "nat \<Rightarrow> 'n timekeeping \<Rightarrow> 'n timekeeping" where
  "tc_gonebad tc s = s \<lparr> tc_tab := (tc_tab s)(tc := (tc_tab s tc) \<lparr> tc_quality := -100 \<rparr>),
    timecounter_bad := timecounter_bad s + 1 \<rparr>"

definition tc_init_quality :: "platform \<Rightarrow> timecounter \<Rightarrow> timecounter" where
  "tc_init_quality P tc =
    (let u = (ucast (tc_frequency tc div ucast (tc_counter_mask tc)) :: u32) * 11 div 10
     in if u > word_of_int (hz P) \<and> tc_quality tc \<ge> 0 then tc \<lparr> tc_quality := -2000 \<rparr> else tc)"

definition tc_init :: "timelib \<Rightarrow> platform \<Rightarrow> 'n ntp \<Rightarrow> (nat \<Rightarrow> u32) \<Rightarrow> nat \<Rightarrow> 'n timekeeping \<Rightarrow> 'n timekeeping" where
  "tc_init T P ntp rd tc s =
    (let s = s \<lparr> tc_tab := (tc_tab s)(tc := tc_init_quality P (tc_tab s tc)), tk_counters := tc # tk_counters s,
                timecounter_mods := timecounter_mods s + 1 \<rparr>;
         v = tc_tab s tc; cur = tc_tab s (tk_counter s)
     in if tc_quality v \<ge> 0 \<and> (tc_quality v > tc_quality cur \<or> tc_quality v = tc_quality cur \<and> tc_frequency v > tc_frequency cur)
        then tc_windup T ntp rd (s \<lparr> tk_counter := tc \<rparr>) else s)"

text \<open>\<open>None\<close> is the error \<^verbatim>\<open>ESRCH\<close>. The wait for readers of the removed counter is not modelled.\<close>

definition tc_detach :: "timelib \<Rightarrow> 'n ntp \<Rightarrow> (nat \<Rightarrow> u32) \<Rightarrow> nat \<Rightarrow> 'n timekeeping \<Rightarrow> 'n timekeeping option" where
  "tc_detach T ntp rd target s =
    (if target \<notin> set (tk_counters s) then None
     else
       let s = s \<lparr> tk_counters := remove1 target (tk_counters s) \<rparr>;
           s = (if tk_counter s = target then tc_windup T ntp rd (tc_pick s) else s)
       in Some (s \<lparr> timecounter_mods := timecounter_mods s + 1 \<rparr>))"

definition tc_ticktock :: "timelib \<Rightarrow> 'n ntp \<Rightarrow> (nat \<Rightarrow> u32) \<Rightarrow> int \<Rightarrow> 'n timekeeping \<Rightarrow> 'n timekeeping" where
  "tc_ticktock T ntp rd tc_tick s =
    (let s = s \<lparr> tk_count := tk_count s + 1 \<rparr>
     in if tk_count s < tc_tick then s
        else
          let s = s \<lparr> tk_count := 0 \<rparr>;
              s = (if timecounter_bad s \<noteq> 0
                   then (let s = s \<lparr> timecounter_bad := 0 \<rparr>
                         in if tc_quality (tc_tab s (tk_counter s)) < 0 then tc_pick s else s)
                   else s)
          in tc_windup T ntp rd s)"

definition tc_setclock :: "timelib \<Rightarrow> 'n ntp \<Rightarrow> (nat \<Rightarrow> u32) \<Rightarrow> timespec \<Rightarrow> 'n timekeeping \<Rightarrow> 'n timekeeping option" where
  "tc_setclock T ntp rd ts s =
    (case binuptime T rd s of None \<Rightarrow> None
     | Some bt2 \<Rightarrow>
         let bt = bintime_sub T (timespec2bintime T ts) bt2;
             s = s \<lparr> timebase_bin := bt, timebase_gen := (timebase_gen s OR 1) + 1 \<rparr>
         in Some (tc_windup T ntp rd s))"

section \<open>Scaled addition\<close>

lemma digits:
  fixes a f m :: int
  assumes "0 \<le> f" "f < m"
  shows "(a * m + f) div m = a" "(a * m + f) mod m = f" "(a mod m) * m + f = (a * m + f) mod (m * m)"
proof -
  show d: "(a * m + f) div m = a" and r: "(a * m + f) mod m = f" using assms by (simp_all add: div_add1_eq)
  have "(a * m + f) mod (m * m) = m * ((a * m + f) div m mod m) + (a * m + f) mod m"
    using assms by (intro zmod_zmult2_eq) simp
  then show "(a mod m) * m + f = (a * m + f) mod (m * m)" unfolding d r by simp
qed

lemma bt_val_sec: "bt_val (b \<lparr> bt_sec := bt_sec b + y \<rparr>) = (bt_val b + uint y * 2 ^ 64) mod 2 ^ 128"
proof -
  let ?a = "uint (bt_sec b) + uint y" and ?f = "uint (bt_frac b)"
  have f: "0 \<le> ?f" "?f < 2 ^ 64" using uint_lt2p [of "bt_frac b"] by simp_all
  have "uint (bt_sec b + y) = ?a mod 2 ^ 64" by (simp add: uint_word_ariths)
  then have "bt_val (b \<lparr> bt_sec := bt_sec b + y \<rparr>) = (?a mod 2 ^ 64) * 2 ^ 64 + ?f" by (simp add: bt_val_def)
  also have "\<dots> = (?a * 2 ^ 64 + ?f) mod (2 ^ 64 * 2 ^ 64)" by (rule digits(3) [OF f])
  also have "?a * 2 ^ 64 + ?f = bt_val b + uint y * 2 ^ 64" by (simp add: bt_val_def algebra_simps)
  finally show ?thesis by simp
qed

lemma bt_val_lt: "0 \<le> bt_val b" "bt_val b < 2 ^ 128"
proof -
  have "uint (bt_sec b) \<le> 2 ^ 64 - 1" "uint (bt_frac b) \<le> 2 ^ 64 - 1"
    using uint_lt2p [of "bt_sec b"] uint_lt2p [of "bt_frac b"] by simp_all
  then show "bt_val b < 2 ^ 128" unfolding bt_val_def by simp
  show "0 \<le> bt_val b" unfolding bt_val_def by simp
qed

lemma bt_val_eq: "bt_val a = bt_val b \<longleftrightarrow> a = (b :: bintime)"
proof
  assume e: "bt_val a = bt_val b"
  have d: "bt_val x div 2 ^ 64 = uint (bt_sec x)" "bt_val x mod 2 ^ 64 = uint (bt_frac x)" for x
    using digits(1,2) [of "uint (bt_frac x)" "2 ^ 64"] uint_lt2p [of "bt_frac x"] by (simp_all add: bt_val_def)
  have "uint (bt_sec a) = uint (bt_sec b)" "uint (bt_frac a) = uint (bt_frac b)" using d e by metis+
  then have "bt_sec a = bt_sec b" "bt_frac a = bt_frac b" using word_uint_eqI by blast+
  then show "a = b" by (intro bintime.equality) simp_all
qed simp

lemma addscaled_val:
  assumes T: "timelib_doc T"
  shows "bt_val (tc_bintime_addscaled T scale delta b) = (bt_val b + uint scale * uint delta) mod 2 ^ 128"
proof -
  let ?h = "uint scale div 2 ^ 32" and ?l = "uint scale mod 2 ^ 32" and ?d = "uint delta"
  let ?x = "drop_bit 32 scale * ucast delta :: u64"
  have d: "0 \<le> ?d" "?d < 2 ^ 32" using uint_lt2p [of delta] by simp_all
  have h: "0 \<le> ?h" "?h < 2 ^ 32"
  proof -
    show "0 \<le> ?h" by (simp add: pos_imp_zdiv_nonneg_iff)
    have "uint scale < 2 ^ 64" using uint_lt2p [of scale] by simp
    moreover have "uint scale = ?h * 2 ^ 32 + ?l" "0 \<le> ?l" by simp_all
    ultimately show "?h < 2 ^ 32" by simp
  qed
  have small: "0 \<le> a * ?d \<and> a * ?d < 2 ^ 64" if "0 \<le> a" "a < 2 ^ 32" for a
    using mult_strict_mono [of a "2 ^ 32" ?d "2 ^ 32"] that d by simp
  have cd: "uint (ucast delta :: u64) = ?d" unfolding unsigned_ucast_eq using d by (intro take_bit_int_eq_self) simp_all
  have dh: "uint (drop_bit 32 scale) = ?h" by (simp add: drop_bit_eq_div uint_div)
  have x: "uint ?x = ?h * ?d"
    using small [OF h] unfolding uint_word_ariths cd dh by (simp add: mod_pos_pos_trivial)
  have lo: "uint ((scale AND 0xffffffff) * ucast delta) = ?l * ?d"
  proof -
    have "uint (scale AND 0xffffffff) = ?l"
      using take_bit_eq_mask [of 32 "uint scale"] by (simp add: uint_and mask_eq_exp_minus_1 take_bit_eq_mod)
    then show ?thesis using small [of ?l] by (simp add: uint_word_ariths cd)
  qed
  have xx: "uint (drop_bit 32 ?x) * 2 ^ 64 + uint (push_bit 32 ?x) = ?h * ?d * 2 ^ 32"
  proof -
    let ?X = "uint ?x"
    have "uint (push_bit 32 ?x) = ?X * 2 ^ 32 mod 2 ^ 64"
      unfolding unsigned_push_bit_eq by (simp add: push_bit_eq_mult take_bit_eq_mod)
    also have "\<dots> = (?X mod 2 ^ 32) * 2 ^ 32" by (simp add: mod_mult_mult2 [of ?X "2 ^ 32" "2 ^ 32", simplified])
    finally have p: "uint (push_bit 32 ?x) = (?X mod 2 ^ 32) * 2 ^ 32" .
    have "uint (drop_bit 32 y) = uint y div 2 ^ 32" for y :: u64 by (simp add: drop_bit_eq_div uint_div)
    moreover have "X div 2 ^ 32 * 2 ^ 64 + (X mod 2 ^ 32) * 2 ^ 32 = X * 2 ^ 32" for X :: int
    proof -
      have "X div 2 ^ 32 * 2 ^ 64 + (X mod 2 ^ 32) * 2 ^ 32 = (X div 2 ^ 32 * 2 ^ 32 + X mod 2 ^ 32) * 2 ^ 32"
        by (simp only: distrib_right mult.assoc) simp
      then show ?thesis by (simp only: div_mult_mod_eq)
    qed
    ultimately show ?thesis unfolding p x [symmetric] by simp
  qed
  have add: "bt_val (bintime_addx T y c) = (bt_val c + uint y) mod 2 ^ 128" for y c using T by (simp add: timelib_doc_def)
  have "bt_val (tc_bintime_addscaled T scale delta b) =
      (((bt_val b + uint (drop_bit 32 ?x) * 2 ^ 64) mod 2 ^ 128 + uint (push_bit 32 ?x)) mod 2 ^ 128 + ?l * ?d) mod 2 ^ 128"
    unfolding tc_bintime_addscaled_def Let_def add bt_val_sec lo ..
  also have "\<dots> = (bt_val b + ((uint (drop_bit 32 ?x) * 2 ^ 64 + uint (push_bit 32 ?x)) + ?l * ?d)) mod 2 ^ 128"
    unfolding mod_add_left_eq by (simp only: ac_simps)
  also have "(uint (drop_bit 32 ?x) * 2 ^ 64 + uint (push_bit 32 ?x)) + ?l * ?d = (?h * 2 ^ 32 + ?l) * ?d"
    unfolding xx by (simp only: algebra_simps)
  finally show ?thesis unfolding div_mult_mod_eq .
qed

section \<open>Winding up keeps the time\<close>

text \<open>A counter mask covers the low bits; the difference of two readings is then exact modulo the wrap.\<close>

definition tc_mask_ok :: "timecounter \<Rightarrow> bool" where
  "tc_mask_ok tc \<longleftrightarrow> (\<exists>w\<le>32. uint (tc_counter_mask tc) = 2 ^ w - 1)"

lemma tc_delta_val:
  assumes "uint (tc_counter_mask (tab (th_counter th))) = 2 ^ w - 1" "w \<le> 32"
  shows "uint (tc_delta tab rd th) = (uint (rd (th_counter th)) - uint (th_offset_count th)) mod 2 ^ w"
proof -
  let ?m = "ucast (tc_counter_mask (tab (th_counter th))) :: u64" and ?x = "ucast (rd (th_counter th)) - th_offset_count th :: u64"
  have u: "uint (ucast (v :: u32) :: u64) = uint v" for v
    unfolding unsigned_ucast_eq using uint_lt2p [of v] by (intro take_bit_int_eq_self) simp_all
  have "uint (?x AND ?m) = take_bit w (uint ?x)"
    using assms(1) by (simp add: uint_and u take_bit_eq_mask mask_eq_exp_minus_1)
  also have "uint ?x = take_bit 64 (uint (rd (th_counter th)) - uint (th_offset_count th))"
    by (simp add: uint_word_ariths u take_bit_eq_mod)
  also have "take_bit w (take_bit 64 (uint (rd (th_counter th)) - uint (th_offset_count th))) =
      (uint (rd (th_counter th)) - uint (th_offset_count th)) mod 2 ^ w"
    using assms(2) unfolding take_bit_take_bit by (simp add: min_absorb1 take_bit_eq_mod)
  finally have v: "uint (?x AND ?m) = (uint (rd (th_counter th)) - uint (th_offset_count th)) mod 2 ^ w" .
  have "(2 :: int) ^ w \<le> 2 ^ 32" using assms(2) by (intro power_increasing) simp_all
  then have "uint (?x AND ?m) < 2 ^ 32" unfolding v using pos_mod_bound [of "2 ^ w :: int"] by (meson less_le_trans zero_less_numeral zero_less_power)
  then have "take_bit 32 (uint (?x AND ?m)) = uint (?x AND ?m)" by (intro take_bit_int_eq_self) simp_all
  then show ?thesis unfolding tc_delta_def unsigned_ucast_eq v [symmetric] by simp
qed

lemma windup_seconds_shift:
  assumes "windup_seconds ntp first na bt base = (na', bt', base', u)"
  shows "\<exists>d. bt' = bt \<lparr> bt_sec := bt_sec bt + d \<rparr> \<and> fst base' = (fst base) \<lparr> bt_sec := bt_sec (fst base) + d \<rparr> \<and> (\<not> u \<longrightarrow> d = 0 \<and> na' = na)"
proof -
  have z: "b \<lparr> bt_sec := bt_sec b \<rparr> = b" "b \<lparr> bt_sec := bt_sec b + 0 \<rparr> = b" for b :: bintime by simp_all
  have twice: "\<exists>d. sec = t + d \<and> fst base' = (fst base) \<lparr> bt_sec := bt_sec (fst base) + d \<rparr>"
    if "ntp_twice ntp (n, a, t, base) = (n', a', sec, base')" for n a t n' a' sec base'
  proof -
    obtain n1 a1 t1 where 1: "ntp n a t = (n1, a1, t1)" by (cases "ntp n a t")
    obtain n2 a2 t2 where 2: "ntp n1 a1 t1 = (n2, a2, t2)" by (cases "ntp n1 a1 t1")
    show ?thesis using that 1 2
      by (intro exI [of _ "sec - t"]) (cases base; auto simp: ntp_twice_def timebase_step_def Let_def z split: if_splits)
  qed
  show ?thesis
  proof (cases "sint (ucast (bt_sec bt - first) :: 32 word) > LARGE_STEP")
    case True
    obtain n a sec b where "ntp_twice ntp (fst na, snd na, bt_sec bt, base) = (n, a, sec, b)"
      by (cases "ntp_twice ntp (fst na, snd na, bt_sec bt, base)")
    then show ?thesis using assms True twice [of "fst na" "snd na" "bt_sec bt"] by (fastforce simp: windup_seconds_def Let_def)
  next
    case False
    obtain n a d where d: "ntp_crossed ntp first (nat (sint (ucast (bt_sec bt - first) :: 32 word))) (fst na, snd na, 0) = (n, a, d)"
      by (cases "ntp_crossed ntp first (nat (sint (ucast (bt_sec bt - first) :: 32 word))) (fst na, snd na, 0)")
    show ?thesis using assms False d
      by (intro exI [of _ "if 0 < sint (ucast (bt_sec bt - first) :: 32 word) then d else 0"])
        (cases base; auto simp: windup_seconds_def Let_def timebase_step_def split: if_splits)
  qed
qed

lemma next_gen_nonzero [simp]: "next_gen g \<noteq> 0"
  by (simp add: next_gen_def)

lemma th_next_neq [simp]: "th_next k \<noteq> k" "k \<noteq> th_next k"
  by (auto simp: th_next_def)

lemma windup_switch_frame [simp]:
  "th_offset (windup_switch tab sel nc u th) = th_offset th"
  "th_microtime (windup_switch tab sel nc u th) = th_microtime th"
  "th_counter (windup_switch tab sel nc u th) = sel"
  "th_offset_count (windup_switch tab sel nc u th) = (if th_counter th \<noteq> sel then ucast nc else th_offset_count th)"
  "th_counter th = sel \<Longrightarrow> \<not> u \<Longrightarrow> th_scale (windup_switch tab sel nc u th) = th_scale th"
  by (auto simp: windup_switch_def Let_def)

lemma windup_hands:
  fixes T ntp rd and s :: "'n timekeeping"
  defines "s' \<equiv> tc_windup T ntp rd s"
  shows "th_offset (hands s') = tc_bintime_addscaled T (th_scale (hands s)) (tc_delta (tc_tab s) rd (hands s)) (th_offset (hands s))"
    "th_counter (hands s') = tk_counter s" "th_generation (hands s') \<noteq> 0" "tc_tab s' = tc_tab s" "tk_counter s' = tk_counter s"
    "th_offset_count (hands s') = (if th_counter (hands s) \<noteq> tk_counter s then ucast (rd (tk_counter s))
       else th_offset_count (hands s) + ucast (tc_delta (tc_tab s) rd (hands s)))"
    "time__uptime s' = bt_sec (th_offset (hands s'))" "time__second s' = tv_sec (th_microtime (hands s'))"
proof -
  show "th_offset (hands s') = tc_bintime_addscaled T (th_scale (hands s)) (tc_delta (tc_tab s) rd (hands s)) (th_offset (hands s))"
    "th_counter (hands s') = tk_counter s" "th_generation (hands s') \<noteq> 0" "tc_tab s' = tc_tab s" "tk_counter s' = tk_counter s"
    "th_offset_count (hands s') = (if th_counter (hands s) \<noteq> tk_counter s then ucast (rd (tk_counter s))
       else th_offset_count (hands s) + ucast (tc_delta (tc_tab s) rd (hands s)))"
    "time__uptime s' = bt_sec (th_offset (hands s'))" "time__second s' = tv_sec (th_microtime (hands s'))"
    unfolding s'_def tc_windup_def Let_def by (simp_all split: prod.split)
qed

lemma delta_after:
  assumes w: "uint (tc_counter_mask (tab (th_counter th))) = 2 ^ w - 1" "w \<le> 32" and c: "th_counter th' = th_counter th"
    and off: "th_offset_count th' = th_offset_count th + ucast (tc_delta tab rd th)"
  shows "uint (tc_delta tab rd2 th') = (uint (rd2 (th_counter th)) - uint (rd (th_counter th))) mod 2 ^ w"
proof -
  let ?off = "uint (th_offset_count th)" and ?r = "uint (rd (th_counter th))" and ?r2 = "uint (rd2 (th_counter th))"
  let ?d = "tc_delta tab rd th"
  have u: "uint (ucast ?d :: u64) = uint ?d"
    unfolding unsigned_ucast_eq using uint_lt2p [of ?d] by (intro take_bit_int_eq_self) simp_all
  have off': "uint (th_offset_count th') = (?off + uint ?d) mod 2 ^ 64" unfolding off by (simp add: uint_word_ariths u)
  have "uint (tc_delta tab rd2 th') = (?r2 - (?off + uint ?d) mod 2 ^ 64) mod 2 ^ w"
    using tc_delta_val [of tab th' w rd2] w off' by (simp add: c)
  also have "\<dots> = (?r2 - (?off + uint ?d)) mod 2 ^ w"
  proof -
    have "(2 :: int) ^ w dvd 2 ^ 64" using w(2) by (intro le_imp_power_dvd) simp
    then have "(?off + uint ?d) mod 2 ^ 64 mod 2 ^ w = (?off + uint ?d) mod 2 ^ w" by (rule mod_mod_cancel)
    then show ?thesis by (rule mod_diff_cong [OF refl])
  qed
  also have "\<dots> = (?r2 - (?off + (?r - ?off) mod 2 ^ w)) mod 2 ^ w" unfolding tc_delta_val [where tab = tab and th = th, OF w] ..
  also have "\<dots> = (?r2 - ?off - (?r - ?off) mod 2 ^ w) mod 2 ^ w" by (simp add: algebra_simps)
  also have "\<dots> = (?r2 - ?r) mod 2 ^ w" by (subst mod_diff_right_eq) (simp add: algebra_simps)
  finally show ?thesis .
qed

lemma addscaled_0: "timelib_doc T \<Longrightarrow> uint delta = 0 \<Longrightarrow> tc_bintime_addscaled T scale delta b = b"
  using bt_val_lt [of b] by (simp add: bt_val_eq [symmetric] addscaled_val mod_pos_pos_trivial)

definition counters_ok :: "'n timekeeping \<Rightarrow> bool" where
  "counters_ok s \<longleftrightarrow> th_generation (hands s) \<noteq> 0 \<and> (\<forall>c. tc_mask_ok (tc_tab s c))"

lemma windup_instant:
  assumes T: "timelib_doc T" and ok: "counters_ok s"
  shows "binuptime T rd (tc_windup T ntp rd s) = binuptime T rd s"
proof -
  let ?s' = "tc_windup T ntp rd s"
  note W = windup_hands [of T ntp rd s]
  obtain w where w: "uint (tc_counter_mask (tc_tab s (tk_counter s))) = 2 ^ w - 1" "w \<le> 32"
    using ok by (auto simp: counters_ok_def tc_mask_ok_def)
  have "uint (tc_delta (tc_tab s) rd (hands ?s')) = 0"
  proof (cases "th_counter (hands s) = tk_counter s")
    case True
    then show ?thesis using delta_after [of "tc_tab s" "hands s" w "hands ?s'" rd rd] w W(2,6) by simp
  next
    case False
    have u: "uint (ucast (v :: u32) :: u64) = uint v" for v
      unfolding unsigned_ucast_eq using uint_lt2p [of v] by (intro take_bit_int_eq_self) simp_all
    show ?thesis using tc_delta_val [of "tc_tab s" "hands ?s'" w rd] w W(2,6) False by (simp add: u)
  qed
  then show ?thesis
    using addscaled_0 [OF T] ok W(1,3,4) by (simp add: binuptime_def Let_def counters_ok_def)
qed

lemma windup_utc:
  assumes T: "timelib_doc T"
  shows "time__second (tc_windup T ntp rd s) = bt_sec (bintime_add T (th_offset (hands (tc_windup T ntp rd s))) (timebase_bin (tc_windup T ntp rd s)))"
proof -
  let ?off = "tc_bintime_addscaled T (th_scale (hands s)) (tc_delta (tc_tab s) rd (hands s)) (th_offset (hands s))"
  let ?bt = "bintime_add T ?off (timebase_bin s)"
  obtain n a bt' base' g u where e: "windup_seconds ntp (tv_sec (th_microtime (hands s))) (tk_ntp s, th_adjustment (hands s)) ?bt
      (timebase_bin s, timebase_gen s) = ((n, a), bt', (base', g), u)" by (metis prod.exhaust)
  obtain d where d: "bt' = ?bt \<lparr> bt_sec := bt_sec ?bt + d \<rparr>" "base' = (timebase_bin s) \<lparr> bt_sec := bt_sec (timebase_bin s) + d \<rparr>"
    using windup_seconds_shift [OF e] by auto
  have s: "time__second (tc_windup T ntp rd s) = bt_sec bt'" "timebase_bin (tc_windup T ntp rd s) = base'"
    using e T by (simp_all add: tc_windup_def Let_def timelib_doc_def)
  have add: "bt_val (bintime_add T x y) = (bt_val x + bt_val y) mod 2 ^ 128" for x y using T by (simp add: timelib_doc_def)
  have "bt_val (bintime_add T ?off base') = bt_val bt'"
    unfolding d add bt_val_sec by (simp only: mod_add_right_eq mod_add_left_eq add.assoc)
  then show ?thesis unfolding s windup_hands(1) by (simp add: bt_val_eq)
qed

lemma windup_later:
  assumes T: "timelib_doc T" and ok: "counters_ok s" and sel: "th_counter (hands s) = tk_counter s"
    and scale: "th_scale (hands (tc_windup T ntp rd s)) = th_scale (hands s)"
    and wrap: "uint (tc_delta (tc_tab s) rd (hands s)) + (uint (rd2 (tk_counter s)) - uint (rd (tk_counter s)))
      mod (uint (tc_counter_mask (tc_tab s (tk_counter s))) + 1) \<le> uint (tc_counter_mask (tc_tab s (tk_counter s)))"
  shows "binuptime T rd2 (tc_windup T ntp rd s) = binuptime T rd2 s"
proof -
  let ?s' = "tc_windup T ntp rd s" and ?tab = "tc_tab s"
  note W = windup_hands [of T ntp rd s]
  obtain w where w: "uint (tc_counter_mask (?tab (th_counter (hands s)))) = 2 ^ w - 1" "w \<le> 32"
    using ok by (auto simp: counters_ok_def tc_mask_ok_def)
  let ?r = "uint (rd (tk_counter s))" and ?r2 = "uint (rd2 (tk_counter s))" and ?off = "uint (th_offset_count (hands s))"
  let ?d1 = "uint (tc_delta ?tab rd (hands s))" and ?d2 = "uint (tc_delta ?tab rd2 (hands ?s'))"
  have d1: "?d1 = (?r - ?off) mod 2 ^ w" using tc_delta_val [of ?tab "hands s" w rd] w sel by simp
  have d2: "?d2 = (?r2 - ?r) mod 2 ^ w"
    using delta_after [of ?tab "hands s" w "hands ?s'" rd rd2] w sel W(2,6) by simp
  have lt: "?d1 + ?d2 < 2 ^ w" using wrap w(1) sel unfolding d2 by simp
  have "uint (tc_delta ?tab rd2 (hands s)) = (?r2 - ?off) mod 2 ^ w" using tc_delta_val [of ?tab "hands s" w rd2] w sel by simp
  also have "?r2 - ?off = (?r - ?off) + (?r2 - ?r)" by simp
  also have "\<dots> mod 2 ^ w = (?d1 + ?d2) mod 2 ^ w" unfolding d1 d2 by (rule mod_add_eq [symmetric])
  also have "\<dots> = ?d1 + ?d2" using lt by (intro mod_pos_pos_trivial) simp_all
  finally have d: "uint (tc_delta ?tab rd2 (hands s)) = ?d1 + ?d2" .
  have "tc_bintime_addscaled T (th_scale (hands s)) (tc_delta ?tab rd2 (hands ?s')) (th_offset (hands ?s')) =
      tc_bintime_addscaled T (th_scale (hands s)) (tc_delta ?tab rd2 (hands s)) (th_offset (hands s))"
    unfolding bt_val_eq [symmetric] addscaled_val [OF T] W(1) d by (simp add: mod_simps algebra_simps)
  then show ?thesis using ok W(3,4) scale by (simp add: binuptime_def Let_def counters_ok_def)
qed

lemma ntp_crossed_still:
  assumes "\<And>n a t. snd (snd (ntp n a t)) = t"
  shows "snd (snd (ntp_crossed ntp first i (n, a, 0))) = 0"
proof -
  have "snd (snd (fold (\<lambda>t (n, adjustment, adj). let seen = first + of_nat t + adj; (n, adjustment, sec) = ntp n adjustment seen
        in (n, adjustment, if sec \<noteq> seen then adj + (sec - seen) else adj)) xs (n, a, 0))) = 0" for xs :: "nat list" and n a
  proof (induction xs arbitrary: n a)
    case (Cons x xs)
    obtain n' a' t where e: "ntp n a (first + of_nat x) = (n', a', t)" by (cases "ntp n a (first + of_nat x)")
    then have "t = first + of_nat x" using assms [of n a "first + of_nat x"] by simp
    then show ?case using Cons.IH e by simp
  qed simp
  then show ?thesis unfolding ntp_crossed_def .
qed

lemma windup_no_step:
  assumes ntp: "\<And>n a t. snd (snd (ntp n a t)) = t"
  shows "timebase_bin (tc_windup T ntp rd s) = timebase_bin s"
proof -
  have e: "ntp n a t = (n', a', t') \<Longrightarrow> t' = t" for n a t n' a' t' using ntp [of n a t] by simp
  have "fst (fst (snd (snd (windup_seconds ntp first na bt base)))) = fst base" for first na bt base
  proof -
    obtain n1 a1 t1 where 1: "ntp (fst na) (snd na) (bt_sec bt) = (n1, a1, t1)" by (cases "ntp (fst na) (snd na) (bt_sec bt)")
    obtain n2 a2 t2 where 2: "ntp n1 a1 t1 = (n2, a2, t2)" by (cases "ntp n1 a1 t1")
    show ?thesis using ntp_crossed_still [of ntp, OF ntp] e [OF 1] e [OF 2] 1 2
      by (auto simp: windup_seconds_def Let_def ntp_twice_def split: prod.splits) (metis snd_conv)+
  qed
  then show ?thesis by (simp add: tc_windup_def Let_def split: prod.split) (metis fst_conv snd_conv)
qed

lemma setclock_reads_back:
  assumes T: "timelib_doc T" and ok: "counters_ok s" and ntp: "\<And>n a t. snd (snd (ntp n a t)) = t"
  shows "\<exists>s'. tc_setclock T ntp rd ts s = Some s' \<and> bintime_read T rd s' = Some (timespec2bintime T ts)"
proof -
  obtain bt2 where b: "binuptime T rd s = Some bt2" using ok by (simp add: binuptime_def Let_def counters_ok_def)
  let ?bt = "bintime_sub T (timespec2bintime T ts) bt2"
  let ?s1 = "s \<lparr> timebase_bin := ?bt, timebase_gen := (timebase_gen s OR 1) + 1 \<rparr>"
  have ok1: "counters_ok ?s1" using ok by (simp add: counters_ok_def)
  have "binuptime T rd ?s1 = binuptime T rd s" by (simp add: binuptime_def Let_def)
  then have "binuptime T rd ?s1 = Some bt2" using b by simp
  then have "binuptime T rd (tc_windup T ntp rd ?s1) = Some bt2" unfolding windup_instant [OF T ok1] .
  moreover have "timebase_bin (tc_windup T ntp rd ?s1) = ?bt" using windup_no_step [of ntp, OF ntp] by simp
  moreover have "bintime_add T bt2 ?bt = timespec2bintime T ts"
    using T bt_val_lt [of "timespec2bintime T ts"]
    unfolding bt_val_eq [symmetric] timelib_doc_def by (simp add: mod_simps mod_pos_pos_trivial)
  ultimately show ?thesis using b by (simp add: tc_setclock_def bintime_read_def Let_def)
qed

section \<open>The choice of a counter and the tickless bound\<close>

lemma not_better_trans: "\<not> tc_better b c \<Longrightarrow> \<not> tc_better a b \<Longrightarrow> \<not> tc_better a c"
  unfolding tc_better_def by (meson less_trans linorder_not_less order_le_less_trans order_less_imp_le order_trans)

lemma tc_pick_best:
  assumes "tk_counters s \<noteq> []"
  shows "tk_counter (tc_pick s) \<in> set (tk_counters s)"
    "c \<in> set (tk_counters s) \<Longrightarrow> \<not> tc_better (tc_tab s c) (tc_tab s (tk_counter (tc_pick s)))"
proof -
  let ?f = "fold (\<lambda>tc best. if tc_better (tc_tab s tc) (tc_tab s best) then tc else best)"
  have "?f xs b \<in> insert b (set xs) \<and> (\<forall>c\<in>insert b (set xs). \<not> tc_better (tc_tab s c) (tc_tab s (?f xs b)))" for xs b
  proof (induction xs arbitrary: b)
    case Nil
    then show ?case by (simp add: tc_better_def)
  next
    case (Cons x xs)
    define b' where "b' = (if tc_better (tc_tab s x) (tc_tab s b) then x else b)"
    have step: "?f (x # xs) b = ?f xs b'" by (simp add: b'_def)
    note IH = Cons.IH [of b']
    have nb: "\<not> tc_better (tc_tab s x) (tc_tab s b')" "\<not> tc_better (tc_tab s b) (tc_tab s b')"
      by (simp_all add: b'_def tc_better_def not_less order_less_imp_le)
    have top: "\<not> tc_better (tc_tab s b') (tc_tab s (?f xs b'))" using IH by blast
    have "\<not> tc_better (tc_tab s x) (tc_tab s (?f xs b'))" "\<not> tc_better (tc_tab s b) (tc_tab s (?f xs b'))"
      using nb not_better_trans [OF top] by blast+
    moreover have "b' = x \<or> b' = b" by (simp add: b'_def)
    ultimately show ?case unfolding step using IH by auto
  qed
  from this [of "tk_counters s" "hd (tk_counters s)"]
  show "tk_counter (tc_pick s) \<in> set (tk_counters s)"
    "c \<in> set (tk_counters s) \<Longrightarrow> \<not> tc_better (tc_tab s c) (tc_tab s (tk_counter (tc_pick s)))"
    using assms by (auto simp: tc_pick_def)
qed

lemma half_wrap_ticks_bound:
  assumes hz: "0 < hz P" "hz P \<le> INT_MAX" and f: "tc_frequency tc \<noteq> 0" and n: "n \<le> uint (tc_half_wrap_ticks P tc)"
  shows "2 * n * uint (tc_frequency tc) \<le> uint (tc_counter_mask tc) * hz P"
proof -
  let ?m = "uint (tc_counter_mask tc)" and ?f = "uint (tc_frequency tc)"
  have u: "uint (ucast (tc_counter_mask tc) :: u64) = ?m"
    unfolding unsigned_ucast_eq using uint_lt2p [of "tc_counter_mask tc"] by (intro take_bit_int_eq_self) simp_all
  have h: "uint (word_of_int (hz P) :: u64) = hz P" using hz by (simp add: uint_word_of_int mod_pos_pos_trivial)
  have "?m * hz P < 2 ^ 32 * 2 ^ 32" using uint_lt2p [of "tc_counter_mask tc"] hz by (intro mult_strict_mono) simp_all
  then have p: "uint (ucast (tc_counter_mask tc) * word_of_int (hz P) :: u64) = ?m * hz P"
    unfolding uint_word_ariths u h using hz by (intro mod_pos_pos_trivial) simp_all
  have fp: "0 < ?f" using f by (metis order_le_imp_less_or_eq uint_0_iff unsigned_greater_eq)
  have "n \<le> ?m * hz P div ?f div 2" using n f by (simp add: tc_half_wrap_ticks_def uint_div p)
  then have "2 * n \<le> ?m * hz P div ?f" by linarith
  then have "2 * n * ?f \<le> ?m * hz P div ?f * ?f" using fp by (intro mult_right_mono) simp_all
  also have "\<dots> \<le> ?m * hz P" using fp hz by (simp add: minus_mod_eq_div_mult [symmetric])
  finally show ?thesis .
qed

section \<open>Properties\<close>

text \<open>C24: the split multiplication of \<^verbatim>\<open>tc_bintime_addscaled\<close> is exact: it adds the full 96-bit
  product of scale and delta to the 128-bit time, with no carry lost, for every scale and delta.\<close>

theorem tc_bintime_addscaled_exact:
  assumes "timelib_doc T"
  shows "bt_val (tc_bintime_addscaled T scale delta b) = (bt_val b + uint scale * uint delta) mod 2 ^ 128"
  by (rule addscaled_val [OF assms])

text \<open>A library that computes on the 128-bit values.\<close>

definition bt_of :: "int \<Rightarrow> bintime" where
  "bt_of v = \<lparr> bt_sec = word_of_int (v div 2 ^ 64), bt_frac = word_of_int v \<rparr>"

definition sample_timelib :: timelib where
  "sample_timelib = \<lparr> bintime_addx = \<lambda>x b. bt_of (bt_val b + uint x), bintime_add = \<lambda>a b. bt_of (bt_val a + bt_val b),
    bintime_sub = \<lambda>a b. bt_of (bt_val a - bt_val b), bintime2timeval = \<lambda>b. \<lparr> tv_sec = bt_sec b, tv_usec = 0 \<rparr>,
    bintime2timespec = \<lambda>b. \<lparr> ts_sec = bt_sec b, ts_nsec = 0 \<rparr>,
    timespec2bintime = \<lambda>t. \<lparr> bt_sec = ts_sec t, bt_frac = 0 \<rparr> \<rparr>"

lemma bt_val_of: "bt_val (bt_of v) = v mod 2 ^ 128"
proof -
  have "v mod (2 ^ 64 * 2 ^ 64) = 2 ^ 64 * (v div 2 ^ 64 mod 2 ^ 64) + v mod 2 ^ 64" by (rule zmod_zmult2_eq) simp
  then show ?thesis by (simp add: bt_val_def bt_of_def uint_word_of_int)
qed

lemma sample_timelib_doc: "timelib_doc sample_timelib"
  by (simp add: timelib_doc_def sample_timelib_def bt_val_of)

definition sample_hands :: timehands where
  "sample_hands = \<lparr> th_counter = 0, th_adjustment = 0, th_scale = 9223372036854, th_offset_count = 0,
    th_offset = \<lparr> bt_sec = 1, bt_frac = 0 \<rparr>, th_microtime = \<lparr> tv_sec = 1, tv_usec = 0 \<rparr>,
    th_nanotime = \<lparr> ts_sec = 1, ts_nsec = 0 \<rparr>, th_generation = 1 \<rparr>"

definition sample_timekeeping :: "unit timekeeping" where
  "sample_timekeeping = \<lparr> tc_tab = \<lambda>_. \<lparr> tc_counter_mask = 0xffffffff, tc_frequency = 2000000, tc_quality = 0 \<rparr>,
    tk_hands = \<lambda>_. sample_hands, tk_cur = 0, tk_counter = 0, tk_counters = [0], timebase_bin = \<lparr> bt_sec = 0, bt_frac = 0 \<rparr>,
    timebase_gen = 0, time__second = 1, time__uptime = 1, timecounter_mods = 0, timecounter_bad = 0, tk_count = 0, tk_ntp = () \<rparr>"

lemma sample_counters_ok: "counters_ok sample_timekeeping"
  by (auto simp: counters_ok_def sample_timekeeping_def sample_hands_def tc_mask_ok_def intro!: exI [of _ 32])

lemma tc_bintime_addscaled_exact_witness:
  "bt_val (tc_bintime_addscaled sample_timelib 0xffffffffffffffff 0xffffffff \<lparr> bt_sec = 7, bt_frac = 9 \<rparr>) =
   7 * 2 ^ 64 + 9 + (2 ^ 64 - 1) * (2 ^ 32 - 1)"
  using tc_bintime_addscaled_exact [OF sample_timelib_doc, of "0xffffffffffffffff" "0xffffffff" "\<lparr> bt_sec = 7, bt_frac = 9 \<rparr>"]
  by (simp add: bt_val_def)

text \<open>C23: winding up the time hands never steps the uptime clock. At the counter readings of the
  windup, the time read just after it is the time read just before it, also when it switches to
  another counter or changes the rate; as long as the rate stays the same, all later readings
  agree too, until the counter would have wrapped without the windup; and the cached UTC second
  agrees with the new offset and time base, also across leap seconds.\<close>

theorem tc_windup_continuous:
  assumes "timelib_doc T" "counters_ok s" and "s' = tc_windup T ntp rd s"
  shows "binuptime T rd s' = binuptime T rd s \<and> binuptime T rd s' \<noteq> None \<and>
    (th_counter (hands s) = tk_counter s \<and> th_scale (hands s') = th_scale (hands s) \<and>
      uint (tc_delta (tc_tab s) rd (hands s)) + (uint (rd2 (tk_counter s)) - uint (rd (tk_counter s)))
        mod (uint (tc_counter_mask (tc_tab s (tk_counter s))) + 1) \<le> uint (tc_counter_mask (tc_tab s (tk_counter s))) \<longrightarrow>
      binuptime T rd2 s' = binuptime T rd2 s) \<and>
    time__second s' = bt_sec (bintime_add T (th_offset (hands s')) (timebase_bin s'))"
  using windup_instant [OF assms(1,2)] windup_later [OF assms(1,2)] windup_utc [OF assms(1)] assms(2)
  unfolding assms(3) by (simp add: binuptime_def [of T rd s] counters_ok_def Let_def)

lemma tc_windup_continuous_witness:
  "let ntp = \<lambda>n a t. (n, a, t); rd = \<lambda>_. 500000; s' = tc_windup sample_timelib ntp rd sample_timekeeping
   in binuptime sample_timelib rd s' = binuptime sample_timelib rd sample_timekeeping"
  using tc_windup_continuous [OF sample_timelib_doc sample_counters_ok refl] by (simp add: Let_def)

text \<open>C25: setting the clock and reading it back gives the time that was set, when no leap second
  falls into the windup that setting the clock performs.\<close>

theorem tc_setclock_roundtrip:
  assumes "timelib_doc T" "counters_ok s" "\<And>n a t. snd (snd (ntp n a t)) = t"
  shows "\<exists>s'. tc_setclock T ntp rd ts s = Some s' \<and> bintime_read T rd s' = Some (timespec2bintime T ts)"
  by (rule setclock_reads_back [OF assms])

lemma tc_setclock_roundtrip_witness:
  "\<exists>s'. tc_setclock sample_timelib (\<lambda>n a t. (n, a, t)) (\<lambda>_. 77) \<lparr> ts_sec = 1700000000, ts_nsec = 0 \<rparr> sample_timekeeping = Some s' \<and>
     bintime_read sample_timelib (\<lambda>_. 77) s' = Some \<lparr> bt_sec = 1700000000, bt_frac = 0 \<rparr>"
proof -
  have "timespec2bintime sample_timelib \<lparr> ts_sec = 1700000000, ts_nsec = 0 \<rparr> = \<lparr> bt_sec = 1700000000, bt_frac = 0 \<rparr>"
    by (simp add: sample_timelib_def)
  then show ?thesis
    using tc_setclock_roundtrip [OF sample_timelib_doc sample_counters_ok, of "\<lambda>n a t. (n, a, t)" "\<lambda>_. 77" "\<lparr> ts_sec = 1700000000, ts_nsec = 0 \<rparr>"]
    by simp
qed

text \<open>C26: a primary CPU that sleeps no longer than \<^verbatim>\<open>tc_max_windup_ticks\<close> lets neither the active
  nor the selected counter advance by more than half its range, so that no time is lost.\<close>

theorem tc_max_windup_ticks_safe:
  assumes "0 < hz P" "hz P \<le> INT_MAX" "n \<le> tc_max_windup_ticks P s"
    and "c = th_counter (hands s) \<or> c = tk_counter s" "tc_frequency (tc_tab s c) \<noteq> 0"
  shows "2 * n * uint (tc_frequency (tc_tab s c)) \<le> uint (tc_counter_mask (tc_tab s c)) * hz P"
proof -
  have "n \<le> uint (tc_half_wrap_ticks P (tc_tab s c))"
    using assms(3,4) unfolding tc_max_windup_ticks_def Let_def word_less_def by (auto split: if_splits)
  then show ?thesis by (rule half_wrap_ticks_bound [OF assms(1,2,5)])
qed

lemma tc_max_windup_ticks_safe_witness:
  "2 * 100 * 2000000 \<le> (0xffffffff :: int) * 100 \<and> 100 \<le> tc_max_windup_ticks \<lparr> fls64 = \<lambda>_. 0, MAXCPUS = 8, cpu_frequency = \<lambda>_. 0, hz = 100, mstohz = id \<rparr> sample_timekeeping"
proof -
  let ?P = "\<lparr> fls64 = \<lambda>_. 0, MAXCPUS = 8, cpu_frequency = \<lambda>_. 0, hz = 100, mstohz = id \<rparr> :: platform"
  have n: "100 \<le> tc_max_windup_ticks ?P sample_timekeeping"
    by (simp add: tc_max_windup_ticks_def tc_half_wrap_ticks_def sample_timekeeping_def sample_hands_def)
  show ?thesis using tc_max_windup_ticks_safe [of ?P 100 sample_timekeeping 0] n
    by (simp add: sample_timekeeping_def sample_hands_def)
qed

end
