(* ===== verification/Heartbeat.thy ===== *)
theory Heartbeat
  imports Prelude
begin

text \<open>
  The heartbeat monitor, \<^verbatim>\<open>kernel/kern/kern_heartbeat.c\<close>: every CPU counts its clock interrupts,
  notes in a soft interrupt the uptime it has seen, and once a second checks the next CPU. The
  tickless idle suspends the monitoring of a CPU whose clock is stopped.

  A heartbeat that makes the system panic, or that starts the defibrillation of another CPU, is a
  verdict, a value of its own.
\<close>

section \<open>State\<close>

record hb_cpu =
  ci_heartbeat_count :: u32
  ci_heartbeat_uptime_cache :: u32
  ci_heartbeat_uptime_stamp :: u32
  ci_heartbeat_suspend :: u32

record hb_state =
  hb_cpus :: "nat \<Rightarrow> hb_cpu"
  heartbeat_max_period_secs :: u32
  heartbeat_max_period_ticks :: u32

datatype hb_verdict =
    HB_silent
  | HB_softint
  | HB_time_stuck u32
  | HB_softints_stuck u32
  | HB_defibrillate nat u32

definition upd_hb :: "nat \<Rightarrow> (hb_cpu \<Rightarrow> hb_cpu) \<Rightarrow> hb_state \<Rightarrow> hb_state" where
  "upd_hb ci f s = s \<lparr> hb_cpus := (hb_cpus s)(ci := f (hb_cpus s ci)) \<rparr>"

section \<open>Suspending and resuming\<close>

definition heartbeat_suspend :: "nat \<Rightarrow> hb_state \<Rightarrow> hb_state" where
  "heartbeat_suspend cur s = upd_hb cur (\<lambda>h. h \<lparr> ci_heartbeat_suspend := ci_heartbeat_suspend h + 1 \<rparr>) s"

definition heartbeat_resume_cpu :: "u32 \<Rightarrow> nat \<Rightarrow> hb_state \<Rightarrow> hb_state" where
  "heartbeat_resume_cpu uptime ci s =
    upd_hb ci (\<lambda>h. h \<lparr> ci_heartbeat_count := 0, ci_heartbeat_uptime_cache := uptime, ci_heartbeat_uptime_stamp := 0 \<rparr>) s"

definition heartbeat_resume :: "u32 \<Rightarrow> nat \<Rightarrow> hb_state \<Rightarrow> hb_state" where
  "heartbeat_resume uptime cur s =
    upd_hb cur (\<lambda>h. h \<lparr> ci_heartbeat_suspend := ci_heartbeat_suspend h - 1 \<rparr>) (heartbeat_resume_cpu uptime cur s)"

definition heartbeat_timecounter_suspended :: "nat \<Rightarrow> hb_state \<Rightarrow> bool" where
  "heartbeat_timecounter_suspended primary s \<longleftrightarrow> ci_heartbeat_suspend (hb_cpus s primary) \<noteq> 0"

section \<open>The period\<close>

abbreviation (input) UINT_MAX :: int where "UINT_MAX \<equiv> 4294967295"

text \<open>\<open>cpus\<close> are the CPUs in iteration order; cold or not, all of them have their state reset.\<close>

definition set_max_period :: "platform \<Rightarrow> nat list \<Rightarrow> u32 \<Rightarrow> u32 \<Rightarrow> hb_state \<Rightarrow> hb_state" where
  "set_max_period P cpus uptime max_period s =
    (let s = (if heartbeat_max_period_secs s = 0 \<and> max_period \<noteq> 0 then fold (heartbeat_resume_cpu uptime) cpus s else s)
     in s \<lparr> heartbeat_max_period_secs := max_period, heartbeat_max_period_ticks := max_period * word_of_int (hz P) \<rparr>)"

definition heartbeat_max_period_sysctl ::
    "platform \<Rightarrow> (u32 option \<Rightarrow> u32 \<Rightarrow> errno option \<times> u32) \<Rightarrow> nat list \<Rightarrow> u32 \<Rightarrow> u32 option \<Rightarrow> hb_state \<Rightarrow> errno option \<times> hb_state" where
  "heartbeat_max_period_sysctl P lk cpus uptime newp s =
    (let (error, max_period) = lk newp (heartbeat_max_period_secs s)
     in if error \<noteq> None \<or> newp = None then (error, s)
        else if uint max_period > UINT_MAX div 4 div hz P then (Some EOVERFLOW, s)
        else (None, set_max_period P cpus uptime max_period s))"

definition heartbeat_intr :: "u32 \<Rightarrow> nat \<Rightarrow> hb_state \<Rightarrow> hb_state" where
  "heartbeat_intr uptime cur s =
    upd_hb cur (\<lambda>h. h \<lparr> ci_heartbeat_uptime_stamp := ci_heartbeat_count h, ci_heartbeat_uptime_cache := uptime \<rparr>) s"

section \<open>The check\<close>

fun select_patient_loop :: "(nat \<Rightarrow> bool) \<Rightarrow> nat \<Rightarrow> nat option \<Rightarrow> bool \<Rightarrow> nat list \<Rightarrow> nat option" where
  "select_patient_loop suspended cur first passedcur [] = first"
| "select_patient_loop suspended cur first passedcur (ci # cis) =
    (if suspended ci then select_patient_loop suspended cur first passedcur cis
     else if passedcur then Some ci
     else if ci = cur then select_patient_loop suspended cur first True cis
     else if first = None then select_patient_loop suspended cur (Some ci) passedcur cis
     else select_patient_loop suspended cur first passedcur cis)"

definition hb_suspended :: "hb_state \<Rightarrow> nat \<Rightarrow> bool" where
  "hb_suspended s ci \<longleftrightarrow> ci_heartbeat_suspend (hb_cpus s ci) \<noteq> 0"

definition select_patient :: "nat list \<Rightarrow> nat \<Rightarrow> hb_state \<Rightarrow> nat option" where
  "select_patient cpus cur s = select_patient_loop (hb_suspended s) cur None False cpus"

definition heartbeat :: "nat list \<Rightarrow> nat \<Rightarrow> bool \<Rightarrow> u32 \<Rightarrow> nat \<Rightarrow> hb_state \<Rightarrow> hb_verdict \<times> hb_state" where
  "heartbeat cpus primary panicking uptime cur s =
    (let period_ticks = heartbeat_max_period_ticks s; period_secs = heartbeat_max_period_secs s
     in if period_ticks = 0 \<or> period_secs = 0 \<or> hb_suspended s cur \<or> panicking then (HB_silent, s)
        else
          let count = ci_heartbeat_count (hb_cpus s cur);
              s = upd_hb cur (\<lambda>h. h \<lparr> ci_heartbeat_count := count + 1 \<rparr>) s;
              cache = ci_heartbeat_uptime_cache (hb_cpus s cur)
          in if cache = uptime then
               let d = count - ci_heartbeat_uptime_stamp (hb_cpus s cur)
               in if d > period_ticks \<and> \<not> heartbeat_timecounter_suspended primary s then (HB_time_stuck d, s) else (HB_silent, s)
             else
               let d = uptime - cache
               in if d > period_secs then (HB_softints_stuck d, s)
                  else
                    case select_patient cpus cur s of
                      None \<Rightarrow> (HB_softint, s)
                    | Some patient \<Rightarrow>
                        let d = uptime - ci_heartbeat_uptime_cache (hb_cpus s patient)
                        in if d > period_secs \<and> uint d < UINT_MAX div 2 \<and> \<not> hb_suspended s patient
                           then (HB_defibrillate patient d, s) else (HB_softint, s))"

section \<open>Who checks whom\<close>

lemma select_loop_filter:
  "select_patient_loop sus cur f p cis = select_patient_loop (\<lambda>_. False) cur f p (filter (\<lambda>c. \<not> sus c) cis)"
  by (induction sus cur f p cis rule: select_patient_loop.induct) auto

lemma select_loop_passed: "select_patient_loop (\<lambda>_. False) cur f True cis = (if cis = [] then f else Some (hd cis))"
  by (cases cis) simp_all

lemma select_loop_split:
  "cur \<notin> set xs \<Longrightarrow> select_patient_loop (\<lambda>_. False) cur f False (xs @ cur # ys) =
    (if ys \<noteq> [] then Some (hd ys) else if f \<noteq> None then f else if xs \<noteq> [] then Some (hd xs) else None)"
proof (induction xs arbitrary: f)
  case Nil
  then show ?case by (cases f) (simp_all add: select_loop_passed)
next
  case (Cons x xs)
  then show ?case by (cases f) simp_all
qed

text \<open>The CPUs that are monitored, in iteration order.\<close>

definition hb_online :: "hb_state \<Rightarrow> nat list \<Rightarrow> nat list" where
  "hb_online s cpus = filter (\<lambda>c. \<not> hb_suspended s c) cpus"

lemma select_patient_next:
  assumes d: "distinct cpus" and i: "i < length (hb_online s cpus)" "hb_online s cpus ! i = cur"
  shows "select_patient cpus cur s =
    (if length (hb_online s cpus) = 1 then None else Some (hb_online s cpus ! ((i + 1) mod length (hb_online s cpus))))"
proof -
  let ?on = "hb_online s cpus" and ?xs = "take i (hb_online s cpus)" and ?ys = "drop (i + 1) (hb_online s cpus)"
  have e: "?on = ?xs @ cur # ?ys" using id_take_nth_drop [OF i(1)] i(2) by simp
  have "distinct ?on" using d by (simp add: hb_online_def)
  then have n: "cur \<notin> set ?xs" using e by (metis distinct.simps(2) distinct_append disjoint_iff list.set_intros(1))
  have "select_patient cpus cur s = select_patient_loop (\<lambda>_. False) cur None False ?on"
    unfolding select_patient_def hb_online_def by (subst select_loop_filter) simp
  also have "\<dots> = (if ?ys \<noteq> [] then Some (hd ?ys) else if ?xs \<noteq> [] then Some (hd ?xs) else None)"
    by (subst e) (simp add: select_loop_split [OF n])
  also have "\<dots> = (if length ?on = 1 then None else Some (?on ! ((i + 1) mod length ?on)))"
  proof (cases "i + 1 < length ?on")
    case True
    then show ?thesis by (simp add: hd_drop_conv_nth)
  next
    case False
    then have "i + 1 = length ?on" using i(1) by simp
    then show ?thesis using i(1) by (cases ?on) auto
  qed
  finally show ?thesis .
qed

text \<open>C27: the heartbeat watch is a ring. Every monitored CPU checks the monitored CPU after it in
  iteration order, the last one the first; it never checks itself; and when at least two CPUs
  are monitored, each of them is checked by another one.\<close>

theorem select_patient_ring:
  assumes "distinct cpus" "i < length (hb_online s cpus)"
  shows "(select_patient cpus (hb_online s cpus ! i) s =
      (if length (hb_online s cpus) = 1 then None else Some (hb_online s cpus ! ((i + 1) mod length (hb_online s cpus))))) \<and>
    select_patient cpus (hb_online s cpus ! i) s \<noteq> Some (hb_online s cpus ! i) \<and>
    (length (hb_online s cpus) > 1 \<longrightarrow>
      (\<exists>j<length (hb_online s cpus). j \<noteq> i \<and> select_patient cpus (hb_online s cpus ! j) s = Some (hb_online s cpus ! i)))"
proof -
  let ?on = "hb_online s cpus" and ?n = "length (hb_online s cpus)"
  have d: "distinct ?on" using assms(1) by (simp add: hb_online_def)
  note N = select_patient_next [OF assms(1) _ refl]
  have "(i + 1) mod ?n \<noteq> i" if "?n \<noteq> 1" using that assms(2) by (cases "i + 1 = ?n") auto
  then have "select_patient cpus (?on ! i) s \<noteq> Some (?on ! i)"
    using N [OF assms(2)] nth_eq_iff_index_eq [OF d _ assms(2), of "(i + 1) mod ?n"] assms(2)
    by (auto simp: mod_less_divisor [OF order.strict_trans1 [OF le0 assms(2)]])
  moreover have "\<exists>j<?n. j \<noteq> i \<and> select_patient cpus (?on ! j) s = Some (?on ! i)" if "?n > 1"
  proof (cases i)
    case 0
    have e: "?n - 1 + 1 = ?n" using that by simp
    have "select_patient cpus (?on ! (?n - 1)) s = Some (?on ! ((?n - 1 + 1) mod ?n))" using N [of "?n - 1" s] that by simp
    then show ?thesis unfolding e using 0 that by (intro exI [of _ "?n - 1"]) simp
  next
    case (Suc j)
    then show ?thesis using N [of j] that assms(2) by (intro exI [of _ j]) auto
  qed
  ultimately show ?thesis using N [OF assms(2)] by blast
qed

definition hb_boot :: hb_state where
  "hb_boot = \<lparr> hb_cpus = \<lambda>_. \<lparr> ci_heartbeat_count = 0, ci_heartbeat_uptime_cache = 1, ci_heartbeat_uptime_stamp = 0, ci_heartbeat_suspend = 0 \<rparr>,
    heartbeat_max_period_secs = 15, heartbeat_max_period_ticks = 1500 \<rparr>"

lemma select_patient_ring_witness:
  "select_patient [0, 1, 2, 3] 3 (heartbeat_suspend 0 hb_boot) = Some 1"
proof -
  have "hb_online (heartbeat_suspend 0 hb_boot) [0, 1, 2, 3] = [1, 2, 3]"
    by (simp add: hb_online_def hb_suspended_def heartbeat_suspend_def upd_hb_def hb_boot_def)
  then show ?thesis using select_patient_ring [of "[0, 1, 2, 3]" 2 "heartbeat_suspend 0 hb_boot"] by simp
qed

section \<open>Histories\<close>

text \<open>
  What can happen to the monitor, in the order it happens: the system's uptime advances by some
  seconds, a CPU suspends or resumes its monitoring, runs its soft interrupt, beats, or the period
  is changed.
\<close>

datatype hb_event = Hb_seconds nat | Hb_suspend nat | Hb_resume nat | Hb_intr nat | Hb_beat nat | Hb_period u32

text \<open>
  An observer of a history knows, in unbounded numbers: the uptime; the period; for each CPU when it
  last gave a sign of life (its soft interrupt ran, its monitoring was resumed, or all monitoring
  was enabled), how often it is suspended, and how often it has beaten since that sign of life.
\<close>

record hb_hist =
  h_now :: nat
  h_period :: u32
  h_life :: "nat \<Rightarrow> nat"
  h_susp :: "nat \<Rightarrow> int"
  h_beats :: "nat \<Rightarrow> nat"

definition hb_alive :: "nat set \<Rightarrow> hb_hist \<Rightarrow> hb_hist" where
  "hb_alive cs h = h \<lparr> h_life := \<lambda>c. if c \<in> cs then h_now h else h_life h c, h_beats := \<lambda>c. if c \<in> cs then 0 else h_beats h c \<rparr>"

fun hb_note :: "nat list \<Rightarrow> hb_event \<Rightarrow> hb_hist \<Rightarrow> hb_hist" where
  "hb_note cpus (Hb_seconds n) h = h \<lparr> h_now := h_now h + n \<rparr>"
| "hb_note cpus (Hb_suspend c) h = h \<lparr> h_susp := (h_susp h)(c := h_susp h c + 1) \<rparr>"
| "hb_note cpus (Hb_resume c) h = hb_alive {c} (h \<lparr> h_susp := (h_susp h)(c := h_susp h c - 1) \<rparr>)"
| "hb_note cpus (Hb_intr c) h = hb_alive {c} h"
| "hb_note cpus (Hb_beat c) h = h \<lparr> h_beats := (h_beats h)(c := h_beats h c + 1) \<rparr>"
| "hb_note cpus (Hb_period m) h = (if h_period h = 0 \<and> m \<noteq> 0 then hb_alive (set cpus) h else h) \<lparr> h_period := m \<rparr>"

text \<open>What the code does at the event, with the uptime truncated to 32 bits.\<close>

fun hb_run :: "platform \<Rightarrow> nat list \<Rightarrow> nat \<Rightarrow> hb_event \<Rightarrow> nat \<Rightarrow> hb_state \<Rightarrow> hb_state" where
  "hb_run P cpus primary (Hb_seconds n) now s = s"
| "hb_run P cpus primary (Hb_suspend c) now s = heartbeat_suspend c s"
| "hb_run P cpus primary (Hb_resume c) now s = heartbeat_resume (of_nat now) c s"
| "hb_run P cpus primary (Hb_intr c) now s = heartbeat_intr (of_nat now) c s"
| "hb_run P cpus primary (Hb_beat c) now s = snd (heartbeat cpus primary False (of_nat now) c s)"
| "hb_run P cpus primary (Hb_period m) now s = set_max_period P cpus (of_nat now) m s"

definition hb_history :: "platform \<Rightarrow> nat list \<Rightarrow> nat \<Rightarrow> hb_event list \<Rightarrow> hb_hist \<times> hb_state \<Rightarrow> hb_hist \<times> hb_state" where
  "hb_history P cpus primary es hs = foldl (\<lambda>(h, s) e. (hb_note cpus e h, hb_run P cpus primary e (h_now h) s)) hs es"

definition hb_hist0 :: "nat \<Rightarrow> hb_state \<Rightarrow> hb_hist" where
  "hb_hist0 u s = \<lparr> h_now = u, h_period = heartbeat_max_period_secs s, h_life = \<lambda>_. u, h_susp = \<lambda>_. 0, h_beats = \<lambda>_. 0 \<rparr>"

text \<open>Monitoring starts: every CPU has the current uptime and nobody is suspended.\<close>

definition hb_start :: "nat \<Rightarrow> hb_state \<Rightarrow> bool" where
  "hb_start u s \<longleftrightarrow> (\<forall>c. ci_heartbeat_uptime_cache (hb_cpus s c) = of_nat u \<and> ci_heartbeat_suspend (hb_cpus s c) = 0 \<and>
    ci_heartbeat_count (hb_cpus s c) = ci_heartbeat_uptime_stamp (hb_cpus s c))"

fun hb_secs :: "hb_event list \<Rightarrow> nat" where
  "hb_secs [] = 0"
| "hb_secs (Hb_seconds n # es) = n + hb_secs es"
| "hb_secs (_ # es) = hb_secs es"

text \<open>The monitor's 32-bit state holds what the observer knows.\<close>

definition hb_rel :: "hb_hist \<Rightarrow> hb_state \<Rightarrow> bool" where
  "hb_rel h s \<longleftrightarrow> heartbeat_max_period_secs s = h_period h \<and>
    (\<forall>c. ci_heartbeat_uptime_cache (hb_cpus s c) = of_nat (h_life h c) \<and> h_life h c \<le> h_now h \<and>
      ci_heartbeat_suspend (hb_cpus s c) = of_int (h_susp h c) \<and>
      (\<exists>k\<le>h_beats h c. ci_heartbeat_count (hb_cpus s c) - ci_heartbeat_uptime_stamp (hb_cpus s c) = of_nat k))"

lemma upd_hb_sel [simp]:
  "hb_cpus (upd_hb ci f s) = (hb_cpus s)(ci := f (hb_cpus s ci))" "heartbeat_max_period_secs (upd_hb ci f s) = heartbeat_max_period_secs s"
  "heartbeat_max_period_ticks (upd_hb ci f s) = heartbeat_max_period_ticks s"
  by (simp_all add: upd_hb_def)

lemma hb_alive_sel [simp]: "h_now (hb_alive cs h) = h_now h" "h_period (hb_alive cs h) = h_period h" "h_susp (hb_alive cs h) = h_susp h"
  "h_life (hb_alive cs h) c = (if c \<in> cs then h_now h else h_life h c)" "h_beats (hb_alive cs h) c = (if c \<in> cs then 0 else h_beats h c)"
  by (simp_all add: hb_alive_def)

lemma resume_fold:
  "hb_cpus (fold (heartbeat_resume_cpu u) cpus s) c = (if c \<in> set cpus
     then (hb_cpus s c) \<lparr> ci_heartbeat_count := 0, ci_heartbeat_uptime_cache := u, ci_heartbeat_uptime_stamp := 0 \<rparr> else hb_cpus s c)"
  "heartbeat_max_period_secs (fold (heartbeat_resume_cpu u) cpus s) = heartbeat_max_period_secs s"
  by (induction cpus arbitrary: s) (auto simp: heartbeat_resume_cpu_def)

lemma heartbeat_beats:
  "snd (heartbeat cpus primary panicking u c s) = s \<or>
   snd (heartbeat cpus primary panicking u c s) = upd_hb c (\<lambda>h. h \<lparr> ci_heartbeat_count := ci_heartbeat_count (hb_cpus s c) + 1 \<rparr>) s"
  unfolding heartbeat_def Let_def by (auto split: option.split)

lemma hb_rel_step:
  assumes r: "hb_rel h s"
  shows "hb_rel (hb_note cpus e h) (hb_run P cpus primary e (h_now h) s)"
proof (cases e)
  case (Hb_beat c)
  let ?s = "upd_hb c (\<lambda>h. h \<lparr> ci_heartbeat_count := ci_heartbeat_count (hb_cpus s c) + 1 \<rparr>) s"
  obtain k where k: "k \<le> h_beats h c" "ci_heartbeat_count (hb_cpus s c) - ci_heartbeat_uptime_stamp (hb_cpus s c) = of_nat k"
    using r unfolding hb_rel_def by blast
  then have "ci_heartbeat_count (hb_cpus s c) + 1 - ci_heartbeat_uptime_stamp (hb_cpus s c) = of_nat (k + 1)" by (simp add: algebra_simps)
  then have "hb_rel (hb_note cpus e h) ?s" using r k(1) unfolding hb_rel_def Hb_beat by (auto intro!: exI [of _ "k + 1"])
  moreover have "hb_rel (hb_note cpus e h) s" using r unfolding hb_rel_def Hb_beat by (auto intro: le_SucI)
  ultimately show ?thesis using heartbeat_beats [of cpus primary False "of_nat (h_now h)" c s] unfolding Hb_beat by auto
next
  case (Hb_period m)
  then show ?thesis using r unfolding hb_rel_def by (auto simp: set_max_period_def resume_fold)
qed (use r in \<open>auto simp: hb_rel_def heartbeat_suspend_def heartbeat_resume_def heartbeat_resume_cpu_def heartbeat_intr_def trans_le_add1\<close>)

lemma hb_history_simps [simp]:
  "hb_history P cpus primary [] hs = hs"
  "hb_history P cpus primary (e # es) (h, s) = hb_history P cpus primary es (hb_note cpus e h, hb_run P cpus primary e (h_now h) s)"
  "hb_history P cpus primary (es1 @ es2) hs = hb_history P cpus primary es2 (hb_history P cpus primary es1 hs)"
  by (simp_all add: hb_history_def)

lemma hb_history_rel: "hb_rel h s \<Longrightarrow> hb_history P cpus primary es (h, s) = (h', s') \<Longrightarrow> hb_rel h' s'"
  by (induction es arbitrary: h s) (auto dest: hb_rel_step)

lemma hb_note_now: "h_now (hb_note cpus e h) = h_now h + hb_secs [e]"
  by (cases e) auto

lemma hb_secs_Cons: "hb_secs (e # es) = hb_secs [e] + hb_secs es"
  by (cases e) auto

lemma hb_history_now: "hb_history P cpus primary es (h, s) = (h', s') \<Longrightarrow> h_now h' = h_now h + hb_secs es"
proof (induction es arbitrary: h s)
  case (Cons e es)
  then show ?case using hb_secs_Cons [of e es] hb_note_now [of cpus e h] by fastforce
qed simp

lemma hb_note_susp: "\<bar>h_susp (hb_note cpus e h) c\<bar> \<le> \<bar>h_susp h c\<bar> + 1"
  by (cases e) auto

lemma hb_history_susp: "hb_history P cpus primary es (h, s) = (h', s') \<Longrightarrow> \<bar>h_susp h' c\<bar> \<le> \<bar>h_susp h c\<bar> + int (length es)"
proof (induction es arbitrary: h s)
  case (Cons e es)
  then show ?case using hb_note_susp [of cpus e h c] by fastforce
qed simp

lemma hb_note_life: "h_life h c \<le> h_now h \<Longrightarrow> h_life h c \<le> h_life (hb_note cpus e h) c \<and> h_life (hb_note cpus e h) c \<le> h_now (hb_note cpus e h)"
  by (cases e) auto

lemma hb_history_life: "h_life h c \<le> h_now h \<Longrightarrow> hb_history P cpus primary es (h, s) = (h', s') \<Longrightarrow> h_life h c \<le> h_life h' c"
proof (induction es arbitrary: h s)
  case (Cons e es)
  have l: "h_life h c \<le> h_life (hb_note cpus e h) c" "h_life (hb_note cpus e h) c \<le> h_now (hb_note cpus e h)" using hb_note_life [OF Cons.prems(1)] by auto
  have "h_life (hb_note cpus e h) c \<le> h_life h' c" using Cons.IH [OF l(2)] Cons.prems(2) by simp
  then show ?case using l(1) by simp
qed simp

text \<open>A sign of life counts: the last one is at most as old as the seconds since.\<close>

lemma hb_sign_of_life:
  assumes "hb_history P cpus primary (es1 @ e # es2) (h, s) = (h', s')" "e = Hb_resume c \<or> e = Hb_intr c"
  shows "h_now h' - h_life h' c \<le> hb_secs es2"
proof -
  obtain h1 s1 where 1: "hb_history P cpus primary es1 (h, s) = (h1, s1)" by fastforce
  let ?h = "hb_note cpus e h1"
  have l: "h_life ?h c = h_now ?h" using assms(2) by auto
  have 2: "hb_history P cpus primary es2 (?h, hb_run P cpus primary e (h_now h1) s1) = (h', s')" using assms(1) 1 by simp
  show ?thesis using hb_history_life [OF _ 2, of c] hb_history_now [OF 2] l by simp
qed

lemma hb_start_rel: "hb_start u s \<Longrightarrow> hb_rel (hb_hist0 u s) s"
  by (simp add: hb_start_def hb_rel_def hb_hist0_def)

text \<open>Within 68 years of uptime the 32-bit age of a sign of life is its age.\<close>

lemma hb_age: "a \<le> b \<Longrightarrow> b < 2 ^ 32 \<Longrightarrow> unat (of_nat b - of_nat a :: u32) = b - a"
proof -
  assume ab: "a \<le> b" "b < 2 ^ 32"
  have "of_nat b - of_nat a = (of_nat (b - a) :: u32)" by (rule of_nat_diff [OF ab(1), symmetric])
  moreover have "unat (of_nat (b - a) :: u32) = b - a" unfolding unsigned_of_nat using ab by (simp add: take_bit_nat_eq_self)
  ultimately show ?thesis by (simp only:)
qed

lemma hb_susp_zero: "\<bar>n\<bar> < 2 ^ 32 \<Longrightarrow> (of_int n :: u32) = 0 \<longleftrightarrow> n = 0"
proof
  assume n: "\<bar>n\<bar> < 2 ^ 32" and "(of_int n :: u32) = 0"
  then have "2 ^ 32 dvd n" by (simp add: word_of_int_eq_0_iff)
  then show "n = 0" using n dvd_imp_le_int [of n "2 ^ 32"] by auto
qed simp

lemma hb_age_gt: "a \<le> b \<Longrightarrow> b < 2 ^ 32 \<Longrightarrow> (w < of_nat b - of_nat a) = (unat w < b - a)" for w :: u32
  by (simp only: word_less_nat_alt hb_age)

lemma select_patient_in: "select_patient cpus cur s = Some p \<Longrightarrow> p \<in> set cpus"
proof -
  have "select_patient_loop sus c f b cis = Some x \<Longrightarrow> x \<in> set cis \<or> f = Some x" for sus c f b cis x
    by (induction sus c f b cis rule: select_patient_loop.induct) (auto split: if_splits)
  then show "select_patient cpus cur s = Some p \<Longrightarrow> p \<in> set cpus" unfolding select_patient_def by blast
qed

text \<open>One beat, in terms of what the observer knows.\<close>

definition hb_verdict_ok :: "nat list \<Rightarrow> nat \<Rightarrow> bool \<Rightarrow> nat \<Rightarrow> hb_hist \<Rightarrow> hb_state \<Rightarrow> hb_verdict \<Rightarrow> bool" where
  "hb_verdict_ok cpus primary panicking cur h s v = (case v of
      HB_defibrillate p d \<Rightarrow> p \<in> set cpus \<and> p \<noteq> cur \<and> h_susp h p = 0 \<and> h_susp h cur = 0 \<and>
        unat d = h_now h - h_life h p \<and> unat (h_period h) < h_now h - h_life h p
    | HB_softints_stuck d \<Rightarrow> h_susp h cur = 0 \<and> unat d = h_now h - h_life h cur \<and> unat (h_period h) < h_now h - h_life h cur
    | HB_time_stuck d \<Rightarrow> h_susp h cur = 0 \<and> h_susp h primary = 0 \<and> h_now h = h_life h cur \<and> unat (heartbeat_max_period_ticks s) < h_beats h cur
    | HB_softint \<Rightarrow> h_susp h cur = 0 \<and> h_life h cur < h_now h \<and> h_now h - h_life h cur \<le> unat (h_period h) \<and>
        (\<forall>p. select_patient cpus cur s = Some p \<longrightarrow> h_now h - h_life h p \<le> unat (h_period h))
    | HB_silent \<Rightarrow> heartbeat_max_period_ticks s = 0 \<or> h_period h = 0 \<or> h_susp h cur \<noteq> 0 \<or> panicking \<or> h_now h = h_life h cur)"

lemma heartbeat_verdict:
  assumes r: "hb_rel h s" and now: "h_now h < 2 ^ 31 - 1" and susp: "\<And>c. \<bar>h_susp h c\<bar> < 2 ^ 32"
  shows "hb_verdict_ok cpus primary panicking cur h s (fst (heartbeat cpus primary panicking (of_nat (h_now h)) cur s))"
proof -
  let ?u = "of_nat (h_now h) :: u32"
  let ?s1 = "upd_hb cur (\<lambda>h. h \<lparr> ci_heartbeat_count := ci_heartbeat_count (hb_cpus s cur) + 1 \<rparr>) s"
  have cache: "ci_heartbeat_uptime_cache (hb_cpus s c) = of_nat (h_life h c)" "h_life h c \<le> h_now h" and per: "heartbeat_max_period_secs s = h_period h" for c
    using r by (simp_all add: hb_rel_def)
  have n32: "h_now h < 2 ^ 32" using now by simp
  have s1: "hb_suspended ?s1 = hb_suspended s" by (auto simp: fun_eq_iff hb_suspended_def)
  have f: "ci_heartbeat_uptime_cache (hb_cpus ?s1 c) = of_nat (h_life h c)"
    "ci_heartbeat_uptime_stamp (hb_cpus ?s1 c) = ci_heartbeat_uptime_stamp (hb_cpus s c)"
    "select_patient cpus cur ?s1 = select_patient cpus cur s" "heartbeat_timecounter_suspended primary ?s1 = hb_suspended s primary" for c
    using cache unfolding select_patient_def s1 by (auto simp: hb_suspended_def heartbeat_timecounter_suspended_def)
  have sus: "hb_suspended s c \<longleftrightarrow> h_susp h c \<noteq> 0" for c using r hb_susp_zero [OF susp] by (simp add: hb_suspended_def hb_rel_def)
  note age = hb_age [OF cache(2) n32] and gt = hb_age_gt [OF cache(2) n32]
  have eq: "of_nat (h_life h c) = ?u \<longleftrightarrow> h_now h = h_life h c" for c
    using age [of c] cache(2) [of c] by (metis diff_is_0_eq le_antisym eq_iff_diff_eq_0 unat_0)
  have small: "uint (?u - of_nat (h_life h c)) < UINT_MAX div 2" for c
    using age [of c] now by (simp add: uint_nat) 
  obtain k where k: "k \<le> h_beats h cur" "ci_heartbeat_count (hb_cpus s cur) - ci_heartbeat_uptime_stamp (hb_cpus s cur) = of_nat k"
    using r unfolding hb_rel_def by blast
  have beats: "unat w < h_beats h cur" if "w < (of_nat k :: u32)" for w
  proof -
    have "unat (of_nat k :: u32) \<le> k" unfolding unsigned_of_nat by (simp add: take_bit_nat_less_eq_self)
    then show ?thesis using that k(1) by (simp add: word_less_nat_alt)
  qed
  have pat: "\<not> hb_suspended s p" if "select_patient cpus cur s = Some p" for p
  proof -
    have "select_patient_loop sus c f b cis = Some x \<Longrightarrow> \<not> sus x \<or> f = Some x" for sus c f b cis x
      by (induction sus c f b cis rule: select_patient_loop.induct) (auto split: if_splits)
    then show ?thesis using that unfolding select_patient_def by blast
  qed
  have v: "fst (heartbeat cpus primary panicking ?u cur s) =
    (if heartbeat_max_period_ticks s = 0 \<or> h_period h = 0 \<or> hb_suspended s cur \<or> panicking then HB_silent
     else if of_nat (h_life h cur) = ?u then
       (if heartbeat_max_period_ticks s < of_nat k \<and> \<not> hb_suspended s primary then HB_time_stuck (of_nat k) else HB_silent)
     else if h_period h < ?u - of_nat (h_life h cur) then HB_softints_stuck (?u - of_nat (h_life h cur))
     else case select_patient cpus cur s of None \<Rightarrow> HB_softint
       | Some p \<Rightarrow> if h_period h < ?u - of_nat (h_life h p) \<and> \<not> hb_suspended s p then HB_defibrillate p (?u - of_nat (h_life h p)) else HB_softint)"
    unfolding heartbeat_def Let_def f s1 per k(2) using small by (simp split: option.split)
  show ?thesis unfolding v eq gt sus hb_verdict_ok_def
    using age beats select_patient_in [of cpus cur s] cache(2) [of cur] pat [unfolded sus] by (auto split: option.split)
qed

section \<open>Verdicts\<close>

text \<open>C28: the monitor's verdicts are right about the history. After any history of at most 68 years, a
  beat that has another CPU defibrillated names one that is not suspended and has given no sign of
  life for longer than the period, and no CPU whose soft interrupt ran or that was resumed within
  the period is named, however often it has beaten since; a beat that finds soft interrupts stuck
  is that of a CPU without a sign of life for longer than the period; one that finds time stuck has
  been preceded by more beats than the period allows while the uptime stood still. Conversely a
  beat that passes means that this CPU and the one it watches have given a sign of life within the
  period, and a beat checks nothing only when monitoring is off, suspended, or the second is not
  over.\<close>

theorem heartbeat_verdict_sound:
  assumes "hb_start u s0" "hb_history P cpus primary es (hb_hist0 u s0, s0) = (h, s)" "h_now h < 2 ^ 31 - 1" "length es < 2 ^ 32"
    and "v = fst (heartbeat cpus primary panicking (of_nat (h_now h)) cur s)"
  shows "(case v of
      HB_defibrillate p d \<Rightarrow> p \<in> set cpus \<and> p \<noteq> cur \<and> h_susp h p = 0 \<and> h_susp h cur = 0 \<and>
        unat d = h_now h - h_life h p \<and> unat (h_period h) < h_now h - h_life h p \<and>
        (\<forall>e es1 es2. es = es1 @ e # es2 \<and> (e = Hb_resume p \<or> e = Hb_intr p) \<longrightarrow> unat (h_period h) < hb_secs es2)
    | HB_softints_stuck d \<Rightarrow> h_susp h cur = 0 \<and> unat d = h_now h - h_life h cur \<and> unat (h_period h) < h_now h - h_life h cur
    | HB_time_stuck d \<Rightarrow> h_susp h cur = 0 \<and> h_susp h primary = 0 \<and> h_now h = h_life h cur \<and> unat (heartbeat_max_period_ticks s) < h_beats h cur
    | HB_softint \<Rightarrow> h_susp h cur = 0 \<and> h_life h cur < h_now h \<and> h_now h - h_life h cur \<le> unat (h_period h) \<and>
        (\<forall>p. select_patient cpus cur s = Some p \<longrightarrow> h_now h - h_life h p \<le> unat (h_period h))
    | HB_silent \<Rightarrow> heartbeat_max_period_ticks s = 0 \<or> h_period h = 0 \<or> h_susp h cur \<noteq> 0 \<or> panicking \<or> h_now h = h_life h cur)"
proof -
  have "\<bar>h_susp h c\<bar> < 2 ^ 32" for c using hb_history_susp [OF assms(2), of c] assms(4) by (simp add: hb_hist0_def)
  then have ok: "hb_verdict_ok cpus primary panicking cur h s v"
    unfolding assms(5) by (rule heartbeat_verdict [OF hb_history_rel [OF hb_start_rel [OF assms(1)] assms(2)] assms(3)])
  have "unat (h_period h) < hb_secs es2"
    if "v = HB_defibrillate p d" "es = es1 @ e # es2" "e = Hb_resume p \<or> e = Hb_intr p" for p d e es1 es2
    using hb_sign_of_life [OF assms(2) [unfolded that(2)] that(3)] ok that(1) by (simp add: hb_verdict_ok_def)
  then show ?thesis using ok unfolding hb_verdict_ok_def by (cases v) auto
qed

text \<open>CPU 1 sleeps for sixteen seconds and is resumed; one second later it accuses CPU 2, which never reported.\<close>

lemma heartbeat_verdict_sound_witness:
  "\<forall>P. let (h, s) = hb_history P [0, 1, 2] 0 [Hb_suspend 1, Hb_seconds 16, Hb_resume 1, Hb_seconds 1] (hb_hist0 1 hb_boot, hb_boot)
   in fst (heartbeat [0, 1, 2] 0 False (of_nat (h_now h)) 1 s) = HB_defibrillate 2 17 \<and> h_susp h 2 = 0 \<and> h_now h - h_life h 2 = 17"
proof
  fix P
  let ?es = "[Hb_suspend 1, Hb_seconds 16, Hb_resume 1, Hb_seconds 1]"
  let ?s = "heartbeat_resume 17 1 (heartbeat_suspend 1 hb_boot)"
  obtain h where r: "hb_history P [0, 1, 2] 0 ?es (hb_hist0 1 hb_boot, hb_boot) = (h, ?s)" by (simp add: hb_hist0_def)
  have now: "h_now h = 18" using hb_history_now [OF r] by (simp add: hb_hist0_def)
  have c: "hb_cpus ?s = (hb_cpus hb_boot)(1 := \<lparr> ci_heartbeat_count = 0, ci_heartbeat_uptime_cache = 17, ci_heartbeat_uptime_stamp = 0, ci_heartbeat_suspend = 0 \<rparr>)"
    "heartbeat_max_period_secs ?s = 15" "heartbeat_max_period_ticks ?s = 1500"
    by (simp_all add: heartbeat_suspend_def heartbeat_resume_def heartbeat_resume_cpu_def hb_boot_def)
  have v: "fst (heartbeat [0, 1, 2] 0 False (of_nat (h_now h)) 1 ?s) = HB_defibrillate 2 17"
    unfolding now heartbeat_def Let_def hb_suspended_def select_patient_def upd_hb_sel c by (simp add: hb_boot_def)
  have "hb_start 1 hb_boot" by (simp add: hb_start_def hb_boot_def)
  from heartbeat_verdict_sound [OF this r _ _ refl, where panicking = False and cur = 1]
  show "let (h, s) = hb_history P [0, 1, 2] 0 ?es (hb_hist0 1 hb_boot, hb_boot)
    in fst (heartbeat [0, 1, 2] 0 False (of_nat (h_now h)) 1 s) = HB_defibrillate 2 17 \<and> h_susp h 2 = 0 \<and> h_now h - h_life h 2 = 17"
    unfolding r v Let_def prod.case by (simp add: now)
qed

end
