(* ===== verification/Lapic.thy ===== *)
theory Lapic
  imports Prelude
begin

text \<open>
  The tickless use of the local APIC timer: the accounting arithmetic of
  \<^verbatim>\<open>kernel/arch/x86/x86/lapic_tl.h\<close> and \<^verbatim>\<open>lapic_clockintr\<close>, \<^verbatim>\<open>lapic_oneshot\<close> and
  \<^verbatim>\<open>lapic_oneshot_done\<close> of \<^verbatim>\<open>kernel/arch/x86/x86/lapic.c\<close>. What the code reads from the hardware
  during a call, the timer's pending bit and count and the time stamp counter, is an argument.
\<close>

section \<open>The arithmetic\<close>

definition lapic_tl_counts :: "u64 \<Rightarrow> u64 \<Rightarrow> u64 \<Rightarrow> u64" where
  "lapic_tl_counts tsc_delta tsc_hz lapic_hz =
    (if tsc_hz = 0 then 0
     else
       let whole = tsc_delta div tsc_hz; rest = tsc_delta mod tsc_hz
       in whole * lapic_hz + rest * lapic_hz div tsc_hz)"

definition LAPIC_TL_SLOP :: "u32 \<Rightarrow> u32" where
  "LAPIC_TL_SLOP tval = tval div 1024 + 1"

text \<open>The ticks elapsed, the remainder to carry, and the ticks the caller replays.\<close>

definition lapic_tl_credit :: "u64 \<Rightarrow> u64 \<Rightarrow> u32 \<Rightarrow> bool \<Rightarrow> u32 \<times> u32 \<times> u32" where
  "lapic_tl_credit carried since tval pending =
    (let counted = carried + since;
         counted = (if pending \<and> counted < ucast tval \<and> counted + ucast (LAPIC_TL_SLOP tval) \<ge> ucast tval then ucast tval else counted);
         elapsed = ucast (counted div ucast tval);
         frac = ucast (counted mod ucast tval);
         p = (if pending then 1 else 0);
         manual = (if elapsed > p then elapsed - p else 0)
     in (elapsed, frac, manual))"

section \<open>The timer\<close>

record lapic_conf =
  lapic_tval :: u32
  lapic_per_second :: u32
  cpu_cc_freq :: u64
  ci_index :: nat

record lapic =
  lvt_periodic :: bool
  lapic_icr :: u32
  tl_frac :: u32
  tl_entry_tsc :: u64
  ci_lapic_counter :: u32

record lapic_entry =
  en_irr :: bool
  en_ccr :: u32
  en_t0 :: u64
  en_t1 :: u64

record lapic_exit =
  ex_rem :: u32
  ex_t0 :: u64
  ex_t1 :: u64
  ex_irr :: bool

definition lapic_clockintr :: "lapic_conf \<Rightarrow> lapic \<Rightarrow> lapic" where
  "lapic_clockintr C s = s \<lparr> ci_lapic_counter := ci_lapic_counter s + lapic_tval C \<rparr>"

definition tl_used :: "lapic_conf \<Rightarrow> lapic_entry \<Rightarrow> u32" where
  "tl_used C hw = (if en_ccr hw < lapic_tval C then lapic_tval C - en_ccr hw else 0)"

definition lapic_oneshot :: "platform \<Rightarrow> lapic_conf \<Rightarrow> lapic_entry \<Rightarrow> u32 \<Rightarrow> lapic \<Rightarrow> bool \<times> lapic" where
  "lapic_oneshot P C hw nticks s =
    (if en_irr hw then (False, s)
     else
       let s = (if ci_index C < MAXCPUS P
                then s \<lparr> tl_entry_tsc := en_t0 hw + (en_t1 hw - en_t0 hw) div 2, tl_frac := tl_frac s + tl_used C hw \<rparr>
                else s);
           count = ucast (lapic_tval C) * ucast nticks :: u64;
           count = (if count = 0 then 1 else count);
           count = (if count > 0xffffffff then 0xffffffff else count)
       in (True, s \<lparr> lvt_periodic := False, lapic_icr := ucast count \<rparr>))"

definition tl_since :: "platform \<Rightarrow> lapic_conf \<Rightarrow> lapic_exit \<Rightarrow> u32 \<Rightarrow> lapic \<Rightarrow> u64" where
  "tl_since P C hw nticks s =
    (if cpu_cc_freq C \<noteq> 0 \<and> ci_index C < MAXCPUS P
     then lapic_tl_counts (ex_t0 hw + (ex_t1 hw - ex_t0 hw) div 2 - tl_entry_tsc s) (cpu_cc_freq C) (ucast (lapic_per_second C))
     else
       let counted = ucast (lapic_tval C) * ucast nticks
       in if ex_irr hw then counted else if ucast (ex_rem hw) \<le> counted then counted - ucast (ex_rem hw) else 0)"

text \<open>The ticks elapsed and whether a timer interrupt is pending.\<close>

definition lapic_oneshot_done :: "platform \<Rightarrow> lapic_conf \<Rightarrow> lapic_exit \<Rightarrow> u32 \<Rightarrow> lapic \<Rightarrow> u32 \<times> bool \<times> lapic" where
  "lapic_oneshot_done P C hw nticks s =
    (let s = s \<lparr> lvt_periodic := True, lapic_icr := lapic_tval C \<rparr>;
         pending = ex_irr hw;
         carried = (if ci_index C < MAXCPUS P then tl_frac s else 0);
         since = tl_since P C hw nticks s;
         (elapsed, frac, manual) = lapic_tl_credit (ucast carried) since (lapic_tval C) pending;
         s = (if ci_index C < MAXCPUS P then s \<lparr> tl_frac := frac \<rparr> else s)
     in (elapsed, pending, s \<lparr> ci_lapic_counter := ci_lapic_counter s + ucast (ucast manual * ucast (lapic_tval C) :: u64) \<rparr>))"

section \<open>Exactness\<close>

lemma counts_exact_nat:
  fixes d H L :: nat
  assumes "0 < H"
  shows "d div H * L + d mod H * L div H = d * L div H"
proof -
  have "d * L = d mod H * L + d div H * L * H" by (metis add.commute distrib_right div_mult_mod_eq mult.assoc mult.commute)
  then show ?thesis using assms by simp
qed

lemma tl_counts_val:
  assumes H: "tsc_hz \<noteq> 0" and fit: "unat tsc_hz * unat lapic_hz < 2 ^ 64" "unat tsc_delta * unat lapic_hz div unat tsc_hz < 2 ^ 64"
  shows "unat (lapic_tl_counts tsc_delta tsc_hz lapic_hz) = unat tsc_delta * unat lapic_hz div unat tsc_hz"
proof -
  let ?d = "unat tsc_delta" and ?H = "unat tsc_hz" and ?L = "unat lapic_hz"
  have pos: "0 < ?H" using H by (simp add: unat_gt_0)
  note E = counts_exact_nat [OF pos, of ?d ?L]
  have "?d mod ?H * ?L \<le> ?H * ?L" using pos by (intro mult_right_mono) (simp_all add: less_imp_le)
  then have "?d mod ?H * ?L < 2 ^ 64" using fit(1) by (rule order.strict_trans1)
  then have r: "unat (tsc_delta mod tsc_hz * lapic_hz) = ?d mod ?H * ?L" by (simp add: unat_word_ariths(2) unat_mod)
  have "?d div ?H * ?L < 2 ^ 64" using fit(2) E by simp
  then have w: "unat (tsc_delta div tsc_hz * lapic_hz) = ?d div ?H * ?L" by (simp add: unat_word_ariths(2) unat_div)
  show ?thesis
    using H fit(2) E by (simp add: lapic_tl_counts_def Let_def unat_word_ariths(1) w unat_div r)
qed

lemma tl_credit_val:
  assumes t: "0 < tval" and small: "unat carried + unat since < 2 ^ 32 * unat tval" "unat carried + unat since < 2 ^ 64"
    and r: "lapic_tl_credit carried since tval pending = (elapsed, frac, manual)"
  shows "\<exists>rounded. unat elapsed * unat tval + unat frac = unat carried + unat since + rounded \<and> rounded \<le> unat (LAPIC_TL_SLOP tval) \<and>
      (rounded \<noteq> 0 \<longrightarrow> pending \<and> elapsed = 1 \<and> frac = 0)"
    "unat frac < unat tval" "unat elapsed = unat manual + (if pending \<and> elapsed \<noteq> 0 then 1 else 0)"
proof -
  let ?c = "carried + since" and ?t = "ucast tval :: u64"
  let ?round = "pending \<and> ?c < ?t \<and> ?c + ucast (LAPIC_TL_SLOP tval) \<ge> ?t"
  define k where "k = (if ?round then ?t else ?c)"
  have u: "unat (ucast (v :: u32) :: u64) = unat v" for v
    unfolding unsigned_ucast_eq using unat_u32 [of v] by (intro take_bit_nat_eq_self) simp
  have tp: "0 < unat tval" using t by (simp add: unat_gt_0 word_neq_0_conv)
  have c: "unat ?c = unat carried + unat since" using small(2) by (simp add: unat_word_ariths(1))
  have k: "unat k < 2 ^ 32 * unat tval" using small(1) tp by (simp add: k_def c u)
  have "unat k div unat tval < 2 ^ 32" using k by (simp add: less_mult_imp_div_less mult.commute)
  then have e: "unat (ucast (k div ?t) :: u32) = unat k div unat tval"
    unfolding unsigned_ucast_eq by (simp only: unat_div u) (intro take_bit_nat_eq_self, simp)
  have "unat k mod unat tval < unat tval" using tp by (rule mod_less_divisor)
  then have "unat k mod unat tval < 2 ^ 32" using unat_u32 [of tval] by simp
  then have f: "unat (ucast (k mod ?t) :: u32) = unat k mod unat tval"
    unfolding unsigned_ucast_eq by (simp only: unat_mod u) (intro take_bit_nat_eq_self, simp)
  have el: "unat elapsed = unat k div unat tval" "unat frac = unat k mod unat tval"
    and man: "manual = (if elapsed > (if pending then 1 else 0) then elapsed - (if pending then 1 else 0) else 0)"
    using r e f unfolding lapic_tl_credit_def Let_def k_def by auto
  show "unat frac < unat tval" unfolding el(2) using tp by (rule mod_less_divisor)
  have split: "unat elapsed * unat tval + unat frac = unat k" unfolding el by simp
  show "\<exists>rounded. unat elapsed * unat tval + unat frac = unat carried + unat since + rounded \<and> rounded \<le> unat (LAPIC_TL_SLOP tval) \<and>
      (rounded \<noteq> 0 \<longrightarrow> pending \<and> elapsed = 1 \<and> frac = 0)"
  proof (cases ?round)
    case True
    then have kt: "k = ?t" unfolding k_def by (rule if_P)
    have "unat ?c < unat tval" using True by (simp add: word_less_nat_alt u)
    moreover have "unat (?c + ucast (LAPIC_TL_SLOP tval)) = unat ?c + unat (LAPIC_TL_SLOP tval)"
      using calculation unat_u32 [of tval] unat_u32 [of "LAPIC_TL_SLOP tval"] by (subst unat_word_ariths(1)) (simp add: u)
    ultimately have "unat tval - unat ?c \<le> unat (LAPIC_TL_SLOP tval)" "unat ?c \<le> unat tval"
      using True by (auto simp: word_le_nat_alt u le_diff_conv)
    moreover have "unat elapsed = 1" "unat frac = 0" using tp unfolding el kt by (simp_all add: u)
    ultimately show ?thesis using True split c kt
      by (intro exI [of _ "unat tval - unat ?c"]) (simp add: u word_unat_eq_iff)
  next
    case False
    then have "k = ?c" unfolding k_def by (rule if_not_P)
    then show ?thesis using split c by (intro exI [of _ 0]) simp
  qed
  have "elapsed > 1 \<Longrightarrow> unat (elapsed - 1) = unat elapsed - 1" "elapsed > 1 \<longleftrightarrow> 1 < unat elapsed" "elapsed > 0 \<longleftrightarrow> elapsed \<noteq> 0"
    by (simp_all add: unat_sub_if' word_less_nat_alt unat_gt_0)
  moreover have "unat elapsed = 0 \<longleftrightarrow> elapsed = 0" by (simp add: word_unat_eq_iff)
  ultimately show "unat elapsed = unat manual + (if pending \<and> elapsed \<noteq> 0 then 1 else 0)" unfolding man by (cases pending; cases "unat elapsed") auto
qed

section \<open>A run of sleeps\<close>

text \<open>
  One idle period: the one-shot is armed, unless a timer interrupt is pending, and accounted for
  when the CPU wakes up. The result is the number of ticks credited, the time the code measured
  in timer counts, and whether an interrupt was pending at the end.
\<close>

record tl_sleep =
  sl_entry :: lapic_entry
  sl_exit :: lapic_exit
  sl_nticks :: u32

record tl_total =
  tot_ticks :: nat
  tot_measured :: nat
  tot_pending :: nat

definition tl_sleep_step :: "platform \<Rightarrow> lapic_conf \<Rightarrow> tl_sleep \<Rightarrow> tl_total \<times> lapic \<Rightarrow> tl_total \<times> lapic" where
  "tl_sleep_step P C sl ts =
    (case ts of (tot, s) \<Rightarrow>
       case lapic_oneshot P C (sl_entry sl) (sl_nticks sl) s of
         (False, s) \<Rightarrow> (tot, s)
       | (True, s) \<Rightarrow>
           (case lapic_oneshot_done P C (sl_exit sl) (sl_nticks sl) s of
              (elapsed, pending, s') \<Rightarrow>
                (\<lparr> tot_ticks = tot_ticks tot + unat elapsed,
                   tot_measured = tot_measured tot + unat (tl_used C (sl_entry sl)) + unat (tl_since P C (sl_exit sl) (sl_nticks sl) s),
                   tot_pending = tot_pending tot + (if pending then 1 else 0) \<rparr>, s')))"

text \<open>No sleep is measured longer than the 32-bit tick count can hold.\<close>

definition tl_short :: "platform \<Rightarrow> lapic_conf \<Rightarrow> tl_sleep \<Rightarrow> bool" where
  "tl_short P C sl \<longleftrightarrow>
    (\<forall>s. \<not> en_irr (sl_entry sl) \<longrightarrow> unat (tl_since P C (sl_exit sl) (sl_nticks sl) (snd (lapic_oneshot P C (sl_entry sl) (sl_nticks sl) s))) + 2 * unat (lapic_tval C)
       \<le> 2 ^ 32 * unat (lapic_tval C))"

lemma tl_used_le: "unat (tl_used C hw) \<le> unat (lapic_tval C)"
  by (simp add: tl_used_def unat_sub_if' word_less_nat_alt)

lemma oneshot_accepts:
  assumes "\<not> en_irr hw" "ci_index C < MAXCPUS P"
  shows "fst (lapic_oneshot P C hw n s)" "tl_frac (snd (lapic_oneshot P C hw n s)) = tl_frac s + tl_used C hw"
  using assms by (simp_all add: lapic_oneshot_def Let_def)

lemma done_credits:
  assumes "ci_index C < MAXCPUS P" "lapic_oneshot_done P C hw n s = (elapsed, pending, s')"
  obtains manual where "lapic_tl_credit (ucast (tl_frac s)) (tl_since P C hw n s) (lapic_tval C) (ex_irr hw) = (elapsed, tl_frac s', manual)"
    "pending = ex_irr hw" "ci_lapic_counter s' = ci_lapic_counter s + ucast (ucast manual * ucast (lapic_tval C) :: u64)"
    "lvt_periodic s'" "lapic_icr s' = lapic_tval C"
proof -
  have "tl_since P C hw n (s \<lparr> lvt_periodic := True, lapic_icr := lapic_tval C \<rparr>) = tl_since P C hw n s" by (simp add: tl_since_def)
  then show ?thesis using assms that by (auto simp: lapic_oneshot_done_def Let_def split: prod.splits)
qed

lemma tl_sleep_exact:
  assumes C: "0 < lapic_tval C" "unat (lapic_tval C) < 2 ^ 31" "ci_index C < MAXCPUS P" and sl: "tl_short P C sl"
    and f: "unat (tl_frac s) < unat (lapic_tval C)" and r: "tl_sleep_step P C sl (tot, s) = (tot', s')"
  shows "unat (tl_frac s') < unat (lapic_tval C) \<and> tot_pending tot \<le> tot_pending tot' \<and>
    (\<exists>rounded\<le>(tot_pending tot' - tot_pending tot) * unat (LAPIC_TL_SLOP (lapic_tval C)).
      tot_ticks tot' * unat (lapic_tval C) + unat (tl_frac s') + tot_measured tot =
      tot_ticks tot * unat (lapic_tval C) + unat (tl_frac s) + tot_measured tot' + rounded)"
proof (cases "en_irr (sl_entry sl)")
  case True
  then show ?thesis using r f by (simp add: tl_sleep_step_def lapic_oneshot_def)
next
  case False
  let ?hw = "sl_entry sl" and ?n = "sl_nticks sl" and ?t = "unat (lapic_tval C)"
  let ?s1 = "snd (lapic_oneshot P C ?hw ?n s)"
  let ?since = "tl_since P C (sl_exit sl) ?n ?s1"
  obtain elapsed pending s2 where d: "lapic_oneshot_done P C (sl_exit sl) ?n ?s1 = (elapsed, pending, s2)"
    by (cases "lapic_oneshot_done P C (sl_exit sl) ?n ?s1")
  note O = oneshot_accepts [OF False C(3), of ?n s]
  obtain manual where m: "lapic_tl_credit (ucast (tl_frac ?s1)) ?since (lapic_tval C) (ex_irr (sl_exit sl)) = (elapsed, tl_frac s2, manual)"
    "pending = ex_irr (sl_exit sl)" using done_credits [OF C(3) d] by blast
  have u: "unat (ucast (tl_frac ?s1) :: u64) = unat (tl_frac ?s1)"
    unfolding unsigned_ucast_eq using unat_u32 [of "tl_frac ?s1"] by (intro take_bit_nat_eq_self) simp
  have fr: "unat (tl_frac ?s1) = unat (tl_frac s) + unat (tl_used C ?hw)"
    unfolding O(2) using f C(2) tl_used_le [of C ?hw] by (subst unat_word_ariths(1)) simp
  have short: "unat ?since + 2 * ?t \<le> 2 ^ 32 * ?t" using sl False unfolding tl_short_def by blast
  have lt: "unat (tl_frac ?s1) + unat ?since < 2 ^ 32 * ?t" using short f tl_used_le [of C ?hw] unfolding fr by linarith
  have lt64: "unat (tl_frac ?s1) + unat ?since < 2 ^ 64" using lt C(2) by simp
  note cr = tl_credit_val [OF C(1) lt [folded u] lt64 [folded u] m(1)]
  obtain rounded where rd: "unat elapsed * ?t + unat (tl_frac s2) = unat (tl_frac ?s1) + unat ?since + rounded"
    "rounded \<le> unat (LAPIC_TL_SLOP (lapic_tval C))" "rounded \<noteq> 0 \<longrightarrow> pending" using cr(1) unfolding u m(2) by blast
  have e: "s' = s2" "tot_ticks tot' = tot_ticks tot + unat elapsed" "tot_pending tot' = tot_pending tot + (if pending then 1 else 0)"
    "tot_measured tot' = tot_measured tot + unat (tl_used C ?hw) + unat ?since"
    using r O(1) d by (auto simp: tl_sleep_step_def split: prod.splits bool.splits)
  show ?thesis using rd cr(2) fr unfolding e by (auto simp: algebra_simps intro!: exI [of _ rounded])
qed

lemma tl_sleeps_exact:
  assumes C: "0 < lapic_tval C" "unat (lapic_tval C) < 2 ^ 31" "ci_index C < MAXCPUS P" and sls: "\<And>sl. sl \<in> set sls \<Longrightarrow> tl_short P C sl"
    and f: "unat (tl_frac s) < unat (lapic_tval C)" and r: "fold (tl_sleep_step P C) sls (tot, s) = (tot', s')"
  shows "unat (tl_frac s') < unat (lapic_tval C) \<and> tot_pending tot \<le> tot_pending tot' \<and>
    (\<exists>rounded\<le>(tot_pending tot' - tot_pending tot) * unat (LAPIC_TL_SLOP (lapic_tval C)).
      tot_ticks tot' * unat (lapic_tval C) + unat (tl_frac s') + tot_measured tot =
      tot_ticks tot * unat (lapic_tval C) + unat (tl_frac s) + tot_measured tot' + rounded)"
  using sls f r
proof (induction sls arbitrary: tot s)
  case (Cons sl sls)
  let ?slop = "unat (LAPIC_TL_SLOP (lapic_tval C))"
  obtain tot1 s1 where 1: "tl_sleep_step P C sl (tot, s) = (tot1, s1)" by (cases "tl_sleep_step P C sl (tot, s)")
  have short: "tl_short P C sl" using Cons.prems(1) by simp
  obtain r1 where A: "unat (tl_frac s1) < unat (lapic_tval C)" "tot_pending tot \<le> tot_pending tot1" "r1 \<le> (tot_pending tot1 - tot_pending tot) * ?slop"
    "tot_ticks tot1 * unat (lapic_tval C) + unat (tl_frac s1) + tot_measured tot = tot_ticks tot * unat (lapic_tval C) + unat (tl_frac s) + tot_measured tot1 + r1"
    using tl_sleep_exact [OF C short Cons.prems(2) 1] by blast
  have "fold (tl_sleep_step P C) sls (tot1, s1) = (tot', s')" using Cons.prems(3) 1 by simp
  from Cons.IH [OF Cons.prems(1) A(1) this] obtain r2 where B: "unat (tl_frac s') < unat (lapic_tval C)" "tot_pending tot1 \<le> tot_pending tot'"
    "r2 \<le> (tot_pending tot' - tot_pending tot1) * ?slop"
    "tot_ticks tot' * unat (lapic_tval C) + unat (tl_frac s') + tot_measured tot1 = tot_ticks tot1 * unat (lapic_tval C) + unat (tl_frac s1) + tot_measured tot' + r2"
    by auto
  have "tot_pending tot' - tot_pending tot = (tot_pending tot1 - tot_pending tot) + (tot_pending tot' - tot_pending tot1)" using A(2) B(2) by simp
  then have "r1 + r2 \<le> (tot_pending tot' - tot_pending tot) * ?slop" using A(3) B(3) by (simp only: distrib_right add_mono)
  then show ?case using A(2,4) B(1,2,4) by (intro conjI exI [of _ "r1 + r2"]) simp_all
qed simp

section \<open>Properties\<close>

text \<open>C22: the conversion of time stamp counts to timer counts is exact: it is the product divided by
  the time stamp frequency, rounded down, although the code never forms the full product.\<close>

theorem lapic_tl_counts_exact:
  assumes "tsc_hz \<noteq> 0" "unat tsc_hz * unat lapic_hz < 2 ^ 64" "unat tsc_delta * unat lapic_hz div unat tsc_hz < 2 ^ 64"
  shows "unat (lapic_tl_counts tsc_delta tsc_hz lapic_hz) = unat tsc_delta * unat lapic_hz div unat tsc_hz"
  by (rule tl_counts_val [OF assms])

lemma lapic_tl_counts_exact_witness:
  "unat (lapic_tl_counts 0x1000000000000 2112000000 38400000) = 0x1000000000000 * 38400000 div 2112000000"
  using lapic_tl_counts_exact [of 2112000000 38400000 "0x1000000000000"] by simp

text \<open>C21: tickless idle keeps the rate of the clock. Over any run of idle sleeps, the ticks credited
  and the remainder carried amount to exactly the time measured, plus at most the small rounding
  allowance for each sleep that ended with a pending timer interrupt; the remainder always stays
  below one tick.\<close>

theorem lapic_ticks_rate_exact:
  assumes "0 < lapic_tval C" "unat (lapic_tval C) < 2 ^ 31" "ci_index C < MAXCPUS P" "list_all (tl_short P C) sls"
    and "unat (tl_frac s) < unat (lapic_tval C)"
    and "fold (tl_sleep_step P C) sls (\<lparr> tot_ticks = 0, tot_measured = 0, tot_pending = 0 \<rparr>, s) = (tot, s')"
  shows "\<exists>rounded \<le> tot_pending tot * unat (LAPIC_TL_SLOP (lapic_tval C)).
      tot_ticks tot * unat (lapic_tval C) + unat (tl_frac s') = unat (tl_frac s) + tot_measured tot + rounded \<and>
      unat (tl_frac s') < unat (lapic_tval C)"
  using tl_sleeps_exact [OF assms(1-3) _ assms(5,6)] assms(4) by (fastforce simp: list_all_iff)

definition sample_lapic_conf :: lapic_conf where
  "sample_lapic_conf = \<lparr> lapic_tval = 384000, lapic_per_second = 38400000, cpu_cc_freq = 2112000000, ci_index = 0 \<rparr>"

definition sample_sleep :: tl_sleep where
  "sample_sleep = \<lparr> sl_entry = \<lparr> en_irr = False, en_ccr = 184000, en_t0 = 1000, en_t1 = 1000 \<rparr>,
    sl_exit = \<lparr> ex_rem = 0, ex_t0 = 2112001000, ex_t1 = 2112001000, ex_irr = False \<rparr>, sl_nticks = 200 \<rparr>"

lemma lapic_ticks_rate_exact_witness:
  "let P = \<lparr> fls64 = \<lambda>_. 0, MAXCPUS = 8, cpu_frequency = \<lambda>_. 0, hz = 100, mstohz = id \<rparr>;
       s = \<lparr> lvt_periodic = True, lapic_icr = 384000, tl_frac = 7, tl_entry_tsc = 0, ci_lapic_counter = 0 \<rparr>;
       r = fold (tl_sleep_step P sample_lapic_conf) [sample_sleep, sample_sleep] (\<lparr> tot_ticks = 0, tot_measured = 0, tot_pending = 0 \<rparr>, s)
   in \<exists>rounded \<le> tot_pending (fst r) * 376. tot_ticks (fst r) * 384000 + unat (tl_frac (snd r)) = 7 + tot_measured (fst r) + rounded"
proof -
  let ?P = "\<lparr> fls64 = \<lambda>_. 0, MAXCPUS = 8, cpu_frequency = \<lambda>_. 0, hz = 100, mstohz = id \<rparr> :: platform"
  let ?s = "\<lparr> lvt_periodic = True, lapic_icr = 384000, tl_frac = 7, tl_entry_tsc = 0, ci_lapic_counter = 0 \<rparr> :: lapic"
  have "tl_short ?P sample_lapic_conf sample_sleep"
    by (simp add: tl_short_def sample_sleep_def sample_lapic_conf_def lapic_oneshot_def tl_since_def lapic_tl_counts_def Let_def)
  then show ?thesis
    using lapic_ticks_rate_exact [of sample_lapic_conf ?P "[sample_sleep, sample_sleep]" ?s, OF _ _ _ _ _ surjective_pairing]
    by (auto simp: sample_lapic_conf_def LAPIC_TL_SLOP_def Let_def)
qed

end
