(* ===== verification/Clock.thy ===== *)
theory Clock
  imports Callout_Clock Timecounter Heartbeat Lapic
begin

text \<open>
  The clock interrupt, \<^verbatim>\<open>hardclock\<close> of \<^verbatim>\<open>kernel/kern/kern_clock.c\<close>: it winds up the time hands on
  the primary CPU, runs the heartbeat check and advances the callout wheel. The process timers,
  the statistics clock, the scheduler's tick and the shutdown deadline are the functions of the
  environment \<open>clock_env\<close>; \<open>clock_frame\<close> says that they leave the state of the components
  modelled here alone.
\<close>

section \<open>The interrupt\<close>

record 'n ksys =
  ks_co :: callouts
  ks_hb :: hb_state
  ks_tk :: "'n timekeeping"
  ks_tl :: "nat \<Rightarrow> lapic"
  hardclock_ticks :: u32
  spc_ticks :: "nat \<Rightarrow> int"
  spc_schedticks :: "nat \<Rightarrow> int"

record 'n clock_env =
  env_shutdown_tick :: "'n ksys \<Rightarrow> 'n ksys"
  env_ptimer_tick :: "'n ksys \<Rightarrow> 'n ksys"
  env_statclock :: "'n ksys \<Rightarrow> 'n ksys"
  env_schedclock :: "'n ksys \<Rightarrow> 'n ksys"
  env_sched_tick :: "'n ksys \<Rightarrow> 'n ksys"
  env_timelib :: timelib
  env_ntp :: "'n ntp"
  stathz :: int
  schedhz :: int
  hardscheddiv :: int
  tc_tick :: int
  env_cpus :: "nat list"
  env_primary :: nat

definition clock_keeps :: "('n ksys \<Rightarrow> 'n ksys) \<Rightarrow> bool" where
  "clock_keeps f \<longleftrightarrow> (\<forall>s. ks_co (f s) = ks_co s \<and> ks_hb (f s) = ks_hb s \<and> ks_tk (f s) = ks_tk s \<and> ks_tl (f s) = ks_tl s)"

definition clock_frame :: "'n clock_env \<Rightarrow> bool" where
  "clock_frame E \<longleftrightarrow> clock_keeps (env_shutdown_tick E) \<and> clock_keeps (env_ptimer_tick E) \<and> clock_keeps (env_statclock E) \<and>
    clock_keeps (env_schedclock E) \<and> clock_keeps (env_sched_tick E)"

definition uptime32 :: "'n ksys \<Rightarrow> u32" where
  "uptime32 s = ucast (time__uptime (ks_tk s))"

definition hardclock_sched :: "'n clock_env \<Rightarrow> nat \<Rightarrow> 'n ksys \<Rightarrow> 'n ksys" where
  "hardclock_sched E cur s =
    (let s = (if stathz E = 0 then env_statclock E s else s);
         s = (if schedhz E = 0
              then let s = s \<lparr> spc_schedticks := (spc_schedticks s)(cur := spc_schedticks s cur - 1) \<rparr>
                   in if spc_schedticks s cur \<le> 0
                      then let s = env_schedclock E s in s \<lparr> spc_schedticks := (spc_schedticks s)(cur := hardscheddiv E) \<rparr>
                      else s
              else s);
         s = s \<lparr> spc_ticks := (spc_ticks s)(cur := spc_ticks s cur - 1) \<rparr>
     in if spc_ticks s cur \<le> 0 then env_sched_tick E s else s)"

text \<open>
  The result is the heartbeat's verdict, whether the callout soft interrupt is scheduled, and the
  state. A verdict that panics on this CPU ends the interrupt there.
\<close>

definition hardclock :: "'n clock_env \<Rightarrow> bool \<Rightarrow> bool \<Rightarrow> (nat \<Rightarrow> u32) \<Rightarrow> nat \<Rightarrow> 'n ksys \<Rightarrow> hb_verdict \<times> bool \<times> 'n ksys" where
  "hardclock E late panicking rd cur s =
    (let s = (if late then env_shutdown_tick E s else s);
         s = hardclock_sched E cur (env_ptimer_tick E s);
         s = (if cur = env_primary E
              then s \<lparr> hardclock_ticks := hardclock_ticks s + 1,
                       ks_tk := tc_ticktock (env_timelib E) (env_ntp E) rd (tc_tick E) (ks_tk s) \<rparr>
              else s);
         (v, hb) = heartbeat (env_cpus E) (env_primary E) panicking (uptime32 s) cur (ks_hb s);
         s = s \<lparr> ks_hb := hb \<rparr>
     in case v of
          HB_time_stuck d \<Rightarrow> (v, False, s)
        | HB_softints_stuck d \<Rightarrow> (v, False, s)
        | _ \<Rightarrow> (let (soft, co) = callout_hardclock cur (ks_co s) in (v, soft, s \<lparr> ks_co := co \<rparr>)))"

section \<open>What a tick does to the components\<close>

lemma clock_keepsD: "clock_keeps f \<Longrightarrow> ks_co (f s) = ks_co s" "clock_keeps f \<Longrightarrow> ks_hb (f s) = ks_hb s"
  "clock_keeps f \<Longrightarrow> ks_tk (f s) = ks_tk s" "clock_keeps f \<Longrightarrow> ks_tl (f s) = ks_tl s"
  by (simp_all add: clock_keeps_def)

lemma sched_keeps: "clock_frame E \<Longrightarrow> clock_keeps (hardclock_sched E cur)"
  by (simp add: clock_frame_def clock_keeps_def hardclock_sched_def Let_def)

lemma hardclock_suspended:
  assumes E: "clock_frame E" and sus: "hb_suspended (ks_hb s) cur" and r: "hardclock E late panicking rd cur s = (v, soft, s')"
  shows "v = HB_silent" "ks_hb s' = ks_hb s" "callout_hardclock cur (ks_co s) = (soft, ks_co s')" "ks_tl s' = ks_tl s"
proof -
  let ?s1 = "if late then env_shutdown_tick E s else s"
  let ?s2 = "hardclock_sched E cur (env_ptimer_tick E ?s1)"
  have e: "ks_co ?s2 = ks_co s" "ks_hb ?s2 = ks_hb s" "ks_tl ?s2 = ks_tl s"
    using E sched_keeps [OF E, of cur] by (auto simp: clock_frame_def clock_keeps_def)
  have hb: "heartbeat cpus primary p u cur (ks_hb s) = (HB_silent, ks_hb s)" for cpus primary p u
    using sus by (simp add: heartbeat_def Let_def)
  have "v = HB_silent \<and> ks_hb s' = ks_hb s \<and> callout_hardclock cur (ks_co s) = (soft, ks_co s') \<and> ks_tl s' = ks_tl s"
    using r e hb by (auto simp: hardclock_def Let_def split: prod.splits if_splits)
  then show "v = HB_silent" "ks_hb s' = ks_hb s" "callout_hardclock cur (ks_co s) = (soft, ks_co s')" "ks_tl s' = ks_tl s" by simp_all
qed

section \<open>Many ticks in a row\<close>

text \<open>\<open>n\<close> clock ticks on the callouts.\<close>

definition co_ticks :: "nat \<Rightarrow> nat \<Rightarrow> callouts \<Rightarrow> callouts" where
  "co_ticks cur n = ((\<lambda>s. snd (callout_hardclock cur s)) ^^ n)"

text \<open>The worklist and a valid cached deadline are at most \<open>j\<close> ticks in the past.\<close>

definition co_fresh :: "int \<Rightarrow> nat \<Rightarrow> callouts \<Rightarrow> bool" where
  "co_fresh j cur s \<longleftrightarrow> (\<forall>c\<in>set (cc_todo (co_cpu s cur)). - j \<le> due_in (co_tab s) (co_cpu s cur) c) \<and>
    (cc_next_gen (co_cpu s cur) = callout_next_gen s \<and> \<not> cc_next_none (co_cpu s cur) \<longrightarrow> - j \<le> next_in (co_cpu s cur))"

lemma hardclock_frames:
  "co_tab (snd (callout_hardclock cur s)) = co_tab s" "callout_next_gen (snd (callout_hardclock cur s)) = callout_next_gen s"
  "co_cpu (snd (callout_hardclock cur s)) = (co_cpu s)(cur := hardclock_cc (co_cpu s cur))"
  by (simp_all add: callout_hardclock_def Let_def)

lemma tick_fresh:
  assumes inv: "co_inv s" and f: "co_fresh j cur s" "0 \<le> j" "j < 2 ^ 30"
  shows "co_inv (snd (callout_hardclock cur s))" "co_fresh (j + 1) cur (snd (callout_hardclock cur s))"
proof -
  let ?s' = "snd (callout_hardclock cur s)" and ?cc = "co_cpu s cur" and ?cd = "hardclock_cc (co_cpu s cur)"
  note D = cpu_okD [OF co_invD [OF inv, of cur]]
  have rec: "cc_recent (callout_next_gen s) (co_tab s) ?cc" using f unfolding cc_recent_def co_fresh_def by force
  show inv': "co_inv ?s'" by (rule hardclock_inv [OF inv rec])
  have Q: "placed ?cd = placed ?cc" "cc_ticks ?cd = cc_ticks ?cc + 1" using hardclock_cc_queues [OF D(1)] by auto
  have lo: "- j \<le> due_in (co_tab s) ?cc c" if pl: "c \<in> placed ?cc" for c
  proof (cases "c \<in> set (cc_todo ?cc)")
    case True
    then show ?thesis using f(1) unfolding co_fresh_def by blast
  next
    case False
    then obtain b where "c \<in> set (cc_wheel ?cc b)" using pl by (auto simp: placed_def)
    then have "1 \<le> due_in (co_tab s) ?cc c" using D(2) order_trans [OF drain_dist_pos] unfolding wheel_ok_def by blast
    then show ?thesis using f(2) by simp
  qed
  have "- (j + 1) \<le> due_in (co_tab s) ?cd c" if "c \<in> set (cc_todo ?cd)" for c
  proof -
    have c: "c \<in> placed ?cc" using placedI(1) [OF that] Q(1) by simp
    have "due_in (co_tab s) ?cd c = sint (c_time (co_tab s c) - cc_ticks ?cc - 1)" unfolding due_in_def Q(2) by (simp add: algebra_simps)
    also have "\<dots> = due_in (co_tab s) ?cc c - 1"
      using lo [OF c] co_inv_due [OF inv c] f(3) unfolding due_in_def by (intro sint_minus_1) simp_all
    finally show ?thesis using lo [OF c] by simp
  qed
  moreover have "- (j + 1) \<le> next_in ?cd" if g: "cc_next_gen ?cc = callout_next_gen s" "\<not> cc_next_none ?cc"
  proof -
    have n: "- j \<le> next_in ?cc" "next_in ?cc \<le> CALLOUT_NO_NEXT" using f(1) D(3) g unfolding co_fresh_def next_ok_def by blast+
    have "next_in ?cd = sint (cc_next_time ?cc - cc_ticks ?cc - 1)" unfolding next_in_def Q(2) hardclock_next by (simp add: algebra_simps)
    also have "\<dots> = next_in ?cc - 1" using n f(3) unfolding next_in_def by (intro sint_minus_1) simp_all
    finally show ?thesis using n by simp
  qed
  ultimately show "co_fresh (j + 1) cur ?s'" unfolding co_fresh_def hardclock_frames by (simp add: hardclock_next)
qed

lemma ticks_fresh:
  assumes "co_inv s" "co_fresh j cur s" "0 \<le> j" "j + int n \<le> 2 ^ 30"
  shows "co_inv (co_ticks cur n s) \<and> co_fresh (j + int n) cur (co_ticks cur n s) \<and>
    cc_ticks (co_cpu (co_ticks cur n s) cur) = cc_ticks (co_cpu s cur) + of_nat n \<and> co_tab (co_ticks cur n s) = co_tab s"
  using assms
proof (induction n)
  case (Suc n)
  let ?t = "co_ticks cur n s"
  have IH: "co_inv ?t" "co_fresh (j + int n) cur ?t" "cc_ticks (co_cpu ?t cur) = cc_ticks (co_cpu s cur) + of_nat n" "co_tab ?t = co_tab s"
    using Suc by simp_all
  have e: "co_ticks cur (Suc n) s = snd (callout_hardclock cur ?t)" by (simp add: co_ticks_def)
  have q: "cc_ticks (hardclock_cc (co_cpu ?t cur)) = cc_ticks (co_cpu ?t cur) + 1"
    using hardclock_cc_queues [OF cpu_okD(1) [OF co_invD [OF IH(1)]]] by simp
  show ?case using tick_fresh [OF IH(1,2)] Suc.prems(3,4) IH(3,4) q unfolding e by (simp add: hardclock_frames algebra_simps)
qed (simp add: co_ticks_def)

end
