(* ===== verification/Lpsched_Sysctl.thy ===== *)
theory Lpsched_Sysctl
  imports Lpsched
begin

text \<open>
  The \<^verbatim>\<open>machdep.lpsched\<close> sysctl handlers of \<^verbatim>\<open>kernel/kern/kern_lpsched.c\<close>: the clamped integer
  knobs, the input idle time, the two text reports with the percentile computation, the reset of
  the histograms, and the reader of the per-CPU idle times. The node a clamped handler is
  registered on is given by the reader and the writer of its variable.
\<close>

section \<open>Clamped knobs\<close>

definition lpsched_sysctl_clamp ::
    "('s \<Rightarrow> int) \<Rightarrow> (int \<Rightarrow> 's \<Rightarrow> 's) \<Rightarrow> int \<Rightarrow> int \<Rightarrow> sysctl_lookup \<Rightarrow> int option \<Rightarrow> 's
      \<Rightarrow> errno option \<times> 's" where
  "lpsched_sysctl_clamp get put lo hi lk newp s =
    (let (error, val) = lk newp (get s)
     in if error \<noteq> None \<or> newp = None then (error, s)
        else if val < lo \<or> val > hi then (Some EINVAL, s)
        else (None, put val s))"

type_synonym knob_handler = "sysctl_lookup \<Rightarrow> int option \<Rightarrow> lpsched \<Rightarrow> errno option \<times> lpsched"

definition lpsched_sysctl_enabled :: knob_handler where
  "lpsched_sysctl_enabled = lpsched_sysctl_clamp lpsched_enabled (\<lambda>v s. s \<lparr> lpsched_enabled := v \<rparr>) 0 1"

definition lpsched_sysctl_pack :: knob_handler where
  "lpsched_sysctl_pack = lpsched_sysctl_clamp lpsched_pack (\<lambda>v s. s \<lparr> lpsched_pack := v \<rparr>) 0 2"

definition lpsched_sysctl_coalesce :: knob_handler where
  "lpsched_sysctl_coalesce =
    lpsched_sysctl_clamp lpsched_coalesce_ms (\<lambda>v s. s \<lparr> lpsched_coalesce_ms := v \<rparr>) 0 200"

definition lpsched_sysctl_fgpid :: knob_handler where
  "lpsched_sysctl_fgpid = lpsched_sysctl_clamp lpsched_fgpid (\<lambda>v s. s \<lparr> lpsched_fgpid := v \<rparr>) 0 INT_MAX"

definition lpsched_sysctl_estcpu :: knob_handler where
  "lpsched_sysctl_estcpu =
    lpsched_sysctl_clamp lpsched_estcpu_thresh (\<lambda>v s. s \<lparr> lpsched_estcpu_thresh := v \<rparr>) 0 64"

definition lpsched_sysctl_latency :: knob_handler where
  "lpsched_sysctl_latency = lpsched_sysctl_clamp lpsched_latency (\<lambda>v s. s \<lparr> lpsched_latency := v \<rparr>) 0 1"

definition lpsched_sysctl_budget :: knob_handler where
  "lpsched_sysctl_budget =
    lpsched_sysctl_clamp lpsched_wait_budget_us (\<lambda>v s. s \<lparr> lpsched_wait_budget_us := v \<rparr>) 100 1000000"

definition lpsched_sysctl_stats_enabled :: knob_handler where
  "lpsched_sysctl_stats_enabled =
    lpsched_sysctl_clamp lpsched_stats_enabled (\<lambda>v s. s \<lparr> lpsched_stats_enabled := v \<rparr>) 0 1"

definition lpsched_sysctl_idle_acct :: knob_handler where
  "lpsched_sysctl_idle_acct =
    lpsched_sysctl_clamp lpsched_idle_acct (\<lambda>v s. s \<lparr> lpsched_idle_acct := v \<rparr>) 0 1"

text \<open>
  Milliseconds since the last input. The difference of tick counts is a C \<open>int\<close>; the product
  is computed in 64 bits. A read-only node: the handler returns what the lookup returns for the
  value.
\<close>

definition lpsched_idle_ms :: "platform \<Rightarrow> u32 \<Rightarrow> lpsched \<Rightarrow> int" where
  "lpsched_idle_ms P getticks s =
    (let idle = sint (getticks - lpsched_last_input s);
         idle = (if idle < 0 then 0 else idle)
     in min (idle * 1000 div hz P) INT_MAX)"

definition lpsched_sysctl_idle_ms ::
    "platform \<Rightarrow> u32 \<Rightarrow> sysctl_lookup \<Rightarrow> int option \<Rightarrow> lpsched \<Rightarrow> errno option" where
  "lpsched_sysctl_idle_ms P getticks lk newp s = fst (lk newp (lpsched_idle_ms P getticks s))"

section \<open>The counters as text\<close>

definition lpsched_stat_name :: "string list" where
  "lpsched_stat_name = [''considered'', ''exempt_class'', ''exempt_fg'', ''exempt_estcpu'',
    ''pack_sibling'', ''pack_shallow'', ''pack_deep'', ''pack_busy'', ''pack_none'', ''pack_held'',
    ''catch_held'', ''coal_applied'', ''coal_noslack'', ''coal_short'', ''coal_precise'',
    ''pack_guard'', ''pack_longburst'', ''catch_escape'']"

definition lpsched_class_name :: "string list" where
  "lpsched_class_name = [''fg'', ''user'', ''kernel'', ''rt'']"

definition cpu_total :: "platform \<Rightarrow> (lpsched_cpu \<Rightarrow> u64) \<Rightarrow> lpsched \<Rightarrow> u64" where
  "cpu_total P f s = sum_list (map (\<lambda>c. f (lpsched_cpus s c)) [0..<MAXCPUS P])"

definition lpsched_stat_piece :: "platform \<Rightarrow> lpsched \<Rightarrow> nat \<Rightarrow> string" where
  "lpsched_stat_piece P s i =
    (if i = 0 then '''' else '' '') @ lpsched_stat_name ! i @ ''='' @
    dec (unat (cpu_total P (\<lambda>pc. pc_st pc i) s))"

text \<open>A loop of \<open>snprintf_at\<close> over pieces, which stops once the buffer is full.\<close>

fun snprintf_all :: "nat \<Rightarrow> string list \<Rightarrow> nat \<times> string \<Rightarrow> nat \<times> string" where
  "snprintf_all sz [] lb = lb"
| "snprintf_all sz (p # ps) lb = (if fst lb < sz then snprintf_all sz ps (snprintf_at sz p lb) else lb)"

definition lpsched_stats_text :: "platform \<Rightarrow> lpsched \<Rightarrow> nat \<times> string" where
  "lpsched_stats_text P s =
    snprintf_all 768 (map (lpsched_stat_piece P s) [0..<LPSCHED_NSTAT]) (0, '''')"

definition lpsched_sysctl_stats ::
    "platform \<Rightarrow> (string \<Rightarrow> errno option) \<Rightarrow> lpsched \<Rightarrow> errno option" where
  "lpsched_sysctl_stats P lk s = lk (snd (lpsched_stats_text P s))"

section \<open>The latency report\<close>

definition lat_hist :: "platform \<Rightarrow> lpsched \<Rightarrow> nat \<Rightarrow> nat \<Rightarrow> u64" where
  "lat_hist P s cl b = cpu_total P (\<lambda>pc. pc_lat pc cl b) s"

definition lat_n :: "(nat \<Rightarrow> u64) \<Rightarrow> u64" where
  "lat_n hist = sum_list (map hist [0..<LPSCHED_NBUCKET])"

definition lat_max :: "platform \<Rightarrow> lpsched \<Rightarrow> nat \<Rightarrow> u32" where
  "lat_max P s cl = fold (\<lambda>c m. max m (pc_wait_max_us (lpsched_cpus s c) cl)) [0..<MAXCPUS P] 0"

text \<open>The inner loop of the percentiles: the first bucket below the last at which the running
  sum reaches \<open>pct\<close> percent of \<open>n\<close>, else the last bucket.\<close>

fun lat_percentile :: "(nat \<Rightarrow> u64) \<Rightarrow> u64 \<Rightarrow> u64 \<Rightarrow> nat list \<Rightarrow> u64 \<Rightarrow> nat" where
  "lat_percentile hist n pct [] acc = LPSCHED_NBUCKET - 1"
| "lat_percentile hist n pct (b # bs) acc =
    (let acc = acc + hist b
     in if n \<noteq> 0 \<and> acc * 100 \<ge> n * pct then b else lat_percentile hist n pct bs acc)"

definition lat_pct_bucket :: "(nat \<Rightarrow> u64) \<Rightarrow> u64 \<Rightarrow> nat" where
  "lat_pct_bucket hist pct = lat_percentile hist (lat_n hist) pct [0..<LPSCHED_NBUCKET - 1] 0"

definition lat_head :: "platform \<Rightarrow> lpsched \<Rightarrow> nat \<Rightarrow> string" where
  "lat_head P s cl =
    (let n = lat_n (lat_hist P s cl); wait = cpu_total P (\<lambda>pc. pc_wait_us pc cl) s
     in (if cl = 0 then '''' else [char_of (10::nat)]) @ lpsched_class_name ! cl @ '': n='' @ dec (unat n) @
        '' mean='' @ dec (unat (if n \<noteq> 0 then wait div n else 0)) @ ''us max='' @
        dec (unat (lat_max P s cl)) @ ''us'')"

definition lat_pct_piece :: "(nat \<Rightarrow> u64) \<Rightarrow> nat \<Rightarrow> string" where
  "lat_pct_piece hist pct =
    (let b = lat_pct_bucket hist (of_nat pct)
     in '' p'' @ dec pct @ (if b = LPSCHED_NBUCKET - 1 then ''>'' else ''<'') @
        dec (if b = LPSCHED_NBUCKET - 1 then 8 * 2 ^ (LPSCHED_NBUCKET - 2) else 8 * 2 ^ b) @ ''us'')"

definition lat_tail :: "platform \<Rightarrow> lpsched \<Rightarrow> nat \<Rightarrow> string" where
  "lat_tail P s cl = '' run='' @ dec (unat (cpu_total P (\<lambda>pc. pc_run_us pc cl) s div 1000)) @ ''ms hist=''"

definition lat_bucket_piece :: "(nat \<Rightarrow> u64) \<Rightarrow> nat \<Rightarrow> string" where
  "lat_bucket_piece hist b = (if b = 0 then '''' else '','') @ dec (unat (hist b))"

definition lat_class_text :: "platform \<Rightarrow> lpsched \<Rightarrow> nat \<Rightarrow> nat \<times> string \<Rightarrow> nat \<times> string" where
  "lat_class_text P s cl lb =
    (let hist = lat_hist P s cl;
         lb = snprintf_at 2048 (lat_head P s cl) lb;
         lb = (if lat_n hist \<noteq> 0 then snprintf_all 2048 (map (lat_pct_piece hist) [50, 90, 99]) lb else lb);
         lb = (if fst lb < 2048 then snprintf_at 2048 (lat_tail P s cl) lb else lb)
     in snprintf_all 2048 (map (lat_bucket_piece hist) [0..<LPSCHED_NBUCKET]) lb)"

fun lat_classes_text :: "platform \<Rightarrow> lpsched \<Rightarrow> nat list \<Rightarrow> nat \<times> string \<Rightarrow> nat \<times> string" where
  "lat_classes_text P s [] lb = lb"
| "lat_classes_text P s (cl # cls) lb =
    (let lb = lat_class_text P s cl lb
     in if fst lb \<ge> 2048 then lb else lat_classes_text P s cls lb)"

definition lpsched_latency_text :: "platform \<Rightarrow> lpsched \<Rightarrow> nat \<times> string" where
  "lpsched_latency_text P s =
    (let lb = lat_classes_text P s [0..<LPSCHED_NCLASS] (0, '''')
     in if fst lb \<ge> 2048 then (fst lb, take 2047 (snd lb)) else lb)"

definition lpsched_sysctl_latency_hist ::
    "platform \<Rightarrow> (string \<Rightarrow> errno option) \<Rightarrow> lpsched \<Rightarrow> errno option" where
  "lpsched_sysctl_latency_hist P lk s = lk (snd (lpsched_latency_text P s))"

definition lpsched_sysctl_latency_reset ::
    "platform \<Rightarrow> sysctl_lookup \<Rightarrow> int option \<Rightarrow> lpsched \<Rightarrow> errno option \<times> lpsched" where
  "lpsched_sysctl_latency_reset P lk newp s =
    (let (error, val) = lk newp 0
     in if error \<noteq> None \<or> newp = None then (error, s)
        else (None, fold (\<lambda>c. upd_cpu c (\<lambda>pc. pc \<lparr> pc_lat := \<lambda>_ _. 0, pc_wait_us := \<lambda>_. 0,
                 pc_run_us := \<lambda>_. 0, pc_wait_max_us := \<lambda>_. 0 \<rparr>)) [0..<MAXCPUS P] s))"

section \<open>The idle times\<close>

text \<open>
  The reader's arithmetic on one CPU's entry, and the handler. The entries are read from the
  state at one moment here; \<open>Idle_Seqlock\<close> shows that the generation protocol of the loop
  around the reads delivers such a moment although the owner writes concurrently.
\<close>

definition li_read :: "u64 \<Rightarrow> lpsched_idle \<Rightarrow> u64" where
  "li_read now li = (if li_since li \<noteq> 0 \<and> now > li_since li then li_cc li + (now - li_since li) else li_cc li)"

datatype 'a sysctl_out = Err errno | Len nat | Lookup 'a

definition lpsched_sysctl_cpu_idle ::
    "platform \<Rightarrow> nat \<Rightarrow> nat \<Rightarrow> u64 \<Rightarrow> bool \<Rightarrow> lpsched \<Rightarrow> u64 list sysctl_out \<times> lpsched" where
  "lpsched_sysctl_cpu_idle P cur ncpu now oldp_null s =
    (if \<not> lpsched_idle_hooked s \<or> lpsched_idle_acct s = 0 then (Err EOPNOTSUPP, s)
     else
       let s = (if lpsched_tsc_mhz s = 0
                then s \<lparr> lpsched_tsc_mhz := max 1 (cpu_frequency P cur div 1000000) \<rparr> else s);
           n = min ncpu (MAXCPUS P)
       in if oldp_null then (Len ((1 + n) * 8), s)
          else (Lookup (now div lpsched_tsc_mhz s #
                  map (\<lambda>c. li_read now (lpsched_idles s c) div lpsched_tsc_mhz s) [0..<n]), s))"

section \<open>Idle time accounting\<close>

lemma unat_or_1:
  fixes c :: u64
  shows "c OR 1 \<noteq> 0" "unat c \<le> unat (c OR 1)" "unat (c OR 1) \<le> unat c + 1"
proof -
  have e: "c OR 1 = c + of_bool (even c)" by (rule or_one_eq)
  have "unat c + 1 < 2 ^ 64" if "even c"
  proof -
    have "even (unat c)"
      using that bit_unsigned_iff [of c 0] unfolding bit_0 by simp
    then show ?thesis using unat_u64 [of c] by simp presburger
  qed
  then have u: "unat (c OR 1) = unat c + of_bool (even c)"
    unfolding e using unat_u64 [of c] by (auto simp: unat_word_ariths)
  show "unat c \<le> unat (c OR 1)" "unat (c OR 1) \<le> unat c + 1" using u by simp_all
  have "bit (c OR 1) 0" by (simp add: bit_or_iff)
  then show "c OR 1 \<noteq> 0" by auto
qed

text \<open>
  The reference: the idle spans of one CPU as a list of depth reports defines them. A report of a
  depth other than active opens a span unless one is open, a report of active closes it; a span
  counts from its opening to its closing report, or to the moment of reading while it is open.
\<close>

record idle_spans =
  sp_open :: "nat option"
  sp_total :: nat
  sp_count :: nat

definition spans_step :: "u8 \<times> u64 \<Rightarrow> idle_spans \<Rightarrow> idle_spans" where
  "spans_step e a = (let c = unat (snd e) in
    if fst e = LPSCHED_IDLE_ACTIVE
    then (case sp_open a of None \<Rightarrow> a
          | Some t \<Rightarrow> a \<lparr> sp_open := None, sp_total := sp_total a + (c - t) \<rparr>)
    else (case sp_open a of None \<Rightarrow> a \<lparr> sp_open := Some c, sp_count := sp_count a + 1 \<rparr> | Some _ \<Rightarrow> a))"

definition spans_at :: "nat \<Rightarrow> idle_spans \<Rightarrow> nat" where
  "spans_at now a = sp_total a + (case sp_open a of None \<Rightarrow> 0 | Some t \<Rightarrow> now - t)"

definition no_spans :: idle_spans where
  "no_spans = \<lparr> sp_open = None, sp_total = 0, sp_count = 0 \<rparr>"

text \<open>The reports of one CPU, applied in order.\<close>

definition set_depths :: "platform \<Rightarrow> nat \<Rightarrow> (u8 \<times> u64) list \<Rightarrow> lpsched \<Rightarrow> lpsched" where
  "set_depths P i evs s = fold (\<lambda>e. lpsched_set_idle_depth P (snd e) i (fst e)) evs s"

definition spans_rel :: "nat \<Rightarrow> nat \<Rightarrow> lpsched_idle \<Rightarrow> idle_spans \<Rightarrow> bool" where
  "spans_rel t0 lst li a \<longleftrightarrow> t0 \<le> lst \<and> unat (li_cc li) \<le> sp_total a \<and>
    (case sp_open a of
       None \<Rightarrow> li_since li = 0 \<and> sp_total a \<le> unat (li_cc li) + sp_count a \<and> sp_total a + t0 \<le> lst
     | Some t \<Rightarrow> li_since li \<noteq> 0 \<and> t \<le> unat (li_since li) \<and> unat (li_since li) \<le> t + 1 \<and> t \<le> lst \<and>
         Suc (sp_total a) \<le> unat (li_cc li) + sp_count a \<and> sp_total a + t0 \<le> t)"

lemma spans_read:
  assumes r: "spans_rel t0 lst li a" and now: "lst \<le> unat now"
  shows "unat (li_read now li) \<le> spans_at (unat now) a"
    "spans_at (unat now) a \<le> unat (li_read now li) + sp_count a"
    "spans_at (unat now) a + t0 \<le> unat now"
proof -
  have "unat (li_read now li) \<le> spans_at (unat now) a \<and>
    spans_at (unat now) a \<le> unat (li_read now li) + sp_count a \<and> spans_at (unat now) a + t0 \<le> unat now"
  proof (cases "sp_open a")
    case None
    then show ?thesis using r now by (simp add: spans_rel_def li_read_def spans_at_def)
  next
    case (Some t)
    note R = r [unfolded spans_rel_def Some option.case]
    show ?thesis
    proof (cases "now > li_since li")
      case True
      then have lt: "unat (li_since li) < unat now" by (simp add: word_less_nat_alt)
      then have d: "unat (now - li_since li) = unat now - unat (li_since li)" by (simp add: unat_diff_wrap)
      have "unat (li_cc li) + unat (now - li_since li) < 2 ^ LENGTH(64)"
        using R lt d unat_u64 [of now] by (elim conjE) simp
      then have "unat (li_cc li + (now - li_since li)) = unat (li_cc li) + (unat now - unat (li_since li))"
        using d by (subst unat_add_lem [THEN iffD1]) simp_all
      then show ?thesis using R lt True now Some by (elim conjE) (simp add: li_read_def spans_at_def, linarith)
    next
      case False
      then have "unat now \<le> unat (li_since li)" by (simp add: word_less_nat_alt not_less)
      then show ?thesis using R False now Some by (elim conjE) (simp add: li_read_def spans_at_def, linarith)
    qed
  qed
  then show "unat (li_read now li) \<le> spans_at (unat now) a"
    "spans_at (unat now) a \<le> unat (li_read now li) + sp_count a"
    "spans_at (unat now) a + t0 \<le> unat now" by blast+
qed

lemma li_close_read: "li_since li \<noteq> 0 \<Longrightarrow> li_close now li = \<lparr> li_gen = li_gen li + 1 + 1, li_since = 0, li_cc = li_read now li \<rparr>"
  by (cases li) (simp add: li_close_def li_read_def)

lemma set_depth_idle:
  assumes "i < MAXCPUS P" "lpsched_idle_acct s \<noteq> 0"
  shows "lpsched_idles (lpsched_set_idle_depth P now i d s) i =
    (let li = lpsched_idles s i in
     if d = LPSCHED_IDLE_ACTIVE then (if li_since li \<noteq> 0 then li_close now li else li)
     else if li_since li = 0 then li_open now li else li)"
    "lpsched_idle_acct (lpsched_set_idle_depth P now i d s) = lpsched_idle_acct s"
  using assms by (auto simp: lpsched_set_idle_depth_def Let_def)

lemma spans_rel_step:
  assumes i: "i < MAXCPUS P" "lpsched_idle_acct s \<noteq> 0"
    and r: "spans_rel t0 lst (lpsched_idles s i) a" and now: "lst \<le> unat (snd e)"
  shows "spans_rel t0 (unat (snd e)) (lpsched_idles (lpsched_set_idle_depth P (snd e) i (fst e) s) i) (spans_step e a)"
proof (cases "sp_open a")
  case None
  then show ?thesis
    using r now unat_or_1 [of "snd e"] unfolding set_depth_idle [OF i]
    by (auto simp: spans_rel_def spans_step_def li_open_def Let_def)
next
  case (Some t)
  show ?thesis
  proof (cases "fst e = LPSCHED_IDLE_ACTIVE")
    case True
    have "li_since (lpsched_idles s i) \<noteq> 0" using r Some by (simp add: spans_rel_def)
    then show ?thesis
      using spans_read [OF r now] True r now Some unfolding set_depth_idle [OF i]
      by (auto simp: li_close_read spans_rel_def spans_step_def spans_at_def Let_def)
  next
    case False
    then show ?thesis using r now Some unfolding set_depth_idle [OF i]
      by (auto simp: spans_rel_def spans_step_def Let_def)
  qed
qed

lemma spans_rel_steps:
  assumes "i < MAXCPUS P" "lpsched_idle_acct s \<noteq> 0" "spans_rel t0 lst (lpsched_idles s i) a"
    "sorted (lst # map (unat \<circ> snd) evs)"
  shows "spans_rel t0 (foldl max lst (map (unat \<circ> snd) evs)) (lpsched_idles (set_depths P i evs s) i) (fold spans_step evs a)"
  using assms
proof (induction evs arbitrary: s lst a)
  case Nil
  then show ?case by (simp add: set_depths_def)
next
  case (Cons e evs)
  let ?s = "lpsched_set_idle_depth P (snd e) i (fst e) s"
  have l: "lst \<le> unat (snd e)" using Cons.prems by simp
  from spans_rel_step [OF Cons.prems(1-3) l]
  have r: "spans_rel t0 (unat (snd e)) (lpsched_idles ?s i) (spans_step e a)" .
  have a: "lpsched_idle_acct ?s \<noteq> 0" using set_depth_idle(2) [OF Cons.prems(1,2)] Cons.prems(2) by simp
  from Cons.IH [OF Cons.prems(1) a r] Cons.prems(4) l show ?case
    by (simp add: set_depths_def max_absorb2)
qed

text \<open>
  C33: the idle time read for a CPU is right to one counter tick per idle span, and is never more
  than the idle time or the time that has passed. For reports at nondecreasing counter values from
  a fresh entry, with the accounting on, the value read at \<open>now\<close> is at most the true idle
  time, the true idle time exceeds it by at most the number of spans (the entry stamp is forced
  odd), and the true idle time is at most the time since \<open>t0\<close>.
\<close>

theorem lpsched_idle_time_accurate:
  assumes "i < MAXCPUS P" "lpsched_idle_acct s \<noteq> 0" "li_since (lpsched_idles s i) = 0" "li_cc (lpsched_idles s i) = 0"
    and "sorted (unat t0 # map (unat \<circ> snd) evs @ [unat now])"
    and "r = unat (li_read now (lpsched_idles (set_depths P i evs s) i))"
    and "idle = spans_at (unat now) (fold spans_step evs no_spans)"
  shows "r \<le> idle \<and> idle \<le> r + sp_count (fold spans_step evs no_spans) \<and> idle \<le> unat now - unat t0"
proof -
  let ?lst = "foldl max (unat t0) (map (unat \<circ> snd) evs)"
  have "spans_rel (unat t0) (unat t0) (lpsched_idles s i) no_spans"
    using assms by (simp add: spans_rel_def no_spans_def)
  from spans_rel_steps [OF assms(1,2) this]
  have R: "spans_rel (unat t0) ?lst (lpsched_idles (set_depths P i evs s) i) (fold spans_step evs no_spans)"
    using assms(5) by (simp add: sorted_append)
  have "foldl max l xs \<le> m" if "l \<le> m" "\<forall>x\<in>set xs. x \<le> m" for l m :: nat and xs
    using that by (induction xs arbitrary: l) auto
  then have "?lst \<le> unat now" using assms(5) by (simp add: sorted_append)
  from spans_read [OF R this] show ?thesis using assms(6,7) by linarith
qed

theorem lpsched_idle_time_accurate_witness:
  "let evs = [(1, 1000), (0, 1500), (2, 2000)];
       r = unat (li_read 3000 (lpsched_idles (set_depths sample_platform 2 evs lpsched_boot) 2));
       idle = spans_at (unat (3000 :: u64)) (fold spans_step evs no_spans)
   in r \<le> idle \<and> idle \<le> r + sp_count (fold spans_step evs no_spans) \<and> idle \<le> unat (3000 :: u64) - unat (1000 :: u64)"
  unfolding Let_def
  by (rule lpsched_idle_time_accurate [where ?t0.0 = 1000])
    (simp_all add: sample_platform_def lpsched_boot_def lpsched_idle0_def)

section \<open>The reports\<close>

lemma unat_sum_list_u64:
  "(\<Sum>k\<leftarrow>ks. unat (f k)) < 18446744073709551616 \<Longrightarrow>
   unat (sum_list (map f ks) :: u64) = (\<Sum>k\<leftarrow>ks. unat (f k))"
proof (induction ks)
  case (Cons k ks)
  then have "unat (f k) + unat (sum_list (map f ks)) < 2 ^ LENGTH(64)" by simp
  then show ?case using Cons by (simp add: unat_add_lem [THEN iffD1])
qed simp

text \<open>The number of waits recorded in the buckets below \<open>a\<close>.\<close>

definition waits_upto :: "(nat \<Rightarrow> u64) \<Rightarrow> nat \<Rightarrow> nat" where
  "waits_upto hist a = (\<Sum>k<a. unat (hist k))"

lemma waits_upto_mono: "a \<le> b \<Longrightarrow> waits_upto hist a \<le> waits_upto hist b"
  unfolding waits_upto_def by (intro sum_mono2) auto

lemma lat_n_waits: "waits_upto hist 16 < 18446744073709551616 \<Longrightarrow> unat (lat_n hist) = waits_upto hist 16"
  using unat_sum_list_u64 [of hist "[0..<16]"]
  by (simp add: lat_n_def waits_upto_def lessThan_atLeast0 sum_list_distinct_conv_sum_set atLeast_upt [symmetric] del: upt_rec_numeral)

lemma percentile_test:
  fixes acc n :: u64
  assumes "unat acc * 100 < 18446744073709551616" "unat n * 100 < 18446744073709551616" "p \<le> 100"
  shows "acc * 100 \<ge> n * of_nat p \<longleftrightarrow> unat acc * 100 \<ge> unat n * p"
proof -
  have "unat n * p \<le> unat n * 100" using assms(3) by simp
  then have "unat n * p < 18446744073709551616" using assms(2) by linarith
  moreover have "unat (of_nat p :: u64) = p" using assms(3) by (simp add: unat_of_nat)
  ultimately show ?thesis using assms(1) by (simp add: word_le_nat_alt unat_word_ariths)
qed

lemma percentile_from:
  fixes hist :: "nat \<Rightarrow> u64"
  defines "N \<equiv> waits_upto hist 16"
  assumes N: "N * 100 < 18446744073709551616" "0 < N" "p \<le> 100" and n: "unat n = N"
    and a: "a \<le> 15" "unat acc = waits_upto hist a" "\<forall>j<a. waits_upto hist (Suc j) * 100 < N * p"
    and b: "b = lat_percentile hist n (of_nat p) [a..<15] acc"
  shows "b \<le> 15 \<and> (b < 15 \<longrightarrow> N * p \<le> waits_upto hist (Suc b) * 100) \<and> (\<forall>j<b. waits_upto hist (Suc j) * 100 < N * p)"
  using a b
proof (induction "15 - a" arbitrary: a acc)
  case 0
  then show ?case by simp
next
  case (Suc d)
  then have a: "a < 15" by simp
  let ?acc = "acc + hist a"
  have "waits_upto hist (Suc a) \<le> N" unfolding N_def using a by (intro waits_upto_mono) simp
  moreover have "waits_upto hist (Suc a) = unat acc + unat (hist a)" using Suc.prems by (simp add: waits_upto_def)
  ultimately have acc: "unat ?acc = waits_upto hist (Suc a)" "unat ?acc * 100 < 18446744073709551616"
    using N(1) unat_add_lem [of acc "hist a"] by simp_all
  have n0: "n \<noteq> 0" using n N(2) by auto
  have test: "?acc * 100 \<ge> n * of_nat p \<longleftrightarrow> waits_upto hist (Suc a) * 100 \<ge> N * p"
    using percentile_test [OF acc(2) _ N(3), of n] N(1) n acc(1) by simp
  have l: "[a..<15] = a # [Suc a..<15]" using a by (simp add: upt_conv_Cons)
  show ?case
  proof (cases "waits_upto hist (Suc a) * 100 \<ge> N * p")
    case True
    then have "b = a" using Suc.prems(4) n0 test unfolding l by (simp add: Let_def)
    then show ?thesis using True Suc.prems a by simp
  next
    case False
    then have "b = lat_percentile hist n (of_nat p) [Suc a..<15] ?acc"
      using Suc.prems(4) n0 test unfolding l by (simp add: Let_def)
    moreover have "\<forall>j<Suc a. waits_upto hist (Suc j) * 100 < N * p"
      using False Suc.prems(3) by (auto simp: less_Suc_eq)
    ultimately show ?thesis using Suc.hyps(1) [of "Suc a" ?acc] Suc.hyps(2) acc(1) a by simp
  qed
qed

text \<open>
  C34: the percentiles of the latency report are the right buckets. With fewer than
  \<open>2 ^ 64 / 100\<close> waits recorded in a class, the bucket reported for percentile \<open>p\<close> is the
  first below the last up to which at least \<open>p\<close> percent of all waits lie, and the last bucket
  when there is none.
\<close>

theorem lat_percentile_correct:
  assumes "waits_upto hist 16 * 100 < 18446744073709551616" "0 < waits_upto hist 16" "p \<le> 100"
    and "b = lat_pct_bucket hist (of_nat p)"
  shows "b \<le> 15 \<and> (b < 15 \<longrightarrow> waits_upto hist 16 * p \<le> waits_upto hist (Suc b) * 100) \<and>
    (\<forall>j<b. waits_upto hist (Suc j) * 100 < waits_upto hist 16 * p)"
proof (rule percentile_from [where a = 0 and n = "lat_n hist" and acc = 0])
  show "unat (lat_n hist) = waits_upto hist 16" using assms(1) by (intro lat_n_waits) simp
  show "b = lat_percentile hist (lat_n hist) (word_of_nat p) [0..<15] 0"
    using assms(4) by (simp add: lat_pct_bucket_def del: upt_rec_numeral)
qed (use assms in \<open>simp_all add: waits_upto_def\<close>)

theorem lat_percentile_correct_witness:
  "let hist = (\<lambda>_. 0)(2 := 60, 5 := 40); b = lat_pct_bucket hist (of_nat 90)
   in b \<le> 15 \<and> (b < 15 \<longrightarrow> waits_upto hist 16 * 90 \<le> waits_upto hist (Suc b) * 100) \<and>
    (\<forall>j<b. waits_upto hist (Suc j) * 100 < waits_upto hist 16 * 90)"
  unfolding Let_def
  by (rule lat_percentile_correct) (simp_all add: waits_upto_def lessThan_nat_numeral lessThan_Suc)

lemma length_dec_u64: "length (dec (unat (x :: u64))) \<le> 20"
  using unat_u64 [of x] by (intro length_dec) simp_all

lemma length_dec_u32: "length (dec (unat (x :: u32))) \<le> 10"
  using unat_u32 [of x] by (intro length_dec) simp_all

lemma snprintf_all_fits:
  "length buf = len \<Longrightarrow> len + length (concat ps) < sz \<Longrightarrow>
   snprintf_all sz ps (len, buf) = (len + length (concat ps), buf @ concat ps)"
proof (induction ps arbitrary: len buf)
  case (Cons p ps)
  then have "snprintf_at sz p (len, buf) = (len + length p, buf @ p)"
    by (intro snprintf_at_fits) simp_all
  then show ?case using Cons.prems Cons.IH [of "buf @ p" "len + length p"] by (simp add: add.assoc)
qed simp

lemma concat_concat: "concat (concat xss) = concat (map concat xss)"
  by (induction xss) simp_all

lemma length_concat_le: "(\<And>p. p \<in> set ps \<Longrightarrow> length p \<le> m) \<Longrightarrow> length (concat ps) \<le> length ps * m"
  by (induction ps) (auto, fastforce)

text \<open>The whole text of the counter report, and the pieces of the latency report of a class.\<close>

definition lpsched_stats_ref :: "platform \<Rightarrow> lpsched \<Rightarrow> string" where
  "lpsched_stats_ref P s = concat (map (lpsched_stat_piece P s) [0..<LPSCHED_NSTAT])"

lemma stat_name_len:
  assumes "i < 18"
  shows "length (lpsched_stat_name ! i) \<le> 14"
proof -
  have "\<forall>x\<in>set lpsched_stat_name. length x \<le> 14" "length lpsched_stat_name = 18"
    by (simp_all add: lpsched_stat_name_def)
  then show ?thesis using assms nth_mem by metis
qed

lemma class_name_len:
  assumes "cl < 4"
  shows "length (lpsched_class_name ! cl) \<le> 6"
proof -
  have "\<forall>x\<in>set lpsched_class_name. length x \<le> 6" "length lpsched_class_name = 4"
    by (simp_all add: lpsched_class_name_def)
  then show ?thesis using assms nth_mem by metis
qed

lemma stats_ref_len: "length (lpsched_stats_ref P s) < 768"
proof -
  have "length (lpsched_stat_piece P s i) \<le> 36" if "i < 18" for i
    using stat_name_len [OF that] length_dec_u64 [of "cpu_total P (\<lambda>pc. pc_st pc i) s"]
    by (cases "i = 0") (simp_all add: lpsched_stat_piece_def)
  then have "length (lpsched_stats_ref P s) \<le> 18 * 36"
    unfolding lpsched_stats_ref_def
    using length_concat_le [of "map (lpsched_stat_piece P s) [0..<18]" 36] by fastforce
  then show ?thesis by simp
qed

lemma stats_fits: "lpsched_stats_text P s = (length (lpsched_stats_ref P s), lpsched_stats_ref P s)"
  using snprintf_all_fits [of "[]" 0 "map (lpsched_stat_piece P s) [0..<18]" 768] stats_ref_len [of P s]
  unfolding lpsched_stats_text_def lpsched_stats_ref_def by simp

definition lat_class_pieces :: "platform \<Rightarrow> lpsched \<Rightarrow> nat \<Rightarrow> string list" where
  "lat_class_pieces P s cl = (let hist = lat_hist P s cl in
    lat_head P s cl # (if lat_n hist \<noteq> 0 then map (lat_pct_piece hist) [50, 90, 99] else []) @
    lat_tail P s cl # map (lat_bucket_piece hist) [0..<LPSCHED_NBUCKET])"

lemma snprintf_all_full: "\<not> fst lb < sz \<Longrightarrow> snprintf_all sz ps lb = lb"
  by (cases ps) simp_all

lemma snprintf_all_append: "snprintf_all sz (ps @ qs) lb = snprintf_all sz qs (snprintf_all sz ps lb)"
  by (induction ps arbitrary: lb) (simp_all add: snprintf_all_full)

lemma lat_class_text_pieces:
  assumes "fst lb < 2048"
  shows "lat_class_text P s cl lb = snprintf_all 2048 (lat_class_pieces P s cl) lb"
  using assms
  by (simp add: lat_class_text_def lat_class_pieces_def Let_def snprintf_all_append snprintf_all_full
      del: upt_rec_numeral list.map)

lemma lat_head_len: "cl < 4 \<Longrightarrow> length (lat_head P s cl) \<le> 76"
proof -
  assume "cl < 4"
  moreover have "length (if cl = 0 then [] else [char_of (10::nat)]) \<le> 1" by simp
  ultimately show ?thesis
    using class_name_len [of cl] length_dec_u64 [of "lat_n (lat_hist P s cl)"] length_dec_u32 [of "lat_max P s cl"]
      length_dec_u64 [of "if lat_n (lat_hist P s cl) \<noteq> 0 then cpu_total P (\<lambda>pc. pc_wait_us pc cl) s div lat_n (lat_hist P s cl) else 0"]
    unfolding lat_head_def Let_def length_append list.size by linarith
qed

lemma lat_percentile_le: "(\<forall>b\<in>set bs. b \<le> 15) \<Longrightarrow> lat_percentile hist n pct bs acc \<le> 15"
  by (induction bs arbitrary: acc) (simp_all add: Let_def)

lemma lat_pct_len: "p < 100 \<Longrightarrow> length (lat_pct_piece hist p) \<le> 13"
proof -
  assume p: "p < 100"
  let ?b = "lat_pct_bucket hist (of_nat p)"
  have "?b \<le> 15" unfolding lat_pct_bucket_def by (intro lat_percentile_le) auto
  then have "8 * 2 ^ ?b < (10::nat) ^ 6" if "?b \<noteq> 15"
    using that power_increasing [of ?b 14 "2::nat"] by simp
  then have "length (dec (if ?b = 15 then 8 * 2 ^ 14 else 8 * 2 ^ ?b)) \<le> 6"
    by (intro length_dec) auto
  moreover have "length (dec p) \<le> 2" using p by (intro length_dec) auto
  ultimately show ?thesis by (cases "?b = 15") (simp_all add: lat_pct_piece_def Let_def)
qed

lemma lat_buckets_len: "length (concat (map (lat_bucket_piece hist) [0..<16])) \<le> 336"
proof -
  have "length (lat_bucket_piece hist b) \<le> 21" for b
    using length_dec_u64 [of "hist b"] by (cases "b = 0") (simp_all add: lat_bucket_piece_def)
  then show ?thesis using length_concat_le [of "map (lat_bucket_piece hist) [0..<16]" 21] by fastforce
qed

lemma lat_class_len: "cl < 4 \<Longrightarrow> length (concat (lat_class_pieces P s cl)) \<le> 484"
  using lat_head_len [of cl P s] lat_pct_len [of 50 "lat_hist P s cl"] lat_pct_len [of 90 "lat_hist P s cl"]
    lat_pct_len [of 99 "lat_hist P s cl"] lat_buckets_len [of "lat_hist P s cl"]
    length_dec_u64 [of "cpu_total P (\<lambda>pc. pc_run_us pc cl) s div 1000"]
  unfolding lat_class_pieces_def Let_def by (simp add: lat_tail_def del: upt_rec_numeral)

lemma lat_classes_fit:
  assumes "length buf = len" "len + length (concat (concat (map (lat_class_pieces P s) cls))) < 2048"
  shows "lat_classes_text P s cls (len, buf) =
    (len + length (concat (concat (map (lat_class_pieces P s) cls))), buf @ concat (concat (map (lat_class_pieces P s) cls)))"
  using assms
proof (induction cls arbitrary: len buf)
  case (Cons cl cls)
  then show ?case
    using Cons.IH [of "buf @ concat (lat_class_pieces P s cl)" "len + length (concat (lat_class_pieces P s cl))"]
    by (simp add: lat_class_text_pieces snprintf_all_fits Let_def add.assoc)
qed simp

definition lpsched_latency_ref :: "platform \<Rightarrow> lpsched \<Rightarrow> string" where
  "lpsched_latency_ref P s = concat (concat (map (lat_class_pieces P s) [0..<LPSCHED_NCLASS]))"

lemma latency_ref_len: "length (lpsched_latency_ref P s) < 2048"
proof -
  have "lpsched_latency_ref P s = concat (map (\<lambda>cl. concat (lat_class_pieces P s cl)) [0..<4])"
    unfolding lpsched_latency_ref_def concat_concat map_map comp_def ..
  then show ?thesis
    using length_concat_le [of "map (\<lambda>cl. concat (lat_class_pieces P s cl)) [0..<4]" 484] lat_class_len [of _ P s]
    by fastforce
qed

lemma latency_fits: "lpsched_latency_text P s = (length (lpsched_latency_ref P s), lpsched_latency_ref P s)"
  using lat_classes_fit [of "[]" 0 P s "[0..<4]"] latency_ref_len [of P s]
  unfolding lpsched_latency_text_def lpsched_latency_ref_def by (simp add: Let_def del: upt_rec_numeral)

text \<open>
  C35: neither report is ever cut off. Whatever the counters hold, the text in the 768 byte buffer
  of the counters and in the 2048 byte buffer of the latencies is the whole report, and the length
  the code accumulated is the length of that text.
\<close>

theorem lpsched_reports_complete:
  "lpsched_stats_text P s = (length (lpsched_stats_ref P s), lpsched_stats_ref P s) \<and>
   length (lpsched_stats_ref P s) < 768 \<and>
   lpsched_latency_text P s = (length (lpsched_latency_ref P s), lpsched_latency_ref P s) \<and>
   length (lpsched_latency_ref P s) < 2048"
  by (simp add: stats_fits stats_ref_len latency_fits latency_ref_len)

section \<open>The knobs stay in range\<close>

lemma clamp_knob:
  assumes "\<And>v s. get (put v s) = v"
  shows "int_knob (lpsched_sysctl_clamp get put lo hi) get lo hi"
  by unfold_locales (auto simp: lpsched_sysctl_clamp_def assms split: prod.splits if_splits)

interpretation kn_enabled: int_knob lpsched_sysctl_enabled lpsched_enabled 0 1
  unfolding lpsched_sysctl_enabled_def by (rule clamp_knob) simp

interpretation kn_pack: int_knob lpsched_sysctl_pack lpsched_pack 0 2
  unfolding lpsched_sysctl_pack_def by (rule clamp_knob) simp

interpretation kn_coalesce: int_knob lpsched_sysctl_coalesce lpsched_coalesce_ms 0 200
  unfolding lpsched_sysctl_coalesce_def by (rule clamp_knob) simp

interpretation kn_fgpid: int_knob lpsched_sysctl_fgpid lpsched_fgpid 0 INT_MAX
  unfolding lpsched_sysctl_fgpid_def by (rule clamp_knob) simp

interpretation kn_estcpu: int_knob lpsched_sysctl_estcpu lpsched_estcpu_thresh 0 64
  unfolding lpsched_sysctl_estcpu_def by (rule clamp_knob) simp

interpretation kn_latency: int_knob lpsched_sysctl_latency lpsched_latency 0 1
  unfolding lpsched_sysctl_latency_def by (rule clamp_knob) simp

interpretation kn_budget: int_knob lpsched_sysctl_budget lpsched_wait_budget_us 100 1000000
  unfolding lpsched_sysctl_budget_def by (rule clamp_knob) simp

interpretation kn_stats_enabled: int_knob lpsched_sysctl_stats_enabled lpsched_stats_enabled 0 1
  unfolding lpsched_sysctl_stats_enabled_def by (rule clamp_knob) simp

interpretation kn_idle_acct: int_knob lpsched_sysctl_idle_acct lpsched_idle_acct 0 1
  unfolding lpsched_sysctl_idle_acct_def by (rule clamp_knob) simp

definition lpsched_knob_handlers :: "knob_handler list" where
  "lpsched_knob_handlers = [lpsched_sysctl_enabled, lpsched_sysctl_pack, lpsched_sysctl_coalesce, lpsched_sysctl_fgpid, lpsched_sysctl_estcpu, lpsched_sysctl_latency, lpsched_sysctl_budget, lpsched_sysctl_stats_enabled, lpsched_sysctl_idle_acct]"

definition knobs_ok :: "lpsched \<Rightarrow> bool" where
  "knobs_ok s \<longleftrightarrow> 0 \<le> lpsched_enabled s \<and> lpsched_enabled s \<le> 1 \<and>
    0 \<le> lpsched_pack s \<and> lpsched_pack s \<le> 2 \<and>
    0 \<le> lpsched_coalesce_ms s \<and> lpsched_coalesce_ms s \<le> 200 \<and>
    0 \<le> lpsched_fgpid s \<and> lpsched_fgpid s \<le> INT_MAX \<and>
    0 \<le> lpsched_estcpu_thresh s \<and> lpsched_estcpu_thresh s \<le> 64 \<and>
    0 \<le> lpsched_latency s \<and> lpsched_latency s \<le> 1 \<and>
    100 \<le> lpsched_wait_budget_us s \<and> lpsched_wait_budget_us s \<le> 1000000 \<and>
    0 \<le> lpsched_stats_enabled s \<and> lpsched_stats_enabled s \<le> 1 \<and>
    0 \<le> lpsched_idle_acct s \<and> lpsched_idle_acct s \<le> 1"

lemmas knob_handler_defs = lpsched_sysctl_enabled_def lpsched_sysctl_pack_def lpsched_sysctl_coalesce_def lpsched_sysctl_fgpid_def lpsched_sysctl_estcpu_def lpsched_sysctl_latency_def lpsched_sysctl_budget_def lpsched_sysctl_stats_enabled_def lpsched_sysctl_idle_acct_def

lemma clamp_cases:
  obtains "snd (lpsched_sysctl_clamp get put lo hi lk newp s) = s"
  | v where "lo \<le> v" "v \<le> hi" "snd (lpsched_sysctl_clamp get put lo hi lk newp s) = put v s"
proof (cases "lk newp (get s)")
  case (Pair e v)
  show ?thesis
  proof (cases "e = None \<and> newp \<noteq> None \<and> lo \<le> v \<and> v \<le> hi")
    case True
    then show ?thesis using Pair by (intro that(2) [of v]) (auto simp: lpsched_sysctl_clamp_def)
  next
    case False
    then show ?thesis using Pair by (intro that(1)) (auto simp: lpsched_sysctl_clamp_def)
  qed
qed

lemma knob_call_ok:
  assumes "h \<in> set lpsched_knob_handlers" "knobs_ok s"
  shows "knobs_ok (snd (h lk newp s))"
proof -
  have *: "knobs_ok (snd (lpsched_sysctl_clamp get put lo hi lk newp s))"
    if "\<And>v. lo \<le> v \<Longrightarrow> v \<le> hi \<Longrightarrow> knobs_ok (put v s)" for get put lo hi
    by (rule clamp_cases [of get put lo hi lk newp s]) (use that assms(2) in simp_all)
  show ?thesis
    using assms unfolding lpsched_knob_handlers_def
    by (auto simp: knob_handler_defs simp del: One_nat_def intro!: *) (simp_all add: knobs_ok_def)
qed

text \<open>
  C36: the nine integer knobs of \<^verbatim>\<open>machdep.lpsched\<close> stay within the ranges their handlers declare,
  through any sequence of sysctl calls, reads and failed writes included, whatever value
  \<^verbatim>\<open>sysctl_lookup\<close> delivers; and a call that reports an error leaves its knob as it was.
\<close>

theorem lpsched_knobs_in_range:
  assumes "knobs_ok s" "list_all (\<lambda>(h, lk, newp). h \<in> set lpsched_knob_handlers) cs"
  shows "knobs_ok (fold (\<lambda>(h, lk, newp) s. snd (h lk newp s)) cs s)"
  using assms by (induction cs arbitrary: s) (auto simp: knob_call_ok)

theorem lpsched_knobs_in_range_witness:
  "knobs_ok (fold (\<lambda>(h, lk, newp) s. snd (h lk newp s))
    [(lpsched_sysctl_coalesce, \<lambda>newp val. (None, the newp), Some 150),
     (lpsched_sysctl_coalesce, \<lambda>newp val. (None, the newp), Some 900)] lpsched_boot)"
  by (rule lpsched_knobs_in_range) (simp_all add: knobs_ok_def lpsched_boot_def lpsched_knob_handlers_def)

end
