(* ===== verification/Cidle.thy ===== *)
theory Cidle
  imports Clock Lpsched_Sysctl
begin

text \<open>
  The idle module \<^verbatim>\<open>kernel/modules/cidle/cidle.c\<close>: the tickless idle routine, its knobs, and loading
  and unloading. The idle routine works on the module's state and on the kernel state of \<open>Clock\<close>;
  what it reads from the hardware is the record \<open>cidle_hw\<close>. The sleep itself, \<^verbatim>\<open>x86_mwait\<close>, changes
  nothing in these states.
\<close>

section \<open>State\<close>

record cidle =
  cidle_hint :: int
  cidle_active :: bool
  cidle_tickless :: int
  cidle_maxskip :: int
  cidle_minskip :: int
  cidle_forceskip :: int
  cidle_cpuid5_ecx :: u32
  cidle_tc_bound :: bool
  cidle_tl_entries :: u64
  cidle_tl_ticks :: u64
  cidle_tl_pending :: u64
  cidle_tl_early :: u64
  cidle_tl_full :: u64
  cidle_prev_func :: nat
  cpu_idle_func :: nat
  cidle_sysctl :: bool

definition cidle0 :: cidle where
  "cidle0 = \<lparr> cidle_hint = 0x60, cidle_active = False, cidle_tickless = 0, cidle_maxskip = 100, cidle_minskip = 4,
    cidle_forceskip = 0, cidle_cpuid5_ecx = 0, cidle_tc_bound = False, cidle_tl_entries = 0, cidle_tl_ticks = 0,
    cidle_tl_pending = 0, cidle_tl_early = 0, cidle_tl_full = 0, cidle_prev_func = 0, cpu_idle_func = 0, cidle_sysctl = False \<rparr>"

abbreviation (input) CPUID5_ECX_IBE :: u32 where "CPUID5_ECX_IBE \<equiv> 2"

record cidle_hw =
  hw_want_resched :: bool
  hw_entry :: lapic_entry
  hw_exit :: lapic_exit
  hw_now_sleep :: u64
  hw_now_wake :: u64
  hw_rd :: "nat \<Rightarrow> nat \<Rightarrow> u32"
  hw_late :: "nat \<Rightarrow> bool"
  hw_panicking :: bool

section \<open>The length of a sleep\<close>

definition cidle_windup_ticks :: "platform \<Rightarrow> cidle \<Rightarrow> 'n timekeeping \<Rightarrow> int" where
  "cidle_windup_ticks P cd tk =
    (if cidle_tc_bound cd then tc_max_windup_ticks P tk
     else
       let tc = tc_tab tk (tk_counter tk)
       in if tc_frequency tc = 0 then INT_MAX
          else
            let wrap = (ucast (tc_counter_mask tc) * word_of_int (hz P)) div tc_frequency tc div 2 :: u64
            in if uint wrap > INT_MAX then INT_MAX else uint wrap)"

definition cidle_skip :: "platform \<Rightarrow> cidle \<Rightarrow> bool \<Rightarrow> 'n timekeeping \<Rightarrow> int \<Rightarrow> int" where
  "cidle_skip P cd is_primary tk next =
    (let skip = next;
         skip = (if cidle_forceskip cd > 0 then cidle_forceskip cd else skip);
         skip = (if skip > cidle_maxskip cd then cidle_maxskip cd else skip)
     in if is_primary
        then let cap = cidle_windup_ticks P cd tk in if cap < skip then cap else skip
        else skip)"

section \<open>The idle routine\<close>

definition set_depth :: "platform \<Rightarrow> u64 \<Rightarrow> nat \<Rightarrow> u8 \<Rightarrow> 'n ksys \<Rightarrow> 'n ksys" where
  "set_depth P now cur depth s = s \<lparr> ks_co := (ks_co s) \<lparr> co_lp := lpsched_set_idle_depth P now cur depth (co_lp (ks_co s)) \<rparr> \<rparr>"

fun cidle_replay :: "'n clock_env \<Rightarrow> cidle_hw \<Rightarrow> nat \<Rightarrow> nat \<Rightarrow> 'n ksys \<Rightarrow> hb_verdict list \<times> 'n ksys" where
  "cidle_replay E hw cur 0 s = ([], s)"
| "cidle_replay E hw cur (Suc n) s =
    (let (vs, s) = cidle_replay E hw cur n s;
         (v, soft, s) = hardclock E (hw_late hw n) (hw_panicking hw) (hw_rd hw n) cur s
     in (vs @ [v], s))"

text \<open>Waking up from a tickless sleep of \<open>skip\<close> ticks.\<close>

definition cidle_wake ::
    "platform \<Rightarrow> 'n clock_env \<Rightarrow> lapic_conf \<Rightarrow> cidle_hw \<Rightarrow> nat \<Rightarrow> u32 \<Rightarrow> cidle \<times> 'n ksys \<Rightarrow> hb_verdict list \<times> cidle \<times> 'n ksys" where
  "cidle_wake P E C hw cur skip cs =
    (let (cd, s) = cs;
         s = set_depth P (hw_now_wake hw) cur LPSCHED_IDLE_ACTIVE s;
         (elapsed, pending, tl) = lapic_oneshot_done P C (hw_exit hw) skip (ks_tl s cur);
         s = s \<lparr> ks_tl := (ks_tl s)(cur := tl) \<rparr>;
         p = (if pending then 1 else 0);
         manual = (if elapsed \<ge> p then elapsed - p else 0);
         (vs, s) = cidle_replay E hw cur (unat manual) s;
         s = s \<lparr> ks_hb := heartbeat_resume (uptime32 s) cur (ks_hb s) \<rparr>;
         cd = cd \<lparr> cidle_tl_entries := cidle_tl_entries cd + 1, cidle_tl_ticks := cidle_tl_ticks cd + ucast elapsed \<rparr>;
         cd = (if pending then cd \<lparr> cidle_tl_full := cidle_tl_full cd + 1 \<rparr> else cd \<lparr> cidle_tl_early := cidle_tl_early cd + 1 \<rparr>)
     in (vs, cd, s))"

definition cidle_idle_tickless ::
    "platform \<Rightarrow> 'n clock_env \<Rightarrow> lapic_conf \<Rightarrow> cidle_hw \<Rightarrow> nat \<Rightarrow> cidle \<times> 'n ksys \<Rightarrow> hb_verdict list \<times> cidle \<times> 'n ksys" where
  "cidle_idle_tickless P E C hw cur cs =
    (let (cd, s) = cs
     in if hw_want_resched hw then ([], cd, s)
        else
          let (next, co) = callout_next_ticks cur (ks_co s);
              s = s \<lparr> ks_co := co \<rparr>;
              skip = cidle_skip P cd (cur = env_primary E) (ks_tk s) next
          in if skip < cidle_minskip cd then
               let s = set_depth P (hw_now_sleep hw) cur LPSCHED_IDLE_SHALLOW s
               in ([], cd, set_depth P (hw_now_wake hw) cur LPSCHED_IDLE_ACTIVE s)
             else
               let s = s \<lparr> ks_hb := heartbeat_suspend cur (ks_hb s) \<rparr>;
                   s = set_depth P (hw_now_sleep hw) cur LPSCHED_IDLE_DEEP s;
                   (ok, tl) = lapic_oneshot P C (hw_entry hw) (word_of_int skip) (ks_tl s cur);
                   s = s \<lparr> ks_tl := (ks_tl s)(cur := tl) \<rparr>
               in if \<not> ok then
                    let s = set_depth P (hw_now_wake hw) cur LPSCHED_IDLE_ACTIVE s;
                        s = s \<lparr> ks_hb := heartbeat_resume (uptime32 s) cur (ks_hb s) \<rparr>
                    in ([], cd \<lparr> cidle_tl_pending := cidle_tl_pending cd + 1 \<rparr>, s)
                  else cidle_wake P E C hw cur (word_of_int skip) (cd, s))"

definition cidle_idle ::
    "platform \<Rightarrow> 'n clock_env \<Rightarrow> lapic_conf \<Rightarrow> bool \<Rightarrow> cidle_hw \<Rightarrow> nat \<Rightarrow> cidle \<times> 'n ksys \<Rightarrow> hb_verdict list \<times> cidle \<times> 'n ksys" where
  "cidle_idle P E C shutting_down hw cur cs =
    (let (cd, s) = cs
     in if cidle_tickless cd \<noteq> 0 \<and> \<not> shutting_down then cidle_idle_tickless P E C hw cur cs
        else if hw_want_resched hw then ([], cd, s)
        else
          let s = set_depth P (hw_now_sleep hw) cur LPSCHED_IDLE_SHALLOW s
          in ([], cd, set_depth P (hw_now_wake hw) cur LPSCHED_IDLE_ACTIVE s))"

section \<open>The knobs\<close>

definition cidle_install :: "nat \<Rightarrow> bool \<Rightarrow> cidle \<times> lpsched \<Rightarrow> cidle \<times> lpsched" where
  "cidle_install cidle_idle_func on cs =
    (let (cd, lp) = cs
     in if on = cidle_active cd then (cd, lp)
        else
          let lp = (if \<not> on then lp \<lparr> lpsched_idle_hooked := False \<rparr> else lp);
              cd = cd \<lparr> cpu_idle_func := (if on then cidle_idle_func else cidle_prev_func cd), cidle_active := on \<rparr>;
              lp = (if on then lp \<lparr> lpsched_idle_hooked := True \<rparr> else lp)
          in (cd, lp))"

definition cidle_knob ::
    "(cidle \<Rightarrow> int) \<Rightarrow> (int \<Rightarrow> cidle \<Rightarrow> cidle) \<Rightarrow> (int \<Rightarrow> cidle \<Rightarrow> errno option) \<Rightarrow> sysctl_lookup \<Rightarrow> int option \<Rightarrow> cidle \<Rightarrow> errno option \<times> cidle" where
  "cidle_knob get put reject lk newp cd =
    (let (error, val) = lk newp (get cd)
     in if error = None \<and> newp \<noteq> None
        then (case reject val cd of Some e \<Rightarrow> (Some e, cd) | None \<Rightarrow> (None, put val cd))
        else (error, cd))"

definition cidle_sysctl_hint :: "sysctl_lookup \<Rightarrow> int option \<Rightarrow> cidle \<Rightarrow> errno option \<times> cidle" where
  "cidle_sysctl_hint = cidle_knob cidle_hint (\<lambda>v cd. cd \<lparr> cidle_hint := v \<rparr>)
    (\<lambda>val _. if val < 0 \<or> val > 0xff \<or> val AND 0x0f > 0x0f then Some EINVAL else None)"

definition cidle_sysctl_tickless :: "sysctl_lookup \<Rightarrow> int option \<Rightarrow> cidle \<Rightarrow> errno option \<times> cidle" where
  "cidle_sysctl_tickless = cidle_knob cidle_tickless (\<lambda>v cd. cd \<lparr> cidle_tickless := v \<rparr>)
    (\<lambda>val cd. if val \<noteq> 0 \<and> val \<noteq> 1 then Some EINVAL
       else if val = 1 \<and> cidle_cpuid5_ecx cd AND CPUID5_ECX_IBE = 0 then Some ENODEV else None)"

definition cidle_sysctl_maxskip :: "sysctl_lookup \<Rightarrow> int option \<Rightarrow> cidle \<Rightarrow> errno option \<times> cidle" where
  "cidle_sysctl_maxskip = cidle_knob cidle_maxskip (\<lambda>v cd. cd \<lparr> cidle_maxskip := v \<rparr>)
    (\<lambda>val _. if val < 1 \<or> val > 1400 then Some EINVAL else None)"

definition cidle_sysctl_minskip :: "sysctl_lookup \<Rightarrow> int option \<Rightarrow> cidle \<Rightarrow> errno option \<times> cidle" where
  "cidle_sysctl_minskip = cidle_knob cidle_minskip (\<lambda>v cd. cd \<lparr> cidle_minskip := v \<rparr>)
    (\<lambda>val _. if val < 1 \<or> val > 1000 then Some EINVAL else None)"

definition cidle_sysctl_forceskip :: "sysctl_lookup \<Rightarrow> int option \<Rightarrow> cidle \<Rightarrow> errno option \<times> cidle" where
  "cidle_sysctl_forceskip = cidle_knob cidle_forceskip (\<lambda>v cd. cd \<lparr> cidle_forceskip := v \<rparr>)
    (\<lambda>val _. if val < 0 \<or> val > 1400 then Some EINVAL else None)"

definition cidle_sysctl_active ::
    "nat \<Rightarrow> sysctl_lookup \<Rightarrow> int option \<Rightarrow> cidle \<times> lpsched \<Rightarrow> errno option \<times> cidle \<times> lpsched" where
  "cidle_sysctl_active fn lk newp cs =
    (let (error, val) = lk newp (if cidle_active (fst cs) then 1 else 0)
     in if error = None \<and> newp \<noteq> None
        then (if val \<noteq> 0 \<and> val \<noteq> 1 then (Some EINVAL, cs) else (None, cidle_install fn (val \<noteq> 0) cs))
        else (error, cs))"

section \<open>Loading and unloading\<close>

datatype modcmd = MODULE_CMD_INIT | MODULE_CMD_FINI | MODULE_CMD_OTHER

definition cidle_modcmd ::
    "bool \<Rightarrow> u32 \<Rightarrow> bool \<Rightarrow> nat \<Rightarrow> modcmd \<Rightarrow> cidle \<times> lpsched \<Rightarrow> errno option \<times> cidle \<times> lpsched" where
  "cidle_modcmd has_monitor ecx has_bound fn cmd cs =
    (let (cd, lp) = cs
     in case cmd of
       MODULE_CMD_INIT \<Rightarrow>
         if \<not> has_monitor then (Some ENODEV, cs)
         else
           let cd = cd \<lparr> cidle_cpuid5_ecx := ecx, cidle_tc_bound := cidle_tc_bound cd \<or> has_bound, cidle_prev_func := cpu_idle_func cd \<rparr>;
               (cd, lp) = cidle_install fn True (cd, lp)
           in (None, cd \<lparr> cidle_sysctl := True \<rparr>, lp)
     | MODULE_CMD_FINI \<Rightarrow>
         let (cd, lp) = cidle_install fn False (cd \<lparr> cidle_tickless := 0 \<rparr>, lp)
         in (None, cd \<lparr> cidle_sysctl := False \<rparr>, lp)
     | MODULE_CMD_OTHER \<Rightarrow> (Some ENOTTY, cs))"

section \<open>Replaying the ticks\<close>



lemma set_depth_frame [simp]:
  "ks_hb (set_depth P t c d s) = ks_hb s" "ks_tk (set_depth P t c d s) = ks_tk s" "ks_tl (set_depth P t c d s) = ks_tl s"
  "co_tab (ks_co (set_depth P t c d s)) = co_tab (ks_co s)" "co_cpu (ks_co (set_depth P t c d s)) = co_cpu (ks_co s)"
  "callout_next_gen (ks_co (set_depth P t c d s)) = callout_next_gen (ks_co s)"
  "callout_deferrable_enabled (ks_co (set_depth P t c d s)) = callout_deferrable_enabled (ks_co s)"
  by (simp_all add: set_depth_def)

lemma set_depth_inv [simp]: "co_inv (ks_co (set_depth P t c d s)) = co_inv (ks_co s)"
  by (simp add: co_inv_def)

lemma set_depth_fresh [simp]: "co_fresh j k (ks_co (set_depth P t c d s)) = co_fresh j k (ks_co s)"
  by (simp add: co_fresh_def)













section \<open>Properties\<close>





definition sample_ksys :: "unit ksys" where
  "sample_ksys = \<lparr> ks_co = co_boot, ks_hb = hb_boot, ks_tk = sample_timekeeping,
    ks_tl = \<lambda>_. \<lparr> lvt_periodic = True, lapic_icr = 384000, tl_frac = 7, tl_entry_tsc = 0, ci_lapic_counter = 0 \<rparr>,
    hardclock_ticks = 0, spc_ticks = \<lambda>_. 10, spc_schedticks = \<lambda>_. 6 \<rparr>"





text \<open>C20: the length of a tickless sleep is safe: at most the configured maximum; on the primary CPU,
  with the time bound switched on, at most the ticks after which the time hands must be wound up; and, unless a fixed length is
  forced, never past the deadline of a callout this CPU must honour.\<close>

theorem cidle_skip_safe:
  assumes "co_reach P' (ks_co s)" "callout_next_ticks cur (ks_co s) = (next, co)"
    and "skip = cidle_skip P cd (cur = primary) (ks_tk s) next"
  shows "skip \<le> cidle_maxskip cd \<and> (cur = primary \<and> cidle_tc_bound cd \<longrightarrow> skip \<le> tc_max_windup_ticks P (ks_tk s)) \<and>
    (cidle_forceskip cd \<le> 0 \<and> callout_pending c (ks_co s) \<and> c_cpu (co_tab (ks_co s) c) = cur \<and>
       callout_next_honoured (callout_deferrable_enabled (ks_co s)) (co_tab (ks_co s) c) \<longrightarrow>
     skip \<le> max 0 (due_in (co_tab (ks_co s)) (co_cpu (ks_co s) cur) c))"
proof -
  note inv = reach_inv [OF assms(1)]
  note N = next_ticks_all [OF inv assms(2)]
  have "next \<le> max 0 (due_in (co_tab (ks_co s)) (co_cpu (ks_co s) cur) c)"
    if c: "callout_pending c (ks_co s)" "c_cpu (co_tab (ks_co s) c) = cur"
      "callout_next_honoured (callout_deferrable_enabled (ks_co s)) (co_tab (ks_co s) c)"
  proof -
    have "c \<in> placed (co_cpu (ks_co s) cur)"
      using cpu_okD(4) [OF co_invD [OF inv, of cur], of c] c(1,2) by (simp add: callout_pending_def)
    then consider "c \<in> set (cc_todo (co_cpu (ks_co s) cur))" | b where "c \<in> set (cc_wheel (co_cpu (ks_co s) cur) b)"
      by (auto simp: placed_def)
    then show ?thesis using N(4) N(5) [OF _ c(3)] by cases fastforce+
  qed
  moreover have "skip \<le> cidle_maxskip cd" unfolding assms(3) cidle_skip_def Let_def by simp
  moreover have "skip \<le> tc_max_windup_ticks P (ks_tk s)" if "cur = primary" "cidle_tc_bound cd"
    using that unfolding assms(3) cidle_skip_def Let_def cidle_windup_ticks_def by simp
  moreover have "skip \<le> next" if "cidle_forceskip cd \<le> 0"
    using that unfolding assms(3) cidle_skip_def Let_def by simp
  ultimately show ?thesis by (meson order_trans)
qed

lemma cidle_skip_safe_witness:
  "cidle_skip sample_platform (cidle0 \<lparr> cidle_tc_bound := True \<rparr>) True sample_timekeeping (fst (callout_next_ticks 0 co_boot)) \<le> 100"
proof -
  have "co_reach sample_platform (ks_co sample_ksys)" using co_boot_reach by (simp add: sample_ksys_def)
  from cidle_skip_safe [OF this surjective_pairing refl, where P = sample_platform and cd = "cidle0 \<lparr> cidle_tc_bound := True \<rparr>" and cur = 0 and primary = 0]
  show ?thesis by (simp add: sample_ksys_def cidle0_def)
qed

section \<open>The knobs stay in range\<close>

lemma cidle_knobI:
  assumes "\<And>v cd. get (put v cd) = v" "\<And>v cd. rej v cd = None \<Longrightarrow> lo \<le> v \<and> v \<le> hi"
  shows "int_knob (cidle_knob get put rej) get lo hi"
  using assms by unfold_locales (auto simp: cidle_knob_def split: prod.splits if_splits option.splits)

interpretation ck_hint: int_knob cidle_sysctl_hint cidle_hint 0 255
  unfolding cidle_sysctl_hint_def by (rule cidle_knobI) (auto split: if_splits)

interpretation ck_tickless: int_knob cidle_sysctl_tickless cidle_tickless 0 1
  unfolding cidle_sysctl_tickless_def by (rule cidle_knobI) (auto split: if_splits)

interpretation ck_maxskip: int_knob cidle_sysctl_maxskip cidle_maxskip 1 1400
  unfolding cidle_sysctl_maxskip_def by (rule cidle_knobI) (auto split: if_splits)

interpretation ck_minskip: int_knob cidle_sysctl_minskip cidle_minskip 1 1000
  unfolding cidle_sysctl_minskip_def by (rule cidle_knobI) (auto split: if_splits)

interpretation ck_forceskip: int_knob cidle_sysctl_forceskip cidle_forceskip 0 1400
  unfolding cidle_sysctl_forceskip_def by (rule cidle_knobI) (auto split: if_splits)

section \<open>Loading and unloading\<close>

definition cidle_hooked :: "nat \<Rightarrow> nat \<Rightarrow> cidle \<times> lpsched \<Rightarrow> bool" where
  "cidle_hooked fn prev cs \<longleftrightarrow> cidle_prev_func (fst cs) = prev \<and> cpu_idle_func (fst cs) = (if cidle_active (fst cs) then fn else prev) \<and>
    (lpsched_idle_hooked (snd cs) \<longrightarrow> cidle_active (fst cs))"

lemma install_hooked:
  "cidle_hooked fn prev cs \<Longrightarrow> cidle_hooked fn prev (cidle_install fn on cs) \<and> cidle_active (fst (cidle_install fn on cs)) = on"
  by (cases cs) (auto simp: cidle_hooked_def cidle_install_def Let_def)

lemma active_hooked: "cidle_hooked fn prev cs \<Longrightarrow> cidle_hooked fn prev (snd (cidle_sysctl_active fn lk newp cs))"
  by (auto simp: cidle_sysctl_active_def install_hooked split: prod.splits)

lemma actives_hooked:
  "cidle_hooked fn prev cs \<Longrightarrow> cidle_hooked fn prev (fold (\<lambda>(lk, newp) cs. snd (cidle_sysctl_active fn lk newp cs)) calls cs)"
proof (induction calls arbitrary: cs)
  case (Cons c calls)
  obtain lk newp where "c = (lk, newp)" by (cases c)
  then show ?case using Cons.IH [OF active_hooked [OF Cons.prems, of lk newp]] by simp
qed simp

text \<open>C29: unloading the module undoes loading it. Whatever sequence of writes switched the idle
  routine on and off in between, the CPU's idle routine is then the one from before, the module's
  routine is not installed, tickless idle is off, and the idle times are no longer reported.\<close>

theorem cidle_unload_restores:
  assumes "\<not> cidle_active cd" "\<not> lpsched_idle_hooked lp"
    and "cidle_modcmd True ecx has_bound fn MODULE_CMD_INIT (cd, lp) = (e1, cs1)"
    and "cs2 = fold (\<lambda>(lk, newp) cs. snd (cidle_sysctl_active fn lk newp cs)) calls cs1"
    and "cidle_modcmd True ecx has_bound fn MODULE_CMD_FINI cs2 = (e2, cd3, lp3)"
  shows "e1 = None \<and> e2 = None \<and> cpu_idle_func (fst cs1) = fn \<and> cpu_idle_func cd3 = cpu_idle_func cd \<and> \<not> cidle_active cd3 \<and>
    cidle_tickless cd3 = 0 \<and> \<not> lpsched_idle_hooked lp3"
proof -
  let ?cd = "cd \<lparr> cidle_cpuid5_ecx := ecx, cidle_tc_bound := cidle_tc_bound cd \<or> has_bound, cidle_prev_func := cpu_idle_func cd \<rparr>"
  have "cidle_hooked fn (cpu_idle_func cd) (?cd, lp)" using assms(1,2) by (simp add: cidle_hooked_def)
  note I = install_hooked [OF this, of True]
  have 1: "e1 = None" "cidle_hooked fn (cpu_idle_func cd) cs1" "cidle_active (fst cs1)"
    using assms(3) I by (auto simp: cidle_modcmd_def Let_def cidle_hooked_def split: prod.splits)
  have "cidle_hooked fn (cpu_idle_func cd) cs2" unfolding assms(4) by (rule actives_hooked [OF 1(2)])
  then have "cidle_hooked fn (cpu_idle_func cd) ((fst cs2) \<lparr> cidle_tickless := 0 \<rparr>, snd cs2)" by (simp add: cidle_hooked_def)
  note F = install_hooked [OF this, of False]
  have "cidle_tickless (fst (cidle_install fn False ((fst cs2) \<lparr> cidle_tickless := 0 \<rparr>, snd cs2))) = 0"
    by (simp add: cidle_install_def Let_def)
  then show ?thesis using 1 F assms(5) by (cases cs2) (auto simp: cidle_modcmd_def Let_def cidle_hooked_def split: prod.splits)
qed

lemma cidle_unload_restores_witness:
  "let cs1 = snd (cidle_modcmd True 3 True 7 MODULE_CMD_INIT (cidle0, lpsched_boot));
       cs2 = fold (\<lambda>(lk, newp) cs. snd (cidle_sysctl_active 7 lk newp cs)) [(\<lambda>n old. (None, the n), Some 0), (\<lambda>n old. (None, the n), Some 1)] cs1
   in cpu_idle_func (fst cs1) = 7 \<and> cpu_idle_func (fst (snd (cidle_modcmd True 3 True 7 MODULE_CMD_FINI cs2))) = 0"
  using cidle_unload_restores [of cidle0 lpsched_boot 3 True 7 "fst (cidle_modcmd True 3 True 7 MODULE_CMD_INIT (cidle0, lpsched_boot))",
      OF _ _ _ refl, of _ "[(\<lambda>n old. (None, the n), Some 0), (\<lambda>n old. (None, the n), Some 1)]"]
  by (simp add: Let_def cidle0_def lpsched_boot_def prod_eq_iff)

end
