(* ===== verification/Idle_Seqlock.thy ===== *)
theory Idle_Seqlock
  imports Lpsched_Sysctl
begin

text \<open>
  The generation protocol between \<^verbatim>\<open>lpsched_set_idle_depth\<close> (\<^verbatim>\<open>kernel/sys/lpsched.h\<close>), which
  updates a CPU's idle entry on that CPU, and \<^verbatim>\<open>lpsched_sysctl_cpu_idle\<close>
  (\<^verbatim>\<open>kernel/kern/kern_lpsched.c\<close>), which reads it from another. The writer's stores are single
  steps that interleave with the reader's four loads. Memory is sequentially consistent: the
  barriers of the code are taken to do what they are for.
\<close>

section \<open>The writer, one store at a time\<close>

text \<open>
  Where the owning CPU is: outside of a section, in the section that opens an interval (before
  and after the store of \<open>since\<close>), or in the one that closes it (before the update of
  \<open>cc\<close>, before the store of \<open>since\<close>, and after it). The sections carry the counter value
  read before they began. \<open>sq_writes\<close> counts the increments of the generation.
\<close>

datatype writer_pc = Outside | Open_since u64 | Open_gen | Close_cc u64 | Close_since | Close_gen

record seqlock =
  sq_li :: lpsched_idle
  sq_pc :: writer_pc
  sq_writes :: nat

definition bump_gen :: "seqlock \<Rightarrow> seqlock" where
  "bump_gen q = q \<lparr> sq_li := (sq_li q) \<lparr> li_gen := li_gen (sq_li q) + 1 \<rparr>, sq_writes := Suc (sq_writes q) \<rparr>"

inductive writer_step :: "seqlock \<Rightarrow> seqlock \<Rightarrow> bool" where
  rest: "writer_step q q"
| open_begin: "sq_pc q = Outside \<Longrightarrow> li_since (sq_li q) = 0 \<Longrightarrow>
    writer_step q ((bump_gen q) \<lparr> sq_pc := Open_since now \<rparr>)"
| open_since: "sq_pc q = Open_since now \<Longrightarrow>
    writer_step q (q \<lparr> sq_li := (sq_li q) \<lparr> li_since := now OR 1 \<rparr>, sq_pc := Open_gen \<rparr>)"
| open_end: "sq_pc q = Open_gen \<Longrightarrow> writer_step q ((bump_gen q) \<lparr> sq_pc := Outside \<rparr>)"
| close_begin: "sq_pc q = Outside \<Longrightarrow> li_since (sq_li q) \<noteq> 0 \<Longrightarrow>
    writer_step q ((bump_gen q) \<lparr> sq_pc := Close_cc now \<rparr>)"
| close_cc: "sq_pc q = Close_cc now \<Longrightarrow>
    writer_step q (q \<lparr> sq_li := (if now > li_since (sq_li q)
      then (sq_li q) \<lparr> li_cc := li_cc (sq_li q) + (now - li_since (sq_li q)) \<rparr> else sq_li q),
      sq_pc := Close_since \<rparr>)"
| close_since: "sq_pc q = Close_since \<Longrightarrow>
    writer_step q (q \<lparr> sq_li := (sq_li q) \<lparr> li_since := 0 \<rparr>, sq_pc := Close_gen \<rparr>)"
| close_end: "sq_pc q = Close_gen \<Longrightarrow> writer_step q ((bump_gen q) \<lparr> sq_pc := Outside \<rparr>)"

definition writer_trace :: "(nat \<Rightarrow> seqlock) \<Rightarrow> bool" where
  "writer_trace h \<longleftrightarrow> sq_pc (h 0) = Outside \<and> even (li_gen (sq_li (h 0))) \<and>
    (\<forall>t. writer_step (h t) (h (Suc t)))"

text \<open>The micro-steps of a section compose to the section as \<open>Lpsched\<close> defines it.\<close>

lemma open_section:
  assumes "sq_pc q = Outside" "li_since (sq_li q) = 0"
  shows "writer_step\<^sup>*\<^sup>* q \<lparr> sq_li = li_open now (sq_li q), sq_pc = Outside, sq_writes = sq_writes q + 2 \<rparr>"
proof -
  let ?a = "(bump_gen q) \<lparr> sq_pc := Open_since now \<rparr>"
  let ?b = "?a \<lparr> sq_li := (sq_li ?a) \<lparr> li_since := now OR 1 \<rparr>, sq_pc := Open_gen \<rparr>"
  let ?c = "(bump_gen ?b) \<lparr> sq_pc := Outside \<rparr>"
  have "writer_step q ?a" using assms by (rule open_begin)
  moreover have "writer_step ?a ?b" by (rule open_since) simp
  moreover have "writer_step ?b ?c" by (rule open_end) simp
  ultimately have "writer_step\<^sup>*\<^sup>* q ?c"
    by (blast intro: rtranclp.rtrancl_into_rtrancl)
  moreover have "?c = \<lparr> sq_li = li_open now (sq_li q), sq_pc = Outside, sq_writes = sq_writes q + 2 \<rparr>"
    by (cases q) (simp add: bump_gen_def li_open_def)
  ultimately show ?thesis by simp
qed

lemma close_section:
  assumes "sq_pc q = Outside" "li_since (sq_li q) \<noteq> 0"
  shows "writer_step\<^sup>*\<^sup>* q \<lparr> sq_li = li_close now (sq_li q), sq_pc = Outside, sq_writes = sq_writes q + 2 \<rparr>"
proof -
  let ?a = "(bump_gen q) \<lparr> sq_pc := Close_cc now \<rparr>"
  let ?b = "?a \<lparr> sq_li := (if now > li_since (sq_li ?a)
      then (sq_li ?a) \<lparr> li_cc := li_cc (sq_li ?a) + (now - li_since (sq_li ?a)) \<rparr> else sq_li ?a), sq_pc := Close_since \<rparr>"
  let ?c = "?b \<lparr> sq_li := (sq_li ?b) \<lparr> li_since := 0 \<rparr>, sq_pc := Close_gen \<rparr>"
  let ?d = "(bump_gen ?c) \<lparr> sq_pc := Outside \<rparr>"
  have ab: "writer_step q ?a" using assms by (rule close_begin)
  have bc: "writer_step ?a ?b" by (rule close_cc) simp
  have cd: "writer_step ?b ?c" by (rule close_since) simp
  have de: "writer_step ?c ?d" by (rule close_end) simp
  have "writer_step\<^sup>*\<^sup>* q ?d"
    using r_into_rtranclp [of writer_step, OF ab] bc cd de by (rule rtranclp.rtrancl_into_rtrancl [OF
      rtranclp.rtrancl_into_rtrancl [OF rtranclp.rtrancl_into_rtrancl]])
  moreover have "?d = \<lparr> sq_li = li_close now (sq_li q), sq_pc = Outside, sq_writes = sq_writes q + 2 \<rparr>"
    by (cases q) (simp add: bump_gen_def li_close_def Let_def)
  ultimately show ?thesis by simp
qed

section \<open>The reader\<close>

text \<open>
  One pass of the reader's loop over the memory \<open>m\<close>, the loads at the times \<open>t1\<close> to
  \<open>t4\<close>; \<open>None\<close> sends it round again.
\<close>

definition lpsched_idle_try ::
    "(nat \<Rightarrow> lpsched_idle) \<Rightarrow> nat \<Rightarrow> nat \<Rightarrow> nat \<Rightarrow> nat \<Rightarrow> (u64 \<times> u64) option" where
  "lpsched_idle_try m t1 t2 t3 t4 =
    (let g1 = li_gen (m t1); since = li_since (m t2); cc = li_cc (m t3); g2 = li_gen (m t4)
     in if g1 \<noteq> g2 \<or> g1 AND 1 \<noteq> 0 then None else Some (since, cc))"

section \<open>Consistency\<close>

definition sq_inv :: "u32 \<Rightarrow> nat \<Rightarrow> seqlock \<Rightarrow> bool" where
  "sq_inv g0 n0 q \<longleftrightarrow> n0 \<le> sq_writes q \<and> li_gen (sq_li q) = g0 + of_nat (sq_writes q - n0) \<and>
    (sq_pc q = Outside \<longleftrightarrow> even (li_gen (sq_li q)))"

lemma sq_inv_step:
  assumes "writer_step q q'" "sq_inv g0 n0 q"
  shows "sq_inv g0 n0 q'"
  using assms by cases (auto simp: sq_inv_def bump_gen_def Suc_diff_le)

lemma sq_inv_trace:
  assumes "writer_trace h"
  shows "sq_inv (li_gen (sq_li (h 0))) (sq_writes (h 0)) (h t)"
proof (induction t)
  case 0
  then show ?case using assms by (simp add: writer_trace_def sq_inv_def)
next
  case (Suc t)
  then show ?case using assms sq_inv_step unfolding writer_trace_def by blast
qed

lemma writes_step: "writer_step q q' \<Longrightarrow> sq_writes q \<le> sq_writes q'"
  by (cases rule: writer_step.cases) (auto simp: bump_gen_def)

lemma writes_mono:
  assumes "writer_trace h" "s \<le> t"
  shows "sq_writes (h s) \<le> sq_writes (h t)"
proof -
  have "sq_writes (h n) \<le> sq_writes (h (Suc n))" for n
    using assms(1) writes_step unfolding writer_trace_def by blast
  then show ?thesis by (rule lift_Suc_mono_le) (rule assms(2))
qed

text \<open>While the writer is outside of its sections and begins none, the entry does not change.\<close>

lemma quiet_step:
  assumes "writer_step q q'" "sq_pc q = Outside" "sq_writes q' = sq_writes q"
  shows "q' = q"
  using assms by cases (auto simp: bump_gen_def)

lemma quiet_interval:
  assumes h: "writer_trace h" and "sq_pc (h s) = Outside" and "sq_writes (h t) = sq_writes (h s)" and "s \<le> t"
  shows "h t = h s"
  using assms(3,4)
proof (induction t)
  case (Suc t)
  show ?case
  proof (cases "s = Suc t")
    case False
    then have "sq_writes (h t) = sq_writes (h s)"
      using writes_mono [OF h, of s t] writes_mono [OF h, of t "Suc t"] Suc.prems by simp
    moreover from this have "h t = h s" using Suc False by simp
    moreover have "writer_step (h t) (h (Suc t))" using h unfolding writer_trace_def by blast
    ultimately show ?thesis using quiet_step [of "h t" "h (Suc t)"] assms(2) Suc.prems by simp
  qed simp
qed simp

lemma of_nat_u32_inj:
  assumes "of_nat a = (of_nat b :: u32)" "a \<le> b" "b < a + 2 ^ 32"
  shows "a = b"
proof -
  have "a mod 2 ^ 32 = b mod 2 ^ 32" using assms(1) by (simp add: word_of_nat_eq_iff take_bit_eq_mod)
  then have "2 ^ 32 dvd b - a" using assms(2) mod_eq_dvd_iff_nat [of a b "2 ^ 32"] by simp
  moreover have "b - a < 2 ^ 32" using assms(2,3) by linarith
  ultimately show ?thesis using assms(2) nat_dvd_not_less [of "b - a" "2 ^ 32"] by (cases "a = b") simp_all
qed

text \<open>
  C37: a reader never sees a torn idle entry. Whatever stores of the owning CPU fall between the
  four loads of one pass, a pass that the reader accepts returns the entry time and the cycle
  count of one and the same moment, at which the writer was outside of its update sections. The
  generation must not wrap around completely within one pass.
\<close>

theorem seqlock_consistent:
  assumes h: "writer_trace h" and t: "t1 \<le> t2" "t2 \<le> t4" "t1 \<le> t3" "t3 \<le> t4"
    and n: "sq_writes (h t4) < sq_writes (h t1) + 2 ^ 32"
    and r: "lpsched_idle_try (\<lambda>t. sq_li (h t)) t1 t2 t3 t4 = Some (since, cc)"
  shows "sq_pc (h t1) = Outside \<and> since = li_since (sq_li (h t1)) \<and> cc = li_cc (sq_li (h t1))"
proof -
  let ?g0 = "li_gen (sq_li (h 0))" and ?n0 = "sq_writes (h 0)"
  have i: "sq_inv ?g0 ?n0 (h t)" for t by (rule sq_inv_trace [OF h])
  have g: "li_gen (sq_li (h t1)) = li_gen (sq_li (h t4))" and e: "li_gen (sq_li (h t1)) AND 1 = 0"
    and v: "since = li_since (sq_li (h t2))" "cc = li_cc (sq_li (h t3))"
    using r by (auto simp: lpsched_idle_try_def Let_def split: if_splits)
  let ?d1 = "sq_writes (h t1) - ?n0" and ?d4 = "sq_writes (h t4) - ?n0"
  have le: "?d1 \<le> ?d4" "?d4 < ?d1 + 2 ^ 32"
    using writes_mono [OF h, of t1 t4] t n i [of t1] unfolding sq_inv_def by auto
  have "of_nat ?d1 = (of_nat ?d4 :: u32)" using g i [of t1] i [of t4] unfolding sq_inv_def by simp
  from of_nat_u32_inj [OF this le] have "?d4 = ?d1" by simp
  then have w: "sq_writes (h t4) = sq_writes (h t1)"
    using i [of t1] i [of t4] unfolding sq_inv_def by (metis le_add_diff_inverse)
  have "even (li_gen (sq_li (h t1)))" using e by (simp add: and_one_eq even_iff_mod_2_eq_zero)
  then have o: "sq_pc (h t1) = Outside" using i [of t1] unfolding sq_inv_def by simp
  have "sq_writes (h t2) = sq_writes (h t1)" "sq_writes (h t3) = sq_writes (h t1)"
    using w writes_mono [OF h t(1)] writes_mono [OF h t(2)] writes_mono [OF h t(3)] writes_mono [OF h t(4)] by simp_all
  then show ?thesis using quiet_interval [OF h o, of t2] quiet_interval [OF h o, of t3] t v o by simp
qed

text \<open>A trace with one complete opening section.\<close>

definition sample_trace :: "nat \<Rightarrow> seqlock" where
  "sample_trace t =
    (let q0 = \<lparr> sq_li = lpsched_idle0, sq_pc = Outside, sq_writes = 0 \<rparr>;
         q1 = (bump_gen q0) \<lparr> sq_pc := Open_since 1000 \<rparr>;
         q2 = q1 \<lparr> sq_li := (sq_li q1) \<lparr> li_since := 1000 OR 1 \<rparr>, sq_pc := Open_gen \<rparr>;
         q3 = (bump_gen q2) \<lparr> sq_pc := Outside \<rparr>
     in if t = 0 then q0 else if t = 1 then q1 else if t = 2 then q2 else q3)"

lemma sample_trace_ok: "writer_trace sample_trace"
proof -
  have "writer_step (sample_trace t) (sample_trace (Suc t))" for t
  proof -
    consider "t = 0" | "t = 1" | "t = 2" | "3 \<le> t" by linarith
    then show ?thesis
    proof cases
      case 1
      then show ?thesis using open_begin [of "sample_trace 0" 1000]
        by (simp add: sample_trace_def lpsched_idle0_def)
    next
      case 2
      then show ?thesis using open_since [of "sample_trace 1" 1000] by (simp add: sample_trace_def Let_def)
    next
      case 3
      then show ?thesis using open_end [of "sample_trace 2"] by (simp add: sample_trace_def Let_def)
    next
      case 4
      then have "sample_trace (Suc t) = sample_trace t" by (simp add: sample_trace_def Let_def)
      then show ?thesis using rest by simp
    qed
  qed
  then show ?thesis by (simp add: writer_trace_def) (simp add: sample_trace_def lpsched_idle0_def)
qed

theorem seqlock_consistent_witness:
  "sq_pc (sample_trace 3) = Outside \<and> 1001 = li_since (sq_li (sample_trace 3)) \<and> 0 = li_cc (sq_li (sample_trace 3))"
  by (rule seqlock_consistent [where h = sample_trace and ?t2.0 = 4 and ?t3.0 = 5 and ?t4.0 = 6])
    (simp_all add: sample_trace_ok, simp_all add: sample_trace_def bump_gen_def lpsched_idle0_def lpsched_idle_try_def)

end
