(* ===== verification/Runq.thy ===== *)
theory Runq
  imports Lpsched
begin

text \<open>
  The run queues of \<^verbatim>\<open>kernel/kern/kern_runq.c\<close>: the per-CPU array of priority queues with its bitmap,
  counts and highest priority; enqueueing, dequeueing and choosing the next thread; the
  invariant that ties the parts together; and the abstract run queue, one list of threads in the
  order in which they will run, that the operations implement.

  A queue is a list of thread numbers. What the code takes from elsewhere is the record
  \<open>runq_conf\<close>: the number of priorities, the top user priority, the round robin quantum, and the
  scheduler's hooks.
\<close>

section \<open>State\<close>

record runq_conf =
  PRI_COUNT :: nat
  MAXPRI_USER :: int
  PRI_NONE :: int
  PRI_IDLE :: int
  PS_NONE :: int
  RESCHED_REMOTE :: u32
  RESCHED_IDLE :: u32
  RESCHED_UPREEMPT :: u32
  RESCHED_KPREEMPT :: u32
  mp_online :: bool
  sched_rrticks :: u32
  sched_newts :: "lwp \<Rightarrow> lwp"
  sched_oncpu :: "lwp \<Rightarrow> lwp"
  sched_setrunnable :: "lwp \<Rightarrow> lwp"

text \<open>
  The flag word \<^verbatim>\<open>spc_flags\<close> is one boolean per flag the code tests; \<open>spc_attached\<close> says that
  the queue's mutex exists.
\<close>

record schedstate_percpu =
  spc_attached :: bool
  spc_queue :: "nat \<Rightarrow> nat list"
  spc_bitmap :: "nat \<Rightarrow> u32"
  spc_count :: int
  spc_mcount :: int
  spc_maxpriority :: int
  spc_curpriority :: int
  spc_idle :: bool
  spc_offline :: bool
  spc_1stclass :: bool
  spc_switchclear :: bool
  spc_psid :: int
  spc_migrating :: "nat option"
  spc_nextpkg :: nat
  spc_nextskim :: u32

text \<open>The tunables of \<^verbatim>\<open>kern_runq.c\<close>.\<close>

record sched_tunables =
  cacheht_time :: u32
  min_catch :: u32
  skim_interval :: u32
  sched_kpreempt_pri :: int

text \<open>The part of \<^verbatim>\<open>struct proc\<close> that starting and stopping threads uses; processes are known by their \<^verbatim>\<open>p_pid\<close>.\<close>

record proc =
  p_nrlwps :: int
  p_sstop :: bool \<comment> \<open>\<^verbatim>\<open>p_stat == SSTOP\<close>\<close>
  p_stopping :: bool \<comment> \<open>\<^verbatim>\<open>PS_STOPPING\<close> in \<^verbatim>\<open>p_sflag\<close>\<close>
  p_waited :: bool
  p_traced :: bool \<comment> \<open>\<^verbatim>\<open>PSL_TRACED\<close> in \<^verbatim>\<open>p_slflag\<close>\<close>
  p_xsig :: int
  p_pptr :: int
  p_nstopchild :: int

text \<open>
  The scheduler: the threads, each CPU's run queue, its pending reschedule flags and running
  thread, the tunables, the processes, and the power scheduler's state.
\<close>

record sched =
  rq_lwps :: "nat \<Rightarrow> lwp"
  rq_spc :: "nat \<Rightarrow> schedstate_percpu"
  ci_want_resched :: "nat \<Rightarrow> u32"
  ci_onproc :: "nat \<Rightarrow> nat"
  rq_kicks :: "(nat \<times> nat \<times> u32) list" \<comment> \<open>the calls of \<^verbatim>\<open>cpu_need_resched\<close>, the latest first\<close>
  rq_tune :: sched_tunables
  rq_procs :: "int \<Rightarrow> proc"
  rq_lp :: lpsched

abbreviation (input) BITMAP_MSB :: u32 where "BITMAP_MSB \<equiv> 0x80000000"

abbreviation eprio :: "runq_conf \<Rightarrow> lwp \<Rightarrow> int" where "eprio R l \<equiv> lwp_eprio (MAXPRI_USER R) l"

definition upd_spc :: "nat \<Rightarrow> (schedstate_percpu \<Rightarrow> schedstate_percpu) \<Rightarrow> sched \<Rightarrow> sched" where
  "upd_spc k f s = s \<lparr> rq_spc := (rq_spc s)(k := f (rq_spc s k)) \<rparr>"

definition upd_lwp :: "nat \<Rightarrow> (lwp \<Rightarrow> lwp) \<Rightarrow> sched \<Rightarrow> sched" where
  "upd_lwp l f s = s \<lparr> rq_lwps := (rq_lwps s)(l := f (rq_lwps s l)) \<rparr>"

definition runq_init :: "sched \<Rightarrow> sched" where
  "runq_init s = s \<lparr> rq_tune := (rq_tune s) \<lparr> cacheht_time := 10, min_catch := 1, skim_interval := 10 \<rparr> \<rparr>"

text \<open>A CPU attached a second time keeps its queues.\<close>

definition sched_cpuattach :: "nat \<Rightarrow> sched \<Rightarrow> sched" where
  "sched_cpuattach ci = upd_spc ci (\<lambda>spc.
    let spc = spc \<lparr> spc_nextpkg := ci \<rparr>
    in if spc_attached spc then spc else spc \<lparr> spc_attached := True, spc_queue := \<lambda>_. [] \<rparr>)"

section \<open>Operations\<close>

definition bitmap_mask :: "nat \<Rightarrow> u32" where
  "bitmap_mask p = drop_bit (p mod 32) BITMAP_MSB"

text \<open>Where a thread goes in its queue: a preempted one may go back to the head.\<close>

definition runq_at_head :: "runq_conf \<Rightarrow> u32 \<Rightarrow> lwp \<Rightarrow> bool" where
  "runq_at_head R getticks l \<longleftrightarrow> l_pflag l AND LP_PREEMPTING \<noteq> 0 \<and>
    (case l_class l of
       SCHED_OTHER \<Rightarrow> False
     | SCHED_FIFO \<Rightarrow> True
     | SCHED_RR \<Rightarrow> \<not> getticks - l_rticks l \<ge> sched_rrticks R)"

definition runq_insert :: "nat \<Rightarrow> bool \<Rightarrow> nat \<Rightarrow> schedstate_percpu \<Rightarrow> schedstate_percpu" where
  "runq_insert p head l spc =
    (let spc = (if spc_queue spc p = []
                then spc \<lparr> spc_bitmap := (spc_bitmap spc)(p div 32 := spc_bitmap spc (p div 32) OR bitmap_mask p) \<rparr>
                else spc)
     in spc \<lparr> spc_queue := (spc_queue spc)(p := (if head then l # spc_queue spc p else spc_queue spc p @ [l])) \<rparr>)"

definition sched_enqueue :: "platform \<Rightarrow> runq_conf \<Rightarrow> u64 \<Rightarrow> u32 \<Rightarrow> nat \<Rightarrow> sched \<Rightarrow> sched" where
  "sched_enqueue P R now getticks l s =
    (let v = rq_lwps s l; ci = l_cpu v; pri = eprio R v;
         spc = runq_insert (nat pri) (runq_at_head R getticks v) l (rq_spc s ci);
         spc = spc \<lparr> spc_idle := False \<rparr>;
         (v, lp) = (if lpsched_accounting (rq_lp s) then lpsched_enqueued P now v ci (spc_count spc = 0) (rq_lp s) else (v, rq_lp s));
         spc = spc \<lparr> spc_count := spc_count spc + 1 \<rparr>;
         spc = (if l_pflag v AND LP_BOUND = 0 then spc \<lparr> spc_mcount := spc_mcount spc + 1 \<rparr> else spc);
         spc = (if pri > spc_maxpriority spc then spc \<lparr> spc_maxpriority := pri \<rparr> else spc)
     in s \<lparr> rq_lwps := (rq_lwps s)(l := sched_newts R v), rq_spc := (rq_spc s)(ci := spc), rq_lp := lp \<rparr>)"

definition ffs :: "u32 \<Rightarrow> nat" where
  "ffs x = (case find (bit x) [0..<32] of None \<Rightarrow> 0 | Some i \<Rightarrow> i + 1)"

primrec bitmap_highest :: "(nat \<Rightarrow> u32) \<Rightarrow> nat \<Rightarrow> nat" where
  "bitmap_highest bm 0 = (if bm 0 \<noteq> 0 then 32 - ffs (bm 0) else 0)"
| "bitmap_highest bm (Suc i) = (if bm (Suc i) \<noteq> 0 then Suc i * 32 + (32 - ffs (bm (Suc i))) else bitmap_highest bm i)"

definition runq_remove :: "nat \<Rightarrow> int \<Rightarrow> nat \<Rightarrow> schedstate_percpu \<Rightarrow> schedstate_percpu" where
  "runq_remove p pri l spc =
    (let spc = spc \<lparr> spc_queue := (spc_queue spc)(p := remove1 l (spc_queue spc p)) \<rparr>
     in if spc_queue spc p = [] then
          let i = p div 32;
              spc = spc \<lparr> spc_bitmap := (spc_bitmap spc)(i := spc_bitmap spc i AND NOT (bitmap_mask p)) \<rparr>
          in if pri \<noteq> spc_maxpriority spc then spc
             else spc \<lparr> spc_maxpriority := int (bitmap_highest (spc_bitmap spc) i) \<rparr>
        else spc)"

definition sched_dequeue :: "platform \<Rightarrow> runq_conf \<Rightarrow> nat \<Rightarrow> sched \<Rightarrow> sched" where
  "sched_dequeue P R l s =
    (let v = rq_lwps s l; ci = l_cpu v; pri = eprio R v; spc = rq_spc s ci;
         spc = (if spc_migrating spc = Some l then spc \<lparr> spc_migrating := None \<rparr> else spc);
         spc = spc \<lparr> spc_count := spc_count spc - 1 \<rparr>;
         lp = (if lpsched_accounting (rq_lp s) then lpsched_dequeued P ci (spc_count spc = 0) (rq_lp s) else rq_lp s);
         spc = (if l_pflag v AND LP_BOUND = 0 then spc \<lparr> spc_mcount := spc_mcount spc - 1 \<rparr> else spc)
     in s \<lparr> rq_spc := (rq_spc s)(ci := runq_remove (nat pri) pri l spc), rq_lp := lp \<rparr>)"

text \<open>\<open>cur\<close> is the CPU, \<open>me\<close> the running thread.\<close>

definition sched_nextlwp :: "platform \<Rightarrow> runq_conf \<Rightarrow> u64 \<Rightarrow> u32 \<Rightarrow> nat \<Rightarrow> nat \<Rightarrow> sched \<Rightarrow> nat option \<times> sched" where
  "sched_nextlwp P R now getticks cur me s =
    (let s = upd_lwp me (\<lambda>l. l \<lparr> l_rticksum := l_rticksum l + (getticks - l_rticks l) \<rparr>) s;
         spc = rq_spc s cur;
         account = (\<lambda>next s. if lpsched_accounting (rq_lp s)
                    then let (L, lp) = lpsched_switch P now cur (Some me) next (rq_lwps s, rq_lp s) in s \<lparr> rq_lwps := L, rq_lp := lp \<rparr>
                    else s)
     in if spc_migrating spc \<noteq> None \<or> spc_count spc = 0 then (None, account None s)
        else
          case spc_queue spc (nat (spc_maxpriority spc)) of
            [] \<Rightarrow> (None, account None s)
          | l # _ \<Rightarrow> (Some l, upd_lwp l (\<lambda>v. (sched_oncpu R v) \<lparr> l_rticks := getticks \<rparr>) (account (Some l) s)))"

definition sched_curcpu_runnable_p :: "nat \<Rightarrow> sched \<Rightarrow> bool" where
  "sched_curcpu_runnable_p cur s \<longleftrightarrow> spc_count (rq_spc s cur) \<noteq> 0"

text \<open>\<open>sched_pstats_hook\<close> is the scheduling policy's.\<close>

definition sched_lwp_stats :: "(nat \<Rightarrow> bool \<Rightarrow> sched \<Rightarrow> sched) \<Rightarrow> nat \<Rightarrow> sched \<Rightarrow> sched" where
  "sched_lwp_stats sched_pstats_hook n s =
    (let l = rq_lwps s n;
         l = (if l_stat l = LSSLEEP \<or> l_stat l = LSSTOP \<or> l_stat l = LSSUSPENDED then l \<lparr> l_slptime := l_slptime l + 1 \<rparr> else l);
         busy = l_rticksum l > l_slpticksum l;
         batch = (busy \<and> l_flag l AND LW_BATCH \<noteq> 0);
         l = (if busy then l \<lparr> l_flag := l_flag l OR LW_BATCH \<rparr> else l \<lparr> l_flag := l_flag l AND NOT LW_BATCH \<rparr>);
         l = l \<lparr> l_slpticksum := 0, l_rticksum := 0 \<rparr>
     in sched_pstats_hook n batch (upd_lwp n (\<lambda>_. l) s))"

section \<open>The bitmap\<close>

definition bitmap_has :: "(nat \<Rightarrow> u32) \<Rightarrow> nat \<Rightarrow> bool" where
  "bitmap_has bm p \<longleftrightarrow> bit (bm (p div 32)) (31 - p mod 32)"

lemma bitmap_mask_bit: "bit (bitmap_mask p) n \<longleftrightarrow> n = 31 - p mod 32"
proof -
  have msb: "BITMAP_MSB = push_bit 31 1" by simp
  have "bit (drop_bit k BITMAP_MSB) n \<longleftrightarrow> n = 31 - k" if "k < 32" for k
    unfolding msb using that by (auto simp: bit_drop_bit_eq bit_push_bit_iff bit_1_iff simp del: push_bit_of_1)
  then show ?thesis unfolding bitmap_mask_def by simp
qed

lemma same_slot: "p div 32 = q div 32 \<Longrightarrow> 31 - p mod 32 = 31 - q mod 32 \<Longrightarrow> p = (q :: nat)"
proof -
  assume "p div 32 = q div 32" "31 - p mod 32 = 31 - q mod 32"
  moreover have "p mod 32 < 32" "q mod 32 < 32" by simp_all
  ultimately have "p mod 32 = q mod 32" by linarith
  then show "p = q" using \<open>p div 32 = q div 32\<close> div_mult_mod_eq by metis
qed

lemma bitmap_has_mark: "bitmap_has (bm(p div 32 := bm (p div 32) OR bitmap_mask p)) q \<longleftrightarrow> q = p \<or> bitmap_has bm q"
  using same_slot [of q p] by (auto simp: bitmap_has_def bit_or_iff bitmap_mask_bit)

lemma bitmap_has_unmark: "bitmap_has (bm(p div 32 := bm (p div 32) AND NOT (bitmap_mask p))) q \<longleftrightarrow> q \<noteq> p \<and> bitmap_has bm q"
  using same_slot [of q p] by (auto simp: bitmap_has_def bit_and_iff bit_not_iff bitmap_mask_bit)

lemma ffs_low:
  assumes "x \<noteq> 0"
  shows "0 < ffs x" "ffs x \<le> 32" "bit x (ffs x - 1)" "\<And>n. bit x n \<Longrightarrow> ffs x - 1 \<le> n"
proof -
  obtain n where "bit x n" using assms bit_eq_iff [of x 0] by auto
  then have "n < 32" using bit_imp_le_length [of x n] by simp
  then obtain i where i: "find (bit x) [0..<32] = Some i" using \<open>bit x n\<close> by (cases "find (bit x) [0..<32]") (auto simp: find_None_iff)
  then have p: "i < 32" "bit x i" "\<forall>j<i. \<not> bit x j" by (auto simp: find_Some_iff)
  have e: "ffs x = i + 1" using i by (simp add: ffs_def)
  show "0 < ffs x" "ffs x \<le> 32" "bit x (ffs x - 1)" using e p by simp_all
  show "bit x n \<Longrightarrow> ffs x - 1 \<le> n" for n using p(3) e by (cases "n < i") auto
qed

lemma bitmap_highest_spec:
  "if \<exists>p. bitmap_has bm p \<and> p div 32 \<le> i
   then bitmap_has bm (bitmap_highest bm i) \<and> (\<forall>p. bitmap_has bm p \<and> p div 32 \<le> i \<longrightarrow> p \<le> bitmap_highest bm i)
   else bitmap_highest bm i = 0"
proof -
  have hit: "bitmap_has bm (i * 32 + (32 - ffs (bm i))) \<and> (\<forall>p. bitmap_has bm p \<and> p div 32 \<le> i \<longrightarrow> p \<le> i * 32 + (32 - ffs (bm i)))"
    if nz: "bm i \<noteq> 0" for i
  proof -
    note F = ffs_low [OF nz]
    let ?p = "i * 32 + (32 - ffs (bm i))"
    have "(i * 32 + r) div 32 = i \<and> (i * 32 + r) mod 32 = r" if "r < 32" for r :: nat using that by auto
    then have d: "?p div 32 = i" "?p mod 32 = 32 - ffs (bm i)" using F(1) by simp_all
    have "31 - (32 - ffs (bm i)) = ffs (bm i) - 1" using F(1,2) by simp
    then have "bitmap_has bm ?p" unfolding bitmap_has_def d using F(3) by simp
    moreover have "q \<le> ?p" if q: "bitmap_has bm q" "q div 32 \<le> i" for q
    proof (cases "q div 32 = i")
      case True
      have "ffs (bm i) - 1 \<le> 31 - q mod 32" using q(1) F(4) True unfolding bitmap_has_def by blast
      moreover have "q = i * 32 + q mod 32" "q mod 32 < 32" using True div_mult_mod_eq [of q 32] by simp_all
      ultimately show ?thesis using F(1,2) by linarith
    next
      case False
      then have "q div 32 < i" using q(2) by simp
      then show ?thesis by linarith
    qed
    ultimately show ?thesis by blast
  qed
  have none: "\<not> bitmap_has bm p" if "bm (p div 32) = 0" for p using that by (simp add: bitmap_has_def)
  show ?thesis
  proof (induction i)
    case 0
    then show ?case
    proof (cases "bm 0 = 0")
      case True
      have "\<not> (bitmap_has bm p \<and> p div 32 \<le> 0)" for p
      proof
        assume a: "bitmap_has bm p \<and> p div 32 \<le> 0"
        then have "bm (p div 32) = 0" using True by simp
        then show False using none a by blast
      qed
      then have "\<not> (\<exists>p. bitmap_has bm p \<and> p div 32 \<le> 0)" by blast
      then show ?thesis by (simp only: if_False bitmap_highest.simps True simp_thms)
    next
      case False
      have "(32 - ffs (bm 0)) div 32 \<le> 0" using ffs_low(1) [OF False] by simp
      then have "\<exists>p. bitmap_has bm p \<and> p div 32 \<le> 0" using hit [OF False] by (intro exI [of _ "32 - ffs (bm 0)"]) simp
      then show ?thesis using hit [OF False] False by simp
    qed
  next
    case (Suc i)
    show ?case
    proof (cases "bm (Suc i) = 0")
      case True
      then have "bitmap_has bm p \<and> p div 32 \<le> Suc i \<longleftrightarrow> bitmap_has bm p \<and> p div 32 \<le> i" for p
        using none [of p] by (auto simp: le_Suc_eq)
      then show ?thesis using Suc True by simp
    next
      case False
      then have e: "bitmap_highest bm (Suc i) = Suc i * 32 + (32 - ffs (bm (Suc i)))" by simp
      note H = hit [OF False]
      have "Suc i * 32 + (32 - ffs (bm (Suc i))) \<le> Suc i * 32 + 31" using ffs_low(1) [OF False] by simp
      then have "(Suc i * 32 + (32 - ffs (bm (Suc i)))) div 32 \<le> (Suc i * 32 + 31) div 32" by (rule div_le_mono)
      then have "(Suc i * 32 + (32 - ffs (bm (Suc i)))) div 32 \<le> Suc i" by simp
      then have ex: "\<exists>p. bitmap_has bm p \<and> p div 32 \<le> Suc i" using H by blast
      show ?thesis unfolding e if_P [OF ex] using H .
    qed
  qed
qed

end
