(* ===== verification/Runq_Inv.thy ===== *)
theory Runq_Inv
  imports Runq
begin

text \<open>
  The run queue's invariant and what it implements. \<open>rq_order\<close> reads a CPU's run queue as one
  list, highest priority first. Under the invariant \<open>spc_ok\<close> the bitmap, the counts and the
  highest priority agree with that list, enqueueing is an insertion that respects the order of
  priorities, dequeueing removes one thread, and the thread chosen is the head of the list.
\<close>

section \<open>The queue as one list\<close>

definition rq_order :: "runq_conf \<Rightarrow> schedstate_percpu \<Rightarrow> nat list" where
  "rq_order R spc = concat (map (spc_queue spc) (rev [0..<PRI_COUNT R]))"

definition lwp_unbound :: "lwp \<Rightarrow> bool" where
  "lwp_unbound l \<longleftrightarrow> l_pflag l AND LP_BOUND = 0"

definition spc_ok :: "runq_conf \<Rightarrow> (nat \<Rightarrow> lwp) \<Rightarrow> nat \<Rightarrow> schedstate_percpu \<Rightarrow> bool" where
  "spc_ok R L k spc \<longleftrightarrow>
    (\<forall>p. bitmap_has (spc_bitmap spc) p \<longleftrightarrow> spc_queue spc p \<noteq> []) \<and>
    (\<forall>p. \<forall>l \<in> set (spc_queue spc p). p < PRI_COUNT R \<and> eprio R (L l) = int p \<and> l_cpu (L l) = k) \<and>
    distinct (rq_order R spc) \<and>
    spc_count spc = int (length (rq_order R spc)) \<and>
    spc_mcount spc = int (length (filter (\<lambda>l. lwp_unbound (L l)) (rq_order R spc))) \<and>
    spc_maxpriority spc = (case rq_order R spc of [] \<Rightarrow> 0 | l # _ \<Rightarrow> eprio R (L l)) \<and>
    (\<forall>l. spc_migrating spc = Some l \<longrightarrow> l \<in> set (rq_order R spc))"

definition rq_ok :: "runq_conf \<Rightarrow> sched \<Rightarrow> bool" where
  "rq_ok R s \<longleftrightarrow> (\<forall>k. spc_ok R (rq_lwps s) k (rq_spc s k))"

text \<open>The threads queued on a CPU, and whether a thread is queued anywhere.\<close>

definition rq_list :: "runq_conf \<Rightarrow> nat \<Rightarrow> sched \<Rightarrow> nat list" where
  "rq_list R k s = rq_order R (rq_spc s k)"

definition rq_queued :: "runq_conf \<Rightarrow> sched \<Rightarrow> nat \<Rightarrow> bool" where
  "rq_queued R s l \<longleftrightarrow> l \<in> set (rq_list R (l_cpu (rq_lwps s l)) s)"

text \<open>
  Insertion that keeps the list in the order of priorities: behind every thread of at least the
  same priority, or, at the head of its own priority, behind the threads above it.
\<close>

definition insert_prio :: "(nat \<Rightarrow> int) \<Rightarrow> bool \<Rightarrow> nat \<Rightarrow> nat list \<Rightarrow> nat list" where
  "insert_prio pri head l xs =
    (let before = (\<lambda>x. pri l < pri x \<or> (\<not> head \<and> pri l = pri x))
     in takeWhile before xs @ l # dropWhile before xs)"

subsection \<open>Splitting the list at one priority\<close>

lemma rq_split:
  assumes "p < PRI_COUNT R"
  shows "rq_order R (spc \<lparr> spc_queue := (spc_queue spc)(p := xs) \<rparr>) =
    concat (map (spc_queue spc) (rev [Suc p..<PRI_COUNT R])) @ xs @ concat (map (spc_queue spc) (rev [0..<p]))"
proof -
  have "[0..<PRI_COUNT R] = [0..<p] @ p # [Suc p..<PRI_COUNT R]"
    using assms upt_add_eq_append [of 0 p "PRI_COUNT R - p"] upt_conv_Cons [OF assms] by simp
  moreover have "map ((spc_queue spc)(p := xs)) (rev [Suc p..<PRI_COUNT R]) = map (spc_queue spc) (rev [Suc p..<PRI_COUNT R])"
    "map ((spc_queue spc)(p := xs)) (rev [0..<p]) = map (spc_queue spc) (rev [0..<p])" by auto
  ultimately show ?thesis by (simp add: rq_order_def)
qed

lemma rq_split_self:
  assumes "p < PRI_COUNT R"
  shows "rq_order R spc =
    concat (map (spc_queue spc) (rev [Suc p..<PRI_COUNT R])) @ spc_queue spc p @ concat (map (spc_queue spc) (rev [0..<p]))"
  using rq_split [OF assms, of spc "spc_queue spc p"] by simp

lemma rq_order_cong [simp]:
  "rq_order R (spc \<lparr> spc_bitmap := b \<rparr>) = rq_order R spc" "rq_order R (spc \<lparr> spc_count := c \<rparr>) = rq_order R spc"
  "rq_order R (spc \<lparr> spc_mcount := c \<rparr>) = rq_order R spc" "rq_order R (spc \<lparr> spc_maxpriority := m \<rparr>) = rq_order R spc"
  "rq_order R (spc \<lparr> spc_idle := i \<rparr>) = rq_order R spc" "rq_order R (spc \<lparr> spc_migrating := g \<rparr>) = rq_order R spc"
  "rq_order R (spc \<lparr> spc_curpriority := m \<rparr>) = rq_order R spc" "rq_order R (spc \<lparr> spc_nextpkg := n \<rparr>) = rq_order R spc"
  "rq_order R (spc \<lparr> spc_nextskim := t \<rparr>) = rq_order R spc" "rq_order R (spc \<lparr> spc_switchclear := i \<rparr>) = rq_order R spc"
  by (simp_all add: rq_order_def)

lemma rq_order_mem: "l \<in> set (rq_order R spc) \<longleftrightarrow> (\<exists>p < PRI_COUNT R. l \<in> set (spc_queue spc p))"
  by (auto simp: rq_order_def)

text \<open>The first thread of the list is the first of the highest non-empty queue.\<close>

lemma rq_order_first:
  assumes "p < PRI_COUNT R" "spc_queue spc p = l # xs" "\<And>q. p < q \<Longrightarrow> q < PRI_COUNT R \<Longrightarrow> spc_queue spc q = []"
  shows "\<exists>ys. rq_order R spc = l # ys"
proof -
  have h: "concat (map (spc_queue spc) (rev [Suc p..<PRI_COUNT R])) = []" using assms(3) by auto
  show ?thesis unfolding rq_split_self [OF assms(1)] h assms(2) by simp
qed

subsection \<open>Consequences of the invariant\<close>

lemma spc_okD:
  assumes "spc_ok R L k spc"
  shows "bitmap_has (spc_bitmap spc) p \<longleftrightarrow> spc_queue spc p \<noteq> []"
    "l \<in> set (spc_queue spc p) \<Longrightarrow> p < PRI_COUNT R \<and> eprio R (L l) = int p \<and> l_cpu (L l) = k"
    "distinct (rq_order R spc)" "spc_count spc = int (length (rq_order R spc))"
    "spc_mcount spc = int (length (filter (\<lambda>l. lwp_unbound (L l)) (rq_order R spc)))"
    "spc_maxpriority spc = (case rq_order R spc of [] \<Rightarrow> 0 | l # _ \<Rightarrow> eprio R (L l))"
    "spc_migrating spc = Some l \<Longrightarrow> l \<in> set (rq_order R spc)"
  using assms unfolding spc_ok_def by blast+

text \<open>The invariant reads of a thread only its priorities, its CPU and whether it is bound.\<close>

definition lwp_pris :: "lwp \<Rightarrow> int \<times> int \<times> int" where
  "lwp_pris l = (l_priority l, l_boostpri l, l_auxprio l)"

definition lwp_place :: "lwp \<Rightarrow> (int \<times> int \<times> int) \<times> nat \<times> bool" where
  "lwp_place l = (lwp_pris l, l_cpu l, lwp_unbound l)"

lemma place_eq:
  assumes "lwp_place v' = lwp_place v"
  shows "eprio R v' = eprio R v" "l_cpu v' = l_cpu v" "lwp_unbound v' = lwp_unbound v" "lwp_pris v' = lwp_pris v"
  using assms by (simp_all add: lwp_place_def lwp_pris_def lwp_eprio_def Let_def)

lemma spc_ok_cong:
  assumes same: "\<And>l. l \<in> set (rq_order R spc) \<Longrightarrow> lwp_place (L' l) = lwp_place (L l)" and ok: "spc_ok R L k spc"
  shows "spc_ok R L' k spc"
proof -
  have e: "eprio R (L' l) = eprio R (L l)" "l_cpu (L' l) = l_cpu (L l)" "lwp_unbound (L' l) = lwp_unbound (L l)"
    if "l \<in> set (rq_order R spc)" for l using place_eq [OF same [OF that]] by simp_all
  have "filter (\<lambda>l. lwp_unbound (L' l)) (rq_order R spc) = filter (\<lambda>l. lwp_unbound (L l)) (rq_order R spc)"
    using e(3) by (intro filter_cong) auto
  moreover have "(case rq_order R spc of [] \<Rightarrow> 0 | l # _ \<Rightarrow> eprio R (L' l)) = (case rq_order R spc of [] \<Rightarrow> 0 | l # _ \<Rightarrow> eprio R (L l))"
    using e(1) by (cases "rq_order R spc") auto
  moreover have "\<forall>p. \<forall>l \<in> set (spc_queue spc p). p < PRI_COUNT R \<and> eprio R (L' l) = int p \<and> l_cpu (L' l) = k"
    using spc_okD(2) [OF ok] e(1,2) rq_order_mem by metis
  ultimately show ?thesis using ok unfolding spc_ok_def by presburger
qed

text \<open>The list is in the order of priorities.\<close>

lemma spc_ok_levels:
  assumes ok: "spc_ok R L k spc" and "x \<in> set (concat (map (spc_queue spc) (rev [a..<b])))"
  shows "int a \<le> eprio R (L x) \<and> eprio R (L x) < int b"
  using assms(2) spc_okD(2) [OF ok] by fastforce

lemma spc_ok_sorted:
  assumes ok: "spc_ok R L k spc"
  shows "sorted_wrt (\<lambda>x y. eprio R (L x) \<ge> eprio R (L y)) (rq_order R spc)"
proof -
  have "sorted_wrt (\<lambda>x y. eprio R (L x) \<ge> eprio R (L y)) (concat (map (spc_queue spc) (rev [0..<n])))" for n
  proof (induction n)
    case (Suc n)
    have "sorted_wrt (\<lambda>x y. eprio R (L x) \<ge> eprio R (L y)) (spc_queue spc n)"
      using spc_okD(2) [OF ok, of _ n] by (intro sorted_wrt_iff_nth_less [THEN iffD2] allI impI) (metis nth_mem less_trans order_refl)
    moreover have "eprio R (L y) \<le> eprio R (L x)"
      if "x \<in> set (spc_queue spc n)" "y \<in> set (concat (map (spc_queue spc) (rev [0..<n])))" for x y
      using spc_okD(2) [OF ok that(1)] spc_ok_levels [OF ok that(2)] by simp
    ultimately show ?case using Suc.IH by (auto simp: sorted_wrt_append)
  qed simp
  then show ?thesis by (simp add: rq_order_def)
qed

section \<open>Enqueueing\<close>

lemma runq_insert_queue: "spc_queue (runq_insert p head l spc) =
    (spc_queue spc)(p := (if head then l # spc_queue spc p else spc_queue spc p @ [l]))"
  by (simp add: runq_insert_def Let_def)

lemma runq_insert_bitmap:
  assumes "\<And>q. bitmap_has (spc_bitmap spc) q \<longleftrightarrow> spc_queue spc q \<noteq> []"
  shows "bitmap_has (spc_bitmap (runq_insert p head l spc)) q \<longleftrightarrow> spc_queue (runq_insert p head l spc) q \<noteq> []"
  using assms [of q] assms [of p] by (auto simp: runq_insert_def Let_def bitmap_has_mark)

lemma runq_insert_frame [simp]:
  "spc_count (runq_insert p head l spc) = spc_count spc" "spc_mcount (runq_insert p head l spc) = spc_mcount spc"
  "spc_maxpriority (runq_insert p head l spc) = spc_maxpriority spc"
  "spc_migrating (runq_insert p head l spc) = spc_migrating spc"
  by (simp_all add: runq_insert_def Let_def)

lemma insert_prio_split: "\<exists>ys zs. xs = ys @ zs \<and> insert_prio pri head l xs = ys @ l # zs"
  unfolding insert_prio_def Let_def
  by (intro exI [of _ "takeWhile (\<lambda>x. pri l < pri x \<or> \<not> head \<and> pri l = pri x) xs"]
      exI [of _ "dropWhile (\<lambda>x. pri l < pri x \<or> \<not> head \<and> pri l = pri x) xs"]) simp

lemma insert_prio_facts:
  "set (insert_prio pri head l xs) = insert l (set xs)"
  "length (insert_prio pri head l xs) = Suc (length xs)"
  "length (filter P (insert_prio pri head l xs)) = (if P l then 1 else 0) + length (filter P xs)"
  "distinct (insert_prio pri head l xs) \<longleftrightarrow> l \<notin> set xs \<and> distinct xs"
  using insert_prio_split [of xs pri head l] by auto

lemma insert_prio_first:
  "insert_prio pri head l [] = [l]"
  "insert_prio pri head l (y # ys) =
    (if pri l < pri y \<or> \<not> head \<and> pri l = pri y then y # insert_prio pri head l ys else l # y # ys)"
  by (simp_all add: insert_prio_def Let_def)

lemma insert_prio_at:
  assumes "\<forall>x \<in> set hi. pri l < pri x" and mid: "\<forall>x \<in> set q. pri x = pri l" and lo: "\<forall>x \<in> set lo. pri x < pri l"
  shows "insert_prio pri head l (hi @ q @ lo) = hi @ (if head then l # q else q @ [l]) @ lo"
  using assms(1)
proof (induction hi)
  case Nil
  have l: "insert_prio pri head l lo = l # lo" using lo by (cases lo) (auto simp: insert_prio_first)
  show ?case
  proof (cases head)
    case True
    then show ?thesis using l mid by (cases q) (auto simp: insert_prio_first)
  next
    case False
    then have "insert_prio pri False l (q @ lo) = q @ l # lo" using mid l by (induction q) (auto simp: insert_prio_first)
    then show ?thesis using False by simp
  qed
qed (simp add: insert_prio_first)

lemma runq_insert_order:
  assumes ok: "spc_ok R L k spc" and p: "p < PRI_COUNT R" "eprio R (L l) = int p"
  shows "rq_order R (runq_insert p head l spc) = insert_prio (\<lambda>x. eprio R (L x)) head l (rq_order R spc)"
proof -
  define hi where "hi = concat (map (spc_queue spc) (rev [Suc p..<PRI_COUNT R]))"
  define lo where "lo = concat (map (spc_queue spc) (rev [0..<p]))"
  define q where "q = spc_queue spc p"
  have h: "\<forall>x \<in> set hi. eprio R (L l) < eprio R (L x)" using spc_ok_levels [OF ok] p(2) unfolding hi_def by fastforce
  have l: "\<forall>x \<in> set lo. eprio R (L x) < eprio R (L l)" using spc_ok_levels [OF ok] p(2) unfolding lo_def by fastforce
  have m: "\<forall>x \<in> set q. eprio R (L x) = eprio R (L l)" using spc_okD(2) [OF ok, of _ p] p(2) unfolding q_def by simp
  have "rq_order R spc = hi @ q @ lo" unfolding hi_def q_def lo_def by (rule rq_split_self [OF p(1)])
  moreover have "rq_order R (runq_insert p head l spc) = hi @ (if head then l # q else q @ [l]) @ lo"
    unfolding hi_def q_def lo_def rq_split [OF p(1), of spc, symmetric] by (simp add: rq_order_def runq_insert_queue)
  ultimately show ?thesis using insert_prio_at [OF h m l, of head] by simp
qed

text \<open>The run queue \<^verbatim>\<open>sched_enqueue\<close> leaves behind.\<close>

definition spc_enqueued :: "nat \<Rightarrow> bool \<Rightarrow> bool \<Rightarrow> nat \<Rightarrow> schedstate_percpu \<Rightarrow> schedstate_percpu" where
  "spc_enqueued p head unbound l spc = (runq_insert p head l spc)
    \<lparr> spc_idle := False, spc_count := spc_count spc + 1, spc_mcount := spc_mcount spc + (if unbound then 1 else 0),
      spc_maxpriority := max (spc_maxpriority spc) (int p) \<rparr>"

lemma spc_enqueued_order: "rq_order R (spc_enqueued p head ub l spc) = rq_order R (runq_insert p head l spc)"
  by (simp add: spc_enqueued_def rq_order_def)

lemma spc_enqueued_ok:
  assumes ok: "spc_ok R L k spc" and p: "p < PRI_COUNT R" "eprio R (L l) = int p" and k: "l_cpu (L l) = k"
    and new: "l \<notin> set (rq_order R spc)"
  shows "spc_ok R L k (spc_enqueued p head (lwp_unbound (L l)) l spc)"
proof -
  let ?spc = "spc_enqueued p head (lwp_unbound (L l)) l spc"
  have o: "rq_order R ?spc = insert_prio (\<lambda>x. eprio R (L x)) head l (rq_order R spc)"
    unfolding spc_enqueued_order by (rule runq_insert_order [OF ok p])
  have q: "spc_queue ?spc = (spc_queue spc)(p := (if head then l # spc_queue spc p else spc_queue spc p @ [l]))"
    by (simp add: spc_enqueued_def runq_insert_queue)
  have "bitmap_has (spc_bitmap ?spc) q \<longleftrightarrow> spc_queue ?spc q \<noteq> []" for q
    using runq_insert_bitmap [OF spc_okD(1) [OF ok], of p head l q] by (simp add: spc_enqueued_def)
  moreover have "\<forall>p. \<forall>x \<in> set (spc_queue ?spc p). p < PRI_COUNT R \<and> eprio R (L x) = int p \<and> l_cpu (L x) = k"
    unfolding q using spc_okD(2) [OF ok] p k by (auto split: if_splits)
  moreover have "distinct (rq_order R ?spc)" unfolding o insert_prio_facts(4) using new spc_okD(3) [OF ok] by simp
  moreover have "spc_count ?spc = int (length (rq_order R ?spc))"
    unfolding o insert_prio_facts(2) using spc_okD(4) [OF ok] by (simp add: spc_enqueued_def)
  moreover have "spc_mcount ?spc = int (length (filter (\<lambda>l. lwp_unbound (L l)) (rq_order R ?spc)))"
    unfolding o insert_prio_facts(3) using spc_okD(5) [OF ok] by (simp add: spc_enqueued_def)
  moreover have "spc_maxpriority ?spc = (case rq_order R ?spc of [] \<Rightarrow> 0 | l # _ \<Rightarrow> eprio R (L l))"
    unfolding o using spc_okD(6) [OF ok] p(2) by (cases "rq_order R spc") (auto simp: spc_enqueued_def insert_prio_first)
  moreover have "\<forall>x. spc_migrating ?spc = Some x \<longrightarrow> x \<in> set (rq_order R ?spc)"
    unfolding o insert_prio_facts(1) using spc_okD(7) [OF ok] by (simp add: spc_enqueued_def)
  ultimately show ?thesis unfolding spc_ok_def by blast
qed

section \<open>Dequeueing\<close>

lemma runq_remove_queue: "spc_queue (runq_remove p pri l spc) = (spc_queue spc)(p := remove1 l (spc_queue spc p))"
  by (simp add: runq_remove_def Let_def)

lemma runq_remove_frame [simp]:
  "spc_count (runq_remove p pri l spc) = spc_count spc" "spc_mcount (runq_remove p pri l spc) = spc_mcount spc"
  "spc_migrating (runq_remove p pri l spc) = spc_migrating spc"
  by (simp_all add: runq_remove_def Let_def)

lemma runq_remove_bitmap:
  assumes "\<And>q. bitmap_has (spc_bitmap spc) q \<longleftrightarrow> spc_queue spc q \<noteq> []" and "l \<in> set (spc_queue spc p)"
  shows "bitmap_has (spc_bitmap (runq_remove p pri l spc)) q \<longleftrightarrow> spc_queue (runq_remove p pri l spc) q \<noteq> []"
proof -
  have "spc_queue spc p \<noteq> []" using assms(2) by auto
  then show ?thesis using assms(1) [of q] by (auto simp: runq_remove_def Let_def bitmap_has_unmark)
qed

lemma runq_remove_order:
  assumes ok: "spc_ok R L k spc" and l: "l \<in> set (spc_queue spc p)" and q: "spc_queue spc' = (spc_queue spc)(p := remove1 l (spc_queue spc p))"
  shows "rq_order R spc' = remove1 l (rq_order R spc)"
proof -
  have p: "p < PRI_COUNT R" "eprio R (L l) = int p" using spc_okD(2) [OF ok l] by auto
  have "l \<notin> set (concat (map (spc_queue spc) (rev [Suc p..<PRI_COUNT R])))"
    using spc_ok_levels [OF ok, of l "Suc p" "PRI_COUNT R"] p(2) by auto
  moreover have "rq_order R spc' = rq_order R (spc \<lparr> spc_queue := (spc_queue spc)(p := remove1 l (spc_queue spc p)) \<rparr>)"
    by (simp add: rq_order_def q)
  ultimately show ?thesis
    unfolding rq_split [OF p(1)] rq_split_self [OF p(1), of spc] using l by (simp only: remove1_append if_True if_False)
qed

text \<open>The bitmap search finds the priority of the list's first thread.\<close>

lemma bitmap_highest_first:
  assumes bm: "\<And>q. bitmap_has (spc_bitmap spc) q \<longleftrightarrow> spc_queue spc q \<noteq> []"
    and lv: "\<And>q l. l \<in> set (spc_queue spc q) \<Longrightarrow> q < PRI_COUNT R \<and> eprio R (L l) = int q"
    and below: "\<And>q. spc_queue spc q \<noteq> [] \<Longrightarrow> q div 32 \<le> i"
  shows "int (bitmap_highest (spc_bitmap spc) i) = (case rq_order R spc of [] \<Rightarrow> 0 | l # _ \<Rightarrow> eprio R (L l))"
proof (cases "\<exists>q. bitmap_has (spc_bitmap spc) q \<and> q div 32 \<le> i")
  case True
  define h where "h = bitmap_highest (spc_bitmap spc) i"
  have h: "bitmap_has (spc_bitmap spc) h" "\<And>q. bitmap_has (spc_bitmap spc) q \<Longrightarrow> q div 32 \<le> i \<Longrightarrow> q \<le> h"
    using bitmap_highest_spec [of "spc_bitmap spc" i] unfolding if_P [OF True] h_def by blast+
  obtain l xs where q: "spc_queue spc h = l # xs" using h(1) bm neq_Nil_conv by metis
  have "spc_queue spc q = []" if "h < q" for q using h(2) [of q] bm [of q] below [of q] that leD by blast
  then obtain ys where "rq_order R spc = l # ys" using rq_order_first [of h R spc l xs] lv [of l h] q by auto
  then show ?thesis using lv [of l h] q unfolding h_def by simp
next
  case False
  then have "spc_queue spc q = []" for q using bm [of q] below [of q] by blast
  then have "rq_order R spc = []" by (simp add: rq_order_def)
  then show ?thesis using bitmap_highest_spec [of "spc_bitmap spc" i] unfolding if_not_P [OF False] by simp
qed

text \<open>The run queue \<^verbatim>\<open>sched_dequeue\<close> leaves behind.\<close>

definition spc_dequeued :: "nat \<Rightarrow> bool \<Rightarrow> nat \<Rightarrow> schedstate_percpu \<Rightarrow> schedstate_percpu" where
  "spc_dequeued p unbound l spc = runq_remove p (int p) l (spc
    \<lparr> spc_migrating := (if spc_migrating spc = Some l then None else spc_migrating spc), spc_count := spc_count spc - 1,
      spc_mcount := spc_mcount spc - (if unbound then 1 else 0) \<rparr>)"

lemma spc_dequeued_frame:
  "spc_queue (spc_dequeued p ub l spc) = (spc_queue spc)(p := remove1 l (spc_queue spc p))"
  "spc_count (spc_dequeued p ub l spc) = spc_count spc - 1"
  "spc_mcount (spc_dequeued p ub l spc) = spc_mcount spc - (if ub then 1 else 0)"
  "spc_migrating (spc_dequeued p ub l spc) = (if spc_migrating spc = Some l then None else spc_migrating spc)"
  by (simp_all add: spc_dequeued_def runq_remove_queue)

lemma spc_dequeued_bitmap:
  assumes ok: "spc_ok R L k spc" and l: "l \<in> set (spc_queue spc p)"
  shows "bitmap_has (spc_bitmap (spc_dequeued p ub l spc)) q \<longleftrightarrow> spc_queue (spc_dequeued p ub l spc) q \<noteq> []"
  unfolding spc_dequeued_def by (rule runq_remove_bitmap) (simp_all add: spc_okD(1) [OF ok] l)

lemma spc_dequeued_max:
  assumes ok: "spc_ok R L k spc" and l: "l \<in> set (spc_queue spc p)"
  shows "spc_maxpriority (spc_dequeued p ub l spc) = (case rq_order R (spc_dequeued p ub l spc) of [] \<Rightarrow> 0 | l # _ \<Rightarrow> eprio R (L l))"
proof -
  let ?spc = "spc_dequeued p ub l spc"
  define hi where "hi = concat (map (spc_queue spc) (rev [Suc p..<PRI_COUNT R]))"
  define lo where "lo = concat (map (spc_queue spc) (rev [0..<p]))"
  have p: "p < PRI_COUNT R" "eprio R (L l) = int p" using spc_okD(2) [OF ok l] by auto
  have m: "\<And>x. x \<in> set (spc_queue spc p) \<Longrightarrow> eprio R (L x) = int p" using spc_okD(2) [OF ok] by blast
  have o: "rq_order R spc = hi @ spc_queue spc p @ lo" unfolding hi_def lo_def by (rule rq_split_self [OF p(1)])
  have o': "rq_order R ?spc = hi @ remove1 l (spc_queue spc p) @ lo"
    unfolding hi_def lo_def rq_split [OF p(1), symmetric] by (simp add: rq_order_def spc_dequeued_frame)
  have max0: "spc_maxpriority spc = (case hi of [] \<Rightarrow> int p | x # _ \<Rightarrow> eprio R (L x))"
    unfolding spc_okD(6) [OF ok] o using l m by (cases hi; cases "spc_queue spc p") auto
  consider (stay) "remove1 l (spc_queue spc p) \<noteq> [] \<or> int p \<noteq> spc_maxpriority spc"
    | (last) "remove1 l (spc_queue spc p) = []" "int p = spc_maxpriority spc" by blast
  then show ?thesis
  proof cases
    case stay
    then have e: "spc_maxpriority ?spc = spc_maxpriority spc" by (auto simp: spc_dequeued_def runq_remove_def Let_def)
    have m': "x \<in> set (remove1 l (spc_queue spc p)) \<Longrightarrow> eprio R (L x) = int p" for x using m set_remove1_subset by fast
    show ?thesis unfolding e o' max0 using stay m' max0 by (cases hi; cases "remove1 l (spc_queue spc p)") auto
  next
    case last
    have hi: "hi = []"
    proof (cases hi)
      case (Cons x xs)
      then have "eprio R (L x) = int p" "x \<in> set hi" using last(2) max0 by simp_all
      then show ?thesis using spc_ok_levels [OF ok, of x "Suc p" "PRI_COUNT R"] unfolding hi_def by simp
    qed
    have e: "spc_maxpriority ?spc = int (bitmap_highest (spc_bitmap ?spc) (p div 32))"
      using last by (simp add: spc_dequeued_def runq_remove_def Let_def)
    have sub: "x \<in> set (spc_queue ?spc q) \<Longrightarrow> x \<in> set (spc_queue spc q)" for x q
      by (auto simp: spc_dequeued_frame split: if_splits dest: set_remove1_subset [THEN subsetD])
    have "q \<le> p" if ne: "spc_queue ?spc q \<noteq> []" for q
    proof -
      obtain x where x: "x \<in> set (spc_queue spc q)" using sub [OF last_in_set [OF ne]] by blast
      then have "q < PRI_COUNT R" using spc_okD(2) [OF ok] by blast
      then show "q \<le> p" using x hi unfolding hi_def by (cases "q \<le> p") auto
    qed
    then have "spc_queue ?spc q \<noteq> [] \<Longrightarrow> q div 32 \<le> p div 32" for q by (simp add: div_le_mono)
    then show ?thesis unfolding e
      using bitmap_highest_first [where spc = ?spc and R = R and L = L, OF spc_dequeued_bitmap [OF ok l]] sub spc_okD(2) [OF ok] by blast
  qed
qed

lemma spc_dequeued_order:
  assumes ok: "spc_ok R L k spc" and l: "l \<in> set (spc_queue spc p)"
  shows "rq_order R (spc_dequeued p ub l spc) = remove1 l (rq_order R spc)"
  using runq_remove_order [OF ok l] spc_dequeued_frame(1) by blast

lemma spc_dequeued_ok:
  assumes ok: "spc_ok R L k spc" and l: "l \<in> set (spc_queue spc p)"
  shows "spc_ok R L k (spc_dequeued p (lwp_unbound (L l)) l spc)"
proof -
  let ?spc = "spc_dequeued p (lwp_unbound (L l)) l spc"
  note o = spc_dequeued_order [OF ok l, of "lwp_unbound (L l)"]
  have mem: "l \<in> set (rq_order R spc)" using l spc_okD(2) [OF ok l] rq_order_mem by blast
  have d: "distinct (rq_order R spc)" by (rule spc_okD(3) [OF ok])
  have "\<forall>p. \<forall>x \<in> set (spc_queue ?spc p). p < PRI_COUNT R \<and> eprio R (L x) = int p \<and> l_cpu (L x) = k"
    using spc_okD(2) [OF ok] set_remove1_subset by (fastforce simp: spc_dequeued_frame split: if_splits)
  moreover have "distinct (rq_order R ?spc)" unfolding o using d by simp
  moreover have "spc_count ?spc = int (length (rq_order R ?spc))"
    unfolding o spc_dequeued_frame spc_okD(4) [OF ok] using mem length_pos_if_in_set [OF mem] by (simp add: length_remove1 of_nat_diff Suc_leI)
  moreover have "spc_mcount ?spc = int (length (filter (\<lambda>l. lwp_unbound (L l)) (rq_order R ?spc)))"
  proof -
    have f: "filter (\<lambda>l. lwp_unbound (L l)) (remove1 l xs) = (if lwp_unbound (L l) then remove1 l (filter (\<lambda>l. lwp_unbound (L l)) xs) else filter (\<lambda>l. lwp_unbound (L l)) xs)" for xs
      by (induction xs) auto
    have "int (length xs - Suc 0) = int (length xs) - 1" if "l \<in> set xs" for xs
      using length_pos_if_in_set [OF that] by (simp add: of_nat_diff Suc_leI)
    from this [of "filter (\<lambda>l. lwp_unbound (L l)) (rq_order R spc)"]
    show ?thesis unfolding o spc_dequeued_frame spc_okD(5) [OF ok] f using mem by (simp add: length_remove1)
  qed
  moreover have "\<forall>x. spc_migrating ?spc = Some x \<longrightarrow> x \<in> set (rq_order R ?spc)"
    unfolding o spc_dequeued_frame using spc_okD(7) [OF ok] d by (auto simp: set_remove1_eq)
  ultimately show ?thesis unfolding spc_ok_def using spc_dequeued_max [OF ok l] spc_dequeued_bitmap [OF ok l] by blast
qed

section \<open>The operations on the scheduler's state\<close>

text \<open>
  What the code relies on of the policy's hooks: starting a time slice and going on the CPU
  change neither a thread's place (its priority, CPU and binding) nor its state.
\<close>

definition runq_hooks_ok :: "runq_conf \<Rightarrow> bool" where
  "runq_hooks_ok R \<longleftrightarrow> (\<forall>v. lwp_place (sched_newts R v) = lwp_place v \<and> l_stat (sched_newts R v) = l_stat v \<and>
    lwp_place (sched_oncpu R v) = lwp_place v \<and> l_stat (sched_oncpu R v) = l_stat v)"

definition prio_ok :: "runq_conf \<Rightarrow> lwp \<Rightarrow> bool" where
  "prio_ok R v \<longleftrightarrow> 0 \<le> eprio R v \<and> eprio R v < int (PRI_COUNT R)"

lemma eprio_frame [simp]:
  "eprio R (v \<lparr> l_cpu := a \<rparr>) = eprio R v" "eprio R (v \<lparr> l_target_cpu := b \<rparr>) = eprio R v"
  "eprio R (v \<lparr> l_pflag := c \<rparr>) = eprio R v" "eprio R (v \<lparr> l_dopreempt := c \<rparr>) = eprio R v"
  "eprio R (v \<lparr> l_stat := d \<rparr>) = eprio R v" "eprio R (v \<lparr> l_slptime := c \<rparr>) = eprio R v"
  "eprio R (v \<lparr> l_flag := c \<rparr>) = eprio R v" "eprio R (v \<lparr> l_switchto := b \<rparr>) = eprio R v"
  by (simp_all add: lwp_eprio_def Let_def)

lemma place_lp [simp]:
  "lwp_place (v \<lparr> l_lp_runnable := a \<rparr>) = lwp_place v" "lwp_place (v \<lparr> l_lp_oncpu := b \<rparr>) = lwp_place v"
  "lwp_place (v \<lparr> l_lp_burst_us := c \<rparr>) = lwp_place v" "lwp_place (v \<lparr> l_lp_wait_us := c \<rparr>) = lwp_place v"
  "lwp_place (v \<lparr> l_rticksum := c \<rparr>) = lwp_place v" "lwp_place (v \<lparr> l_rticks := c \<rparr>) = lwp_place v"
  "lwp_place (v \<lparr> l_dopreempt := c \<rparr>) = lwp_place v" "lwp_place (v \<lparr> l_stat := d \<rparr>) = lwp_place v"
  "lwp_place (v \<lparr> l_target_cpu := e \<rparr>) = lwp_place v" "lwp_place (v \<lparr> l_slptime := c \<rparr>) = lwp_place v"
  "lwp_place (v \<lparr> l_switchto := e \<rparr>) = lwp_place v"
  by (simp_all add: lwp_place_def lwp_pris_def lwp_unbound_def)

lemma sched_enqueue_eq:
  assumes "0 \<le> eprio R (rq_lwps s l)"
  shows "rq_spc (sched_enqueue P R now t l s) = (rq_spc s)(l_cpu (rq_lwps s l) :=
      spc_enqueued (nat (eprio R (rq_lwps s l))) (runq_at_head R t (rq_lwps s l)) (lwp_unbound (rq_lwps s l)) l (rq_spc s (l_cpu (rq_lwps s l))))"
proof -
  have pf: "l_pflag (fst (if lpsched_accounting (rq_lp s) then lpsched_enqueued P now v ci b (rq_lp s) else (v, rq_lp s))) = l_pflag v" for v ci b
    by (simp add: lpsched_enqueued_def)
  show ?thesis using assms pf
    by (auto simp: sched_enqueue_def Let_def spc_enqueued_def lwp_unbound_def lpsched_enqueued_def max_def intro!: ext)
qed

lemma sched_enqueue_lwps:
  assumes "runq_hooks_ok R"
  shows "\<exists>v. rq_lwps (sched_enqueue P R now t l s) = (rq_lwps s)(l := v) \<and> lwp_place v = lwp_place (rq_lwps s l) \<and> l_stat v = l_stat (rq_lwps s l)"
  using assms by (auto simp: runq_hooks_ok_def sched_enqueue_def Let_def lpsched_enqueued_def)

lemma sched_dequeue_eq:
  assumes "0 \<le> eprio R (rq_lwps s l)"
  shows "rq_spc (sched_dequeue P R l s) = (rq_spc s)(l_cpu (rq_lwps s l) :=
      spc_dequeued (nat (eprio R (rq_lwps s l))) (lwp_unbound (rq_lwps s l)) l (rq_spc s (l_cpu (rq_lwps s l))))"
    "rq_lwps (sched_dequeue P R l s) = rq_lwps s"
proof -
  have e: "spc \<lparr> spc_migrating := spc_migrating spc \<rparr> = spc" "spc \<lparr> spc_mcount := spc_mcount spc - 0 \<rparr> = spc" for spc :: schedstate_percpu by simp_all
  show "rq_spc (sched_dequeue P R l s) = (rq_spc s)(l_cpu (rq_lwps s l) :=
      spc_dequeued (nat (eprio R (rq_lwps s l))) (lwp_unbound (rq_lwps s l)) l (rq_spc s (l_cpu (rq_lwps s l))))"
    using assms by (simp add: sched_dequeue_def Let_def spc_dequeued_def lwp_unbound_def e)
  show "rq_lwps (sched_dequeue P R l s) = rq_lwps s" by (simp add: sched_dequeue_def Let_def)
qed

lemma rq_okD: "rq_ok R s \<Longrightarrow> spc_ok R (rq_lwps s) k (rq_spc s k)"
  by (simp add: rq_ok_def)

text \<open>A queued thread is in the queue of its CPU and its priority, and in no other.\<close>

lemma rq_list_mem:
  assumes ok: "rq_ok R s" and l: "l \<in> set (rq_list R k s)"
  shows "l_cpu (rq_lwps s l) = k" "prio_ok R (rq_lwps s l)" "l \<in> set (spc_queue (rq_spc s k) (nat (eprio R (rq_lwps s l))))"
proof -
  obtain p where p: "p < PRI_COUNT R" "l \<in> set (spc_queue (rq_spc s k) p)" using l by (auto simp: rq_list_def rq_order_mem)
  then show "l_cpu (rq_lwps s l) = k" "prio_ok R (rq_lwps s l)" "l \<in> set (spc_queue (rq_spc s k) (nat (eprio R (rq_lwps s l))))"
    using spc_okD(2) [OF rq_okD [OF ok] p(2)] by (auto simp: prio_ok_def)
qed

lemma rq_queued_iff: "rq_ok R s \<Longrightarrow> rq_queued R s l \<longleftrightarrow> (\<exists>k. l \<in> set (rq_list R k s))"
  using rq_list_mem(1) by (auto simp: rq_queued_def)

lemma sched_enqueue_list:
  assumes ok: "rq_ok R s" and p: "prio_ok R (rq_lwps s l)"
  shows "rq_list R k (sched_enqueue P R now t l s) =
    (if k = l_cpu (rq_lwps s l)
     then insert_prio (\<lambda>x. eprio R (rq_lwps s x)) (runq_at_head R t (rq_lwps s l)) l (rq_list R k s)
     else rq_list R k s)"
proof -
  let ?v = "rq_lwps s l"
  have p': "0 \<le> eprio R ?v" "nat (eprio R ?v) < PRI_COUNT R" "eprio R ?v = int (nat (eprio R ?v))" using p by (auto simp: prio_ok_def)
  show ?thesis using runq_insert_order [OF rq_okD [OF ok, of "l_cpu ?v"] p'(2,3), of "runq_at_head R t ?v"]
    by (simp add: rq_list_def sched_enqueue_eq [OF p'(1)] spc_enqueued_order)
qed

lemma sched_enqueue_ok:
  assumes h: "runq_hooks_ok R" and ok: "rq_ok R s" and p: "prio_ok R (rq_lwps s l)" and new: "\<not> rq_queued R s l"
  shows "rq_ok R (sched_enqueue P R now t l s)"
  unfolding rq_ok_def
proof
  fix k
  let ?v = "rq_lwps s l" and ?s = "sched_enqueue P R now t l s"
  have p': "0 \<le> eprio R ?v" "nat (eprio R ?v) < PRI_COUNT R" "eprio R ?v = int (nat (eprio R ?v))" using p by (auto simp: prio_ok_def)
  obtain v where v: "rq_lwps ?s = (rq_lwps s)(l := v)" "lwp_place v = lwp_place ?v" using sched_enqueue_lwps [OF h] by blast
  have "spc_ok R (rq_lwps s) k (rq_spc ?s k)"
    unfolding sched_enqueue_eq [OF p'(1)] using rq_okD [OF ok, of k] new
    by (auto simp: rq_queued_def rq_list_def intro!: spc_enqueued_ok p')
  then show "spc_ok R (rq_lwps ?s) k (rq_spc ?s k)" by (rule spc_ok_cong [rotated]) (simp add: v)
qed

lemma sched_dequeue_list:
  assumes ok: "rq_ok R s" and q: "rq_queued R s l"
  shows "rq_list R k (sched_dequeue P R l s) = (if k = l_cpu (rq_lwps s l) then remove1 l (rq_list R k s) else rq_list R k s)"
proof -
  note m = rq_list_mem [OF ok q [unfolded rq_queued_def]]
  have p: "0 \<le> eprio R (rq_lwps s l)" using m(2) by (simp add: prio_ok_def)
  show ?thesis unfolding rq_list_def sched_dequeue_eq(1) [OF p] using spc_dequeued_order [OF rq_okD [OF ok] m(3)] by simp
qed

lemma sched_dequeue_ok:
  assumes ok: "rq_ok R s" and q: "rq_queued R s l"
  shows "rq_ok R (sched_dequeue P R l s)"
proof -
  note m = rq_list_mem [OF ok q [unfolded rq_queued_def]]
  have p: "0 \<le> eprio R (rq_lwps s l)" using m(2) by (simp add: prio_ok_def)
  show ?thesis unfolding rq_ok_def sched_dequeue_eq [OF p]
    using rq_okD [OF ok] spc_dequeued_ok [OF rq_okD [OF ok] m(3)] by simp
qed

lemma lpsched_switch_place:
  "lwp_place (fst (lpsched_switch P now i prev next (L, lp)) n) = lwp_place (L n) \<and>
   l_stat (fst (lpsched_switch P now i prev next (L, lp)) n) = l_stat (L n)"
proof -
  have prev: "lwp_place (fst (lpsched_switch_prev P now i prev (L, lp)) n) = lwp_place (L n) \<and>
    l_stat (fst (lpsched_switch_prev P now i prev (L, lp)) n) = l_stat (L n)" for L lp n
    by (cases prev) (auto simp: lpsched_switch_prev_def Let_def split: prod.split)
  have nxt: "lwp_place (fst (lpsched_switch_next P now i next (L, lp)) n) = lwp_place (L n) \<and>
    l_stat (fst (lpsched_switch_next P now i next (L, lp)) n) = l_stat (L n)" for L lp n
    by (cases "next") (auto simp: lpsched_switch_next_def Let_def split: prod.split)
  show ?thesis using prev [of L lp n] nxt [of "fst (lpsched_switch_prev P now i prev (L, lp))" "snd (lpsched_switch_prev P now i prev (L, lp))" n]
    by (simp add: lpsched_switch_def)
qed

text \<open>Choosing the next thread moves nothing in the queues.\<close>

lemma sched_nextlwp_frame:
  assumes h: "runq_hooks_ok R"
  shows "rq_spc (snd (sched_nextlwp P R now t cur me s)) = rq_spc s"
    "lwp_place (rq_lwps (snd (sched_nextlwp P R now t cur me s)) n) = lwp_place (rq_lwps s n) \<and>
     l_stat (rq_lwps (snd (sched_nextlwp P R now t cur me s)) n) = l_stat (rq_lwps s n)"
proof -
  define s1 where "s1 = upd_lwp me (\<lambda>l. l \<lparr> l_rticksum := l_rticksum l + (t - l_rticks l) \<rparr>) s"
  define acc :: "nat option \<Rightarrow> sched \<Rightarrow> sched" where "acc = (\<lambda>next s. if lpsched_accounting (rq_lp s)
      then let (L, lp) = lpsched_switch P now cur (Some me) next (rq_lwps s, rq_lp s) in s \<lparr> rq_lwps := L, rq_lp := lp \<rparr> else s)"
  define f where "f = (\<lambda>v. (sched_oncpu R v) \<lparr> l_rticks := t \<rparr>)"
  have r: "sched_nextlwp P R now t cur me s = (if spc_migrating (rq_spc s1 cur) \<noteq> None \<or> spc_count (rq_spc s1 cur) = 0 then (None, acc None s1)
      else case spc_queue (rq_spc s1 cur) (nat (spc_maxpriority (rq_spc s1 cur))) of [] \<Rightarrow> (None, acc None s1)
        | l # _ \<Rightarrow> (Some l, upd_lwp l f (acc (Some l) s1)))"
    unfolding sched_nextlwp_def s1_def acc_def f_def Let_def by (rule refl)
  have a: "rq_spc (acc nx u) = rq_spc u" "lwp_place (rq_lwps (acc nx u) n) = lwp_place (rq_lwps u n)" "l_stat (rq_lwps (acc nx u) n) = l_stat (rq_lwps u n)" for nx u n
    using lpsched_switch_place [of P now cur "Some me" nx "rq_lwps u" "rq_lp u" n] by (auto simp: acc_def Let_def split: prod.split)
  have f: "lwp_place (f v) = lwp_place v" "l_stat (f v) = l_stat v" for v using h by (auto simp: f_def runq_hooks_ok_def)
  have s1: "rq_spc s1 = rq_spc s" "lwp_place (rq_lwps s1 n) = lwp_place (rq_lwps s n)" "l_stat (rq_lwps s1 n) = l_stat (rq_lwps s n)" for n
    by (auto simp: s1_def upd_lwp_def)
  have u: "rq_spc (upd_lwp l g w) = rq_spc w" "rq_lwps (upd_lwp l g w) n = (if n = l then g (rq_lwps w l) else rq_lwps w n)" for l g w n by (simp_all add: upd_lwp_def)
  show "rq_spc (snd (sched_nextlwp P R now t cur me s)) = rq_spc s" unfolding r by (simp add: a u s1 split: list.split)
  show "lwp_place (rq_lwps (snd (sched_nextlwp P R now t cur me s)) n) = lwp_place (rq_lwps s n) \<and>
     l_stat (rq_lwps (snd (sched_nextlwp P R now t cur me s)) n) = l_stat (rq_lwps s n)"
    unfolding r by (simp add: a u s1 f split: list.split)
qed

lemma rq_ok_cong:
  assumes "\<And>n. lwp_place (rq_lwps s' n) = lwp_place (rq_lwps s n)" "rq_spc s' = rq_spc s" "rq_ok R s"
  shows "rq_ok R s'"
  unfolding rq_ok_def assms(2) using assms(1) rq_okD [OF assms(3)] spc_ok_cong by blast

lemma sched_nextlwp_ok:
  assumes "runq_hooks_ok R" "rq_ok R s"
  shows "rq_ok R (snd (sched_nextlwp P R now t cur me s))" "rq_list R k (snd (sched_nextlwp P R now t cur me s)) = rq_list R k s"
proof -
  show "rq_ok R (snd (sched_nextlwp P R now t cur me s))"
    using rq_ok_cong [OF _ sched_nextlwp_frame(1) [OF assms(1)] assms(2)] sched_nextlwp_frame(2) [OF assms(1)] by blast
  show "rq_list R k (snd (sched_nextlwp P R now t cur me s)) = rq_list R k s" by (simp add: rq_list_def sched_nextlwp_frame(1) [OF assms(1)])
qed

lemma sched_nextlwp_result:
  assumes ok: "rq_ok R s"
  shows "fst (sched_nextlwp P R now t cur me s) =
    (if spc_migrating (rq_spc s cur) \<noteq> None \<or> rq_list R cur s = [] then None else Some (hd (rq_list R cur s)))"
proof -
  note spc = rq_okD [OF ok, of cur]
  have e: "rq_spc (upd_lwp me g s) = rq_spc s" for g by (simp add: upd_lwp_def)
  have c: "spc_count (rq_spc s cur) = 0 \<longleftrightarrow> rq_list R cur s = []" using spc_okD(4) [OF spc] by (simp add: rq_list_def)
  show ?thesis
  proof (cases "spc_migrating (rq_spc s cur) \<noteq> None \<or> rq_list R cur s = []")
    case True
    then show ?thesis using c by (auto simp: sched_nextlwp_def Let_def e)
  next
    case False
    then obtain l xs where l: "rq_order R (rq_spc s cur) = l # xs" by (auto simp: rq_list_def neq_Nil_conv)
    define p where "p = nat (spc_maxpriority (rq_spc s cur))"
    have max: "spc_maxpriority (rq_spc s cur) = eprio R (rq_lwps s l)" using spc_okD(6) [OF spc] l by simp
    have "l \<in> set (rq_list R cur s)" using l by (simp add: rq_list_def)
    note m = rq_list_mem(2,3) [OF ok this, folded max]
    have lp: "l \<in> set (spc_queue (rq_spc s cur) p)" using m(2) by (simp add: p_def)
    then have p: "p < PRI_COUNT R" using spc_okD(2) [OF spc] by blast
    have "concat (map (spc_queue (rq_spc s cur)) (rev [Suc p..<PRI_COUNT R])) = []"
    proof (rule ccontr)
      assume "concat (map (spc_queue (rq_spc s cur)) (rev [Suc p..<PRI_COUNT R])) \<noteq> []"
      then obtain y ys where y: "concat (map (spc_queue (rq_spc s cur)) (rev [Suc p..<PRI_COUNT R])) = y # ys" by (meson neq_Nil_conv)
      then have "y = l" using rq_split_self [OF p, of "rq_spc s cur"] l by simp
      then show False using spc_ok_levels [OF spc, of l "Suc p" "PRI_COUNT R"] y max spc_okD(2) [OF spc lp] by auto
    qed
    then have "spc_queue (rq_spc s cur) p @ concat (map (spc_queue (rq_spc s cur)) (rev [0..<p])) = l # xs"
      using rq_split_self [OF p, of "rq_spc s cur"] unfolding l by (simp only: append_Nil)
    then obtain zs where "spc_queue (rq_spc s cur) p = l # zs" using lp by (cases "spc_queue (rq_spc s cur) p") auto
    then show ?thesis using False c l by (simp add: sched_nextlwp_def Let_def e p_def rq_list_def)
  qed
qed

section \<open>The interface of the run queues\<close>

text \<open>
  What the rest of the scheduler relies on: a set of waiting threads, to which enqueueing adds a
  thread and from which dequeueing takes it, and a table of threads in which an entry may be
  changed while the thread is not waiting. Moving a thread to another priority or another CPU is
  taking it out, changing it and putting it back.
\<close>

locale ready_queue =
  fixes ok :: "'s \<Rightarrow> bool" and enq :: "nat \<Rightarrow> 's \<Rightarrow> 's" and deq :: "nat \<Rightarrow> 's \<Rightarrow> 's" and waiting :: "'s \<Rightarrow> nat set"
    and thread :: "'s \<Rightarrow> nat \<Rightarrow> 'l" and upd :: "nat \<Rightarrow> ('l \<Rightarrow> 'l) \<Rightarrow> 's \<Rightarrow> 's" and valid :: "'l \<Rightarrow> bool" and stat :: "'l \<Rightarrow> 'c"
  assumes deq_ok: "ok s \<Longrightarrow> l \<in> waiting s \<Longrightarrow> ok (deq l s)"
    and deq_waiting: "ok s \<Longrightarrow> l \<in> waiting s \<Longrightarrow> waiting (deq l s) = waiting s - {l}"
    and deq_thread: "ok s \<Longrightarrow> l \<in> waiting s \<Longrightarrow> thread (deq l s) = thread s"
    and upd_ok: "ok s \<Longrightarrow> l \<notin> waiting s \<Longrightarrow> ok (upd l f s)"
    and upd_waiting: "ok s \<Longrightarrow> l \<notin> waiting s \<Longrightarrow> waiting (upd l f s) = waiting s"
    and upd_thread: "thread (upd l f s) = (thread s)(l := f (thread s l))"
    and enq_ok: "ok s \<Longrightarrow> l \<notin> waiting s \<Longrightarrow> valid (thread s l) \<Longrightarrow> ok (enq l s)"
    and enq_waiting: "ok s \<Longrightarrow> l \<notin> waiting s \<Longrightarrow> valid (thread s l) \<Longrightarrow> waiting (enq l s) = insert l (waiting s)"
    and enq_stat: "ok s \<Longrightarrow> stat (thread (enq l s) n) = stat (thread s n)"
begin

lemma requeue:
  assumes "ok s" "l \<in> waiting s" "valid (f (thread s l))"
  shows "ok (enq l (upd l f (deq l s)))" "waiting (enq l (upd l f (deq l s))) = waiting s"
    "stat (f (thread s l)) = stat (thread s l) \<Longrightarrow> stat (thread (enq l (upd l f (deq l s))) n) = stat (thread s n)"
proof -
  have d: "ok (deq l s)" "l \<notin> waiting (deq l s)" using assms deq_ok deq_waiting by auto
  have u: "ok (upd l f (deq l s))" "l \<notin> waiting (upd l f (deq l s))" "waiting (upd l f (deq l s)) = waiting s - {l}"
    using d assms upd_ok upd_waiting deq_waiting by auto
  have v: "valid (thread (upd l f (deq l s)) l)" using assms upd_thread deq_thread by simp
  show "ok (enq l (upd l f (deq l s)))" by (rule enq_ok [OF u(1,2) v])
  show "waiting (enq l (upd l f (deq l s))) = waiting s" using enq_waiting [OF u(1,2) v] u(3) assms(2) by auto
  show "stat (thread (enq l (upd l f (deq l s))) n) = stat (thread s n)" if "stat (f (thread s l)) = stat (thread s l)"
    using enq_stat [OF u(1)] upd_thread deq_thread [OF assms(1,2)] that by simp
qed

lemma enter:
  assumes "ok s" "l \<notin> waiting s" "valid (f (thread s l))"
  shows "ok (enq l (upd l f s))" "waiting (enq l (upd l f s)) = insert l (waiting s)"
  using enq_ok [of "upd l f s" l] enq_waiting [of "upd l f s" l] assms upd_ok upd_waiting upd_thread by auto

end

lemma rq_upd_ok:
  assumes ok: "rq_ok R s" and new: "\<not> rq_queued R s l"
  shows "rq_ok R (upd_lwp l f s)" "rq_queued R (upd_lwp l f s) n = rq_queued R s n"
proof -
  have no: "l \<notin> set (rq_list R k s)" for k using new rq_queued_iff [OF ok] by blast
  show ok': "rq_ok R (upd_lwp l f s)"
    unfolding rq_ok_def
  proof
    fix k
    have "spc_ok R (rq_lwps (upd_lwp l f s)) k (rq_spc s k)"
      by (rule spc_ok_cong [OF _ rq_okD [OF ok, of k]]) (use no [of k] in \<open>auto simp: upd_lwp_def rq_list_def\<close>)
    then show "spc_ok R (rq_lwps (upd_lwp l f s)) k (rq_spc (upd_lwp l f s) k)" by (simp add: upd_lwp_def)
  qed
  show "rq_queued R (upd_lwp l f s) n = rq_queued R s n"
    unfolding rq_queued_iff [OF ok'] rq_queued_iff [OF ok] by (simp add: rq_list_def upd_lwp_def)
qed

lemma rq_queued_enqueue:
  assumes "runq_hooks_ok R" "rq_ok R s" "prio_ok R (rq_lwps s l)" "\<not> rq_queued R s l"
  shows "rq_queued R (sched_enqueue P R now t l s) n \<longleftrightarrow> n = l \<or> rq_queued R s n"
proof -
  have "n \<in> set (rq_list R k (sched_enqueue P R now t l s)) \<longleftrightarrow> n \<in> set (rq_list R k s) \<or> (n = l \<and> k = l_cpu (rq_lwps s l))" for k
    unfolding sched_enqueue_list [OF assms(2,3)] by (auto simp: insert_prio_facts)
  then show ?thesis unfolding rq_queued_iff [OF sched_enqueue_ok [OF assms]] rq_queued_iff [OF assms(2)] by auto
qed

lemma rq_queued_dequeue:
  assumes "rq_ok R s" "rq_queued R s l"
  shows "rq_queued R (sched_dequeue P R l s) n \<longleftrightarrow> n \<noteq> l \<and> rq_queued R s n"
proof -
  have "distinct (rq_list R k s)" for k using spc_okD(3) [OF rq_okD [OF assms(1)]] by (simp add: rq_list_def)
  moreover have "l \<in> set (rq_list R k s) \<Longrightarrow> k = l_cpu (rq_lwps s l)" for k using rq_list_mem(1) [OF assms(1)] by blast
  ultimately have "n \<in> set (rq_list R k (sched_dequeue P R l s)) \<longleftrightarrow> n \<in> set (rq_list R k s) \<and> n \<noteq> l" for k
    unfolding sched_dequeue_list [OF assms] by (auto simp: set_remove1_eq)
  then show ?thesis unfolding rq_queued_iff [OF sched_dequeue_ok [OF assms]] rq_queued_iff [OF assms(1)] by auto
qed

interpretation rq: ready_queue "\<lambda>s. runq_hooks_ok R \<and> rq_ok R s" "sched_enqueue P R now t" "sched_dequeue P R"
  "\<lambda>s. {l. rq_queued R s l}" rq_lwps upd_lwp "prio_ok R" "\<lambda>v. (l_stat v, lwp_pris v)" for P R now t
proof unfold_locales
  fix s l
  assume a: "runq_hooks_ok R \<and> rq_ok R s" "l \<in> {l. rq_queued R s l}"
  show "runq_hooks_ok R \<and> rq_ok R (sched_dequeue P R l s)" using a sched_dequeue_ok by simp
  show "{n. rq_queued R (sched_dequeue P R l s) n} = {l. rq_queued R s l} - {l}" using a rq_queued_dequeue by auto
  show "rq_lwps (sched_dequeue P R l s) = rq_lwps s" by (simp add: sched_dequeue_def Let_def)
next
  fix s l n
  assume "runq_hooks_ok R \<and> rq_ok R s"
  then obtain v where "rq_lwps (sched_enqueue P R now t l s) = (rq_lwps s)(l := v)" "lwp_place v = lwp_place (rq_lwps s l)" "l_stat v = l_stat (rq_lwps s l)"
    using sched_enqueue_lwps [of R P now t l s] by auto
  then show "(l_stat (rq_lwps (sched_enqueue P R now t l s) n), lwp_pris (rq_lwps (sched_enqueue P R now t l s) n)) =
    (l_stat (rq_lwps s n), lwp_pris (rq_lwps s n))" using place_eq(4) [of v "rq_lwps s l"] by auto
next
  fix s :: sched and l f
  show "rq_lwps (upd_lwp l f s) = (rq_lwps s)(l := f (rq_lwps s l))" by (simp add: upd_lwp_def)
qed (auto simp: rq_upd_ok rq_queued_enqueue sched_enqueue_ok)

lemma enqueue_curpriority [simp]:
  "spc_curpriority (rq_spc (sched_enqueue P R now t l s) k) = spc_curpriority (rq_spc s k)"
  "spc_curpriority (rq_spc (sched_dequeue P R l s) k) = spc_curpriority (rq_spc s k)"
  by (simp_all add: sched_enqueue_def sched_dequeue_def Let_def runq_insert_def runq_remove_def split: prod.split)

section \<open>The run queue implements a list in the order of priorities\<close>

text \<open>
  C8: read as one list per CPU, the run queues behave as follows. Enqueueing inserts the thread
  behind the threads of its priority (ahead of them for a preempted realtime thread) in the list
  of its CPU. Dequeueing removes it. The next thread to run is the head of the list, and no
  waiting thread has a higher priority, unless a migration off this CPU is pending.
\<close>

theorem runq_implements_list:
  assumes "runq_hooks_ok R" "rq_ok R s"
  shows "(prio_ok R (rq_lwps s l) \<and> \<not> rq_queued R s l \<longrightarrow>
      rq_list R k (sched_enqueue P R now t l s) =
        (if k = l_cpu (rq_lwps s l)
         then insert_prio (\<lambda>x. eprio R (rq_lwps s x)) (runq_at_head R t (rq_lwps s l)) l (rq_list R k s)
         else rq_list R k s)) \<and>
    (rq_queued R s l \<longrightarrow>
      rq_list R k (sched_dequeue P R l s) = (if k = l_cpu (rq_lwps s l) then remove1 l (rq_list R k s) else rq_list R k s)) \<and>
    fst (sched_nextlwp P R now t k me s) =
      (if spc_migrating (rq_spc s k) \<noteq> None \<or> rq_list R k s = [] then None else Some (hd (rq_list R k s))) \<and>
    (\<forall>n. fst (sched_nextlwp P R now t k me s) = Some n \<longrightarrow>
      (\<forall>x \<in> set (rq_list R k s). eprio R (rq_lwps s x) \<le> eprio R (rq_lwps s n))) \<and>
    rq_list R k (snd (sched_nextlwp P R now t k me s)) = rq_list R k s"
proof -
  have "eprio R (rq_lwps s x) \<le> eprio R (rq_lwps s (hd (rq_list R k s)))" if "x \<in> set (rq_list R k s)" for x
    using spc_ok_sorted [OF rq_okD [OF assms(2), of k]] that by (cases "rq_list R k s") (auto simp: rq_list_def)
  then show ?thesis
    using sched_enqueue_list [OF assms(2)] sched_dequeue_list [OF assms(2)] sched_nextlwp_ok(2) [OF assms]
    by (auto simp: sched_nextlwp_result [OF assms(2)])
qed

subsection \<open>Sample configuration\<close>

text \<open>The priorities of NetBSD, and hooks of a policy that keeps no state in the thread.\<close>

definition sample_runq :: runq_conf where
  "sample_runq = \<lparr> PRI_COUNT = 224, MAXPRI_USER = 63, PRI_NONE = -1, PRI_IDLE = 0, PS_NONE = 0, RESCHED_REMOTE = 1, RESCHED_IDLE = 2,
    RESCHED_UPREEMPT = 4, RESCHED_KPREEMPT = 8, mp_online = True, sched_rrticks = 10, sched_newts = id, sched_oncpu = id, sched_setrunnable = id \<rparr>"

definition sample_spc :: schedstate_percpu where
  "sample_spc = \<lparr> spc_attached = True, spc_queue = \<lambda>_. [], spc_bitmap = \<lambda>_. 0, spc_count = 0, spc_mcount = 0, spc_maxpriority = 0,
    spc_curpriority = 0, spc_idle = True, spc_offline = False, spc_1stclass = True, spc_switchclear = False, spc_psid = 0,
    spc_migrating = None, spc_nextpkg = 0, spc_nextskim = 0 \<rparr>"

definition sample_proc :: proc where
  "sample_proc = \<lparr> p_nrlwps = 1, p_sstop = False, p_stopping = False, p_waited = False, p_traced = False, p_xsig = 0, p_pptr = 1, p_nstopchild = 0 \<rparr>"

definition sample_sched :: sched where
  "sample_sched = \<lparr> rq_lwps = \<lambda>_. sample_lwp \<lparr> l_stat := LSSLEEP \<rparr>, rq_spc = \<lambda>_. sample_spc, ci_want_resched = \<lambda>_. 0, ci_onproc = \<lambda>_. 0, rq_kicks = [],
    rq_tune = \<lparr> cacheht_time = 10, min_catch = 1, skim_interval = 10, sched_kpreempt_pri = 96 \<rparr>, rq_procs = \<lambda>_. sample_proc, rq_lp = lpsched_boot \<rparr>"

lemma sample_order: "rq_order R sample_spc = []"
  by (simp add: rq_order_def sample_spc_def)

lemma sample_rq_ok: "rq_ok R sample_sched"
  by (simp add: rq_ok_def sample_sched_def spc_ok_def sample_order bitmap_has_def) (simp add: sample_spc_def)

lemma sample_hooks: "runq_hooks_ok sample_runq"
  by (simp add: runq_hooks_ok_def sample_runq_def)

lemma sample_eprio: "eprio sample_runq sample_lwp = 40"
  by (simp add: sample_runq_def sample_lwp_def lwp_eprio_def)

theorem runq_implements_list_witness:
  "rq_list sample_runq 0 (sched_enqueue sample_platform sample_runq 0 5 3 sample_sched) = [3]"
proof -
  have e: "rq_list sample_runq 0 sample_sched = []" by (simp add: rq_list_def sample_sched_def sample_order)
  have l: "rq_lwps sample_sched 3 = sample_lwp \<lparr> l_stat := LSSLEEP \<rparr>" by (simp add: sample_sched_def)
  have c: "l_cpu (rq_lwps sample_sched 3) = 0" by (simp add: l sample_lwp_def)
  have "prio_ok sample_runq (rq_lwps sample_sched 3)" by (simp add: prio_ok_def l sample_eprio) (simp add: sample_runq_def)
  moreover have "\<not> rq_queued sample_runq sample_sched 3" by (simp add: rq_queued_def c e)
  ultimately show ?thesis
    using runq_implements_list [OF sample_hooks sample_rq_ok, of 3 0 sample_platform 0 5] by (simp add: c e insert_prio_first)
qed

end
