(* ===== verification/Runq_Place.thy ===== *)
theory Runq_Place
  imports Runq_Inv
begin

text \<open>
  Placement and balancing in \<^verbatim>\<open>kernel/kern/kern_runq.c\<close>: the choice of a CPU for a thread that
  becomes runnable, with the power scheduler's packing of background work, the stealing an idle
  CPU does, and the migration of a preempted thread.

  The CPU topology comes from \<^verbatim>\<open>sys/cpu_data.h\<close> and the machine code: \<open>cpu_topology\<close> gives, for a
  CPU, the members of each circular list in the order in which the code's loops visit them, from
  that CPU on, and the predicates on a CPU's class. \<open>sched_env\<close> is what the code reads of the
  machine: the cycle counter, the tick count, the current CPU and thread, and whether it runs in
  an interrupt.
\<close>

section \<open>Environment\<close>

record cpu_topology =
  core_ring :: "nat \<Rightarrow> nat list" \<comment> \<open>\<^verbatim>\<open>ci_sibling[CPUREL_CORE]\<close>\<close>
  package_ring :: "nat \<Rightarrow> nat list" \<comment> \<open>\<^verbatim>\<open>ci_sibling[CPUREL_PACKAGE]\<close>\<close>
  package1st_ring :: "nat \<Rightarrow> nat list" \<comment> \<open>\<^verbatim>\<open>ci_sibling[CPUREL_PACKAGE1ST]\<close>\<close>
  ci_package1st :: "nat \<Rightarrow> nat"
  cpu_is_better :: "schedstate_percpu \<Rightarrow> schedstate_percpu \<Rightarrow> bool"
  cpu_is_1stclass :: "schedstate_percpu \<Rightarrow> bool"
  cpu_is_idle_1stclass :: "schedstate_percpu \<Rightarrow> bool"
  cpu_is_type :: "schedstate_percpu \<Rightarrow> bool \<Rightarrow> bool" \<comment> \<open>\<^verbatim>\<open>SPCF_IDLE\<close>, and \<^verbatim>\<open>SPCF_1STCLASS\<close> if the flag is set\<close>

record sched_env =
  se_now :: u64
  se_ticks :: u32
  curcpu :: nat
  curlwp :: nat
  cpu_intr_p :: bool

abbreviation (input) DOPREEMPT_ACTIVE :: u32 where "DOPREEMPT_ACTIVE \<equiv> 1"
abbreviation (input) LPSCHED_ESTCPU_SHIFT :: nat where "LPSCHED_ESTCPU_SHIFT \<equiv> 11"

definition ring_next :: "(nat \<Rightarrow> nat list) \<Rightarrow> nat \<Rightarrow> nat" where
  "ring_next ring c = (case ring c of _ # n # _ \<Rightarrow> n | _ \<Rightarrow> c)"

text \<open>The order in which the loops over all packages and their CPUs visit the CPUs.\<close>

definition all_from :: "cpu_topology \<Rightarrow> nat \<Rightarrow> nat list" where
  "all_from T pivot = concat (map (package_ring T) (package1st_ring T (ci_package1st T pivot)))"

section \<open>Preemption\<close>

text \<open>
  The loop around the compare-and-swap ends in one of three ways: the CPU had no request, it has
  one that is at least as strong, or the request is added to it.
\<close>

definition resched_post :: "runq_conf \<Rightarrow> sched_env \<Rightarrow> nat \<Rightarrow> nat \<Rightarrow> u32 \<Rightarrow> sched \<Rightarrow> sched" where
  "resched_post R E ci l f s =
    (let w = ci_want_resched s ci; both = RESCHED_KPREEMPT R OR RESCHED_UPREEMPT R
     in if w \<noteq> 0 \<and> w AND both \<ge> f AND both then s
        else
          let s = s \<lparr> ci_want_resched := (ci_want_resched s)(ci := w OR f) \<rparr>
          in if l \<noteq> curlwp E \<or> cpu_intr_p E then s \<lparr> rq_kicks := (ci, l, f) # rq_kicks s \<rparr> else s)"

definition sched_resched_cpu :: "runq_conf \<Rightarrow> sched_env \<Rightarrow> nat \<Rightarrow> int \<Rightarrow> sched \<Rightarrow> sched" where
  "sched_resched_cpu R E ci pri s =
    (if pri \<le> spc_curpriority (rq_spc s ci) \<or> \<not> mp_online R then s
     else
       let l = ci_onproc s ci; v = rq_lwps s l;
           (f, s) = (if l_flag v AND LW_IDLE \<noteq> 0 then (RESCHED_IDLE R OR RESCHED_UPREEMPT R, s)
                     else if pri \<ge> sched_kpreempt_pri (rq_tune s) \<and> l_pflag v AND LP_INTR = 0
                     then (RESCHED_KPREEMPT R, upd_lwp l (\<lambda>v. v \<lparr> l_dopreempt := l_dopreempt v OR DOPREEMPT_ACTIVE \<rparr>) s)
                     else (RESCHED_UPREEMPT R, s));
           f = (if ci \<noteq> curcpu E then f OR RESCHED_REMOTE R else f)
       in resched_post R E ci l f s)"

definition sched_resched_lwp :: "runq_conf \<Rightarrow> sched_env \<Rightarrow> nat \<Rightarrow> sched \<Rightarrow> sched" where
  "sched_resched_lwp R E l s = sched_resched_cpu R E (l_cpu (rq_lwps s l)) (eprio R (rq_lwps s l)) s"

section \<open>Choosing a CPU\<close>

definition lwp_cache_hot :: "platform \<Rightarrow> sched_env \<Rightarrow> sched \<Rightarrow> lwp \<Rightarrow> bool" where
  "lwp_cache_hot P E s l \<longleftrightarrow>
    (if l_stat l = LSIDL then True
     else if l_slptime l \<noteq> 0 \<or> l_rticks l = 0 then False
     else se_ticks E - l_rticks l < word_of_int (mstohz P (uint (cacheht_time (rq_tune s)))))"

definition sched_migratable :: "sched \<Rightarrow> lwp \<Rightarrow> nat \<Rightarrow> bool" where
  "sched_migratable s l ci \<longleftrightarrow>
    (if spc_offline (rq_spc s ci) then False
     else case l_affinity l of Some m \<Rightarrow> m ci | None \<Rightarrow> spc_psid (rq_spc s ci) = l_psid l)"

definition sched_nextpkg :: "cpu_topology \<Rightarrow> sched_env \<Rightarrow> sched \<Rightarrow> nat \<times> sched" where
  "sched_nextpkg T E s =
    (let n = ring_next (package1st_ring T) (spc_nextpkg (rq_spc s (curcpu E)))
     in (n, upd_spc (curcpu E) (\<lambda>spc. spc \<lparr> spc_nextpkg := n \<rparr>) s))"

definition cpu_pri :: "sched \<Rightarrow> nat \<Rightarrow> int" where
  "cpu_pri s ci = max (spc_curpriority (rq_spc s ci)) (spc_maxpriority (rq_spc s ci))"

fun bestcpu_scan :: "cpu_topology \<Rightarrow> sched \<Rightarrow> lwp \<Rightarrow> nat list \<Rightarrow> nat \<Rightarrow> int \<Rightarrow> nat" where
  "bestcpu_scan T s l [] bestci bestpri = bestci"
| "bestcpu_scan T s l (curci # cs) bestci bestpri =
    (if \<not> sched_migratable s l curci then bestcpu_scan T s l cs bestci bestpri
     else if cpu_is_idle_1stclass T (rq_spc s curci) then curci
     else if cpu_pri s curci > bestpri then bestcpu_scan T s l cs bestci bestpri
     else if cpu_pri s curci = bestpri \<and>
        (cpu_is_better T (rq_spc s bestci) (rq_spc s curci) \<or> spc_count (rq_spc s bestci) < spc_count (rq_spc s curci))
     then bestcpu_scan T s l cs bestci bestpri
     else bestcpu_scan T s l cs curci (cpu_pri s curci))"

definition sched_bestcpu :: "runq_conf \<Rightarrow> cpu_topology \<Rightarrow> sched \<Rightarrow> lwp \<Rightarrow> nat \<Rightarrow> nat" where
  "sched_bestcpu R T s l pivot =
    bestcpu_scan T s l (all_from T pivot) pivot (if sched_migratable s l pivot then cpu_pri s pivot else int (PRI_COUNT R))"

section \<open>Packing\<close>

definition stat_at :: "platform \<Rightarrow> sched_env \<Rightarrow> nat \<Rightarrow> sched \<Rightarrow> sched" where
  "stat_at P E idx s = s \<lparr> rq_lp := lpsched_stat P (curcpu E) idx (rq_lp s) \<rparr>"

definition lpsched_exempt :: "platform \<Rightarrow> sched_env \<Rightarrow> lwp \<Rightarrow> sched \<Rightarrow> bool \<times> sched" where
  "lpsched_exempt P E l s =
    (let s = stat_at P E LPSCHED_ST_CONSIDERED s
     in if l_class l \<noteq> SCHED_OTHER then (True, stat_at P E LPSCHED_ST_EXEMPT_CLASS s)
        else if lpsched_fgpid (rq_lp s) \<noteq> 0 \<and> l_pid l = lpsched_fgpid (rq_lp s) then (True, stat_at P E LPSCHED_ST_EXEMPT_FG s)
        else if lpsched_estcpu_thresh (rq_lp s) > 0 \<and>
           drop_bit LPSCHED_ESTCPU_SHIFT (l_estcpu l) < word_of_int (lpsched_estcpu_thresh (rq_lp s))
        then (True, stat_at P E LPSCHED_ST_EXEMPT_ESTCPU s)
        else (False, s))"

fun wake_cost_scan :: "platform \<Rightarrow> sched_env \<Rightarrow> nat \<Rightarrow> nat list \<Rightarrow> bool \<Rightarrow> sched \<Rightarrow> nat \<times> sched" where
  "wake_cost_scan P E ci [] free s = (if free then 0 else 1 + unat (lpsched_idle_depth P ci (rq_lp s)), s)"
| "wake_cost_scan P E ci (tci # cs) free s =
    (if spc_idle (rq_spc s tci) then wake_cost_scan P E ci cs free s
     else if lpsched_accounting (rq_lp s) \<and> pc_critical (lpsched_cpus (rq_lp s) tci)
     then (1 + unat LPSCHED_IDLE_SHALLOW, stat_at P E LPSCHED_ST_PACK_GUARD s)
     else wake_cost_scan P E ci cs True s)"

definition lpsched_wake_cost :: "platform \<Rightarrow> cpu_topology \<Rightarrow> sched_env \<Rightarrow> nat \<Rightarrow> sched \<Rightarrow> nat \<times> sched" where
  "lpsched_wake_cost P T E ci s = wake_cost_scan P E ci (tl (core_ring T ci)) False s"

definition lpsched_same_core :: "cpu_topology \<Rightarrow> nat \<Rightarrow> nat \<Rightarrow> bool" where
  "lpsched_same_core T a b \<longleftrightarrow> a = b \<or> b \<in> set (tl (core_ring T a))"

definition lpsched_is_packed :: "cpu_topology \<Rightarrow> nat \<Rightarrow> sched \<Rightarrow> bool" where
  "lpsched_is_packed T ci s \<longleftrightarrow> list_ex (\<lambda>t. \<not> spc_idle (rq_spc s t)) (tl (core_ring T ci))"

text \<open>
  The two passes of \<^verbatim>\<open>lpsched_pack_pick\<close>: the cheapest idle CPU, with its cost, and the first
  awake CPU with an empty queue behind whose thread the LWP may wait.
\<close>

fun pack_idle_scan :: "platform \<Rightarrow> cpu_topology \<Rightarrow> sched_env \<Rightarrow> lwp \<Rightarrow> nat list \<Rightarrow> (nat \<times> nat) option \<Rightarrow> sched \<Rightarrow> (nat \<times> nat) option \<times> sched" where
  "pack_idle_scan P T E l [] best s = (best, s)"
| "pack_idle_scan P T E l (ci # cs) best s =
    (if \<not> sched_migratable s l ci \<or> \<not> spc_idle (rq_spc s ci) then pack_idle_scan P T E l cs best s
     else
       let (cost, s) = lpsched_wake_cost P T E ci s;
           better = (case best of None \<Rightarrow> True | Some (_, bestcost) \<Rightarrow> cost < bestcost \<or> (cost = bestcost \<and> ci = l_cpu l))
       in pack_idle_scan P T E l cs (if better then Some (ci, cost) else best) s)"

fun pack_busy_scan :: "platform \<Rightarrow> runq_conf \<Rightarrow> sched_env \<Rightarrow> lwp \<Rightarrow> nat list \<Rightarrow> sched \<Rightarrow> nat option \<times> sched" where
  "pack_busy_scan P R E l [] s = (None, s)"
| "pack_busy_scan P R E l (ci # cs) s =
    (let spc = rq_spc s ci; pc = lpsched_cpus (rq_lp s) ci
     in if \<not> sched_migratable s l ci \<or> spc_idle spc \<or> spc_count spc \<noteq> 0 \<or> spc_curpriority spc > MAXPRI_USER R
        then pack_busy_scan P R E l cs s
        else if lpsched_accounting (rq_lp s) \<and>
           (pc_critical pc \<or> pc_cur_burst_us pc = 0 \<or> pc_cur_burst_us pc > word_of_int (lpsched_wait_budget_us (rq_lp s)))
        then pack_busy_scan P R E l cs (stat_at P E LPSCHED_ST_PACK_LONGBURST s)
        else (Some ci, stat_at P E LPSCHED_ST_PACK_BUSY s))"

definition lpsched_pack_pick :: "platform \<Rightarrow> runq_conf \<Rightarrow> cpu_topology \<Rightarrow> sched_env \<Rightarrow> lwp \<Rightarrow> nat \<Rightarrow> sched \<Rightarrow> nat option \<times> sched" where
  "lpsched_pack_pick P R T E l pivot s =
    (let (best, s) = pack_idle_scan P T E l (all_from T pivot) None s
     in case best of
          Some (ci, 0) \<Rightarrow> (Some ci, stat_at P E LPSCHED_ST_PACK_SIBLING s)
        | _ \<Rightarrow>
          (let (busy, s) = (if lpsched_pack (rq_lp s) \<ge> 2 then pack_busy_scan P R E l (all_from T pivot) s else (None, s))
           in case busy of
                Some ci \<Rightarrow> (Some ci, s)
              | None \<Rightarrow> (case best of
                    None \<Rightarrow> (None, stat_at P E LPSCHED_ST_PACK_NONE s)
                  | Some (ci, cost) \<Rightarrow> (Some ci, stat_at P E
                      (if cost > 1 + unat LPSCHED_IDLE_SHALLOW then LPSCHED_ST_PACK_DEEP else LPSCHED_ST_PACK_SHALLOW) s))))"

definition lpsched_min_catch :: "platform \<Rightarrow> runq_conf \<Rightarrow> cpu_topology \<Rightarrow> sched_env \<Rightarrow> nat \<Rightarrow> nat \<Rightarrow> sched \<Rightarrow> u32 \<times> sched" where
  "lpsched_min_catch P R T E local remote_ci s =
    (let catch = min_catch (rq_tune s); remote = rq_spc s remote_ci
     in if \<not> lpsched_packing (rq_lp s) then (catch, s)
        else if spc_maxpriority remote > MAXPRI_USER R then (catch, s)
        else
          let (overdue, lp) = (if lpsched_accounting (rq_lp s)
                then lpsched_queue_overdue P (se_now E) (curcpu E) remote_ci (rq_lp s) else (False, rq_lp s));
              s = s \<lparr> rq_lp := lp \<rparr>
          in if overdue then (catch, stat_at P E LPSCHED_ST_CATCH_ESCAPE s)
             else if list_ex (\<lambda>t. \<not> spc_idle (rq_spc s t)) (tl (core_ring T local)) then (catch, s)
             else
               let raised = catch + word_of_int (lpsched_pack (rq_lp s)); have = spc_mcount remote
               in (raised, if have > 0 \<and> have < uint raised then stat_at P E LPSCHED_ST_CATCH_HELD s else s))"

section \<open>Placing a thread that becomes runnable\<close>

text \<open>The thread is \<open>n\<close>; \<open>l\<close> is its entry in the table.\<close>

definition takecpu_stock :: "platform \<Rightarrow> runq_conf \<Rightarrow> cpu_topology \<Rightarrow> sched_env \<Rightarrow> lwp \<Rightarrow> bool \<Rightarrow> sched \<Rightarrow> nat" where
  "takecpu_stock P R T E l firstclass s =
    (let ci = l_cpu l; home = (\<lambda>c. find (\<lambda>tci. cpu_is_type T (rq_spc s tci) firstclass \<and> sched_migratable s l tci) (core_ring T c))
     in case home ci of Some tci \<Rightarrow> tci
        | None \<Rightarrow>
            if sched_migratable s l ci \<and>
              (eprio R l > spc_curpriority (rq_spc s ci) \<or> (lwp_cache_hot P E s l \<and> l_class l = SCHED_OTHER))
            then ci
            else case home (curcpu E) of Some tci \<Rightarrow> tci | None \<Rightarrow> sched_bestcpu R T s l ci)"

definition takecpu_place :: "platform \<Rightarrow> runq_conf \<Rightarrow> cpu_topology \<Rightarrow> sched_env \<Rightarrow> lwp \<Rightarrow> sched \<Rightarrow> nat \<times> sched" where
  "takecpu_place P R T E l s =
    (if l_stat l = LSIDL then
       let me = rq_lwps s (curlwp E) in
       if l_vforkwaiting me \<and> l_class l = SCHED_OTHER then
         (if sched_migratable s l (l_cpu me) \<and> eprio R l > spc_maxpriority (rq_spc s (l_cpu me)) then (l_cpu me, s)
          else (takecpu_stock P R T E l False s, s))
       else let (pkg, s) = sched_nextpkg T E s in (sched_bestcpu R T s l pkg, s)
     else (takecpu_stock P R T E l True s, s))"

definition sched_takecpu :: "platform \<Rightarrow> runq_conf \<Rightarrow> cpu_topology \<Rightarrow> sched_env \<Rightarrow> nat \<Rightarrow> sched \<Rightarrow> nat \<times> sched" where
  "sched_takecpu P R T E n s =
    (let l = rq_lwps s n
     in if l_pflag l AND LP_BOUND \<noteq> 0 then (l_cpu l, s)
        else
          let (exempt, s) = (if lpsched_packing (rq_lp s) then lpsched_exempt P E l s else (True, s));
              (tci, s) = (if exempt then (None, s) else lpsched_pack_pick P R T E l (l_cpu l) s)
          in case tci of Some c \<Rightarrow> (c, s) | None \<Rightarrow> takecpu_place P R T E l s)"

section \<open>Stealing and migration\<close>

definition sched_catchlwp :: "platform \<Rightarrow> runq_conf \<Rightarrow> cpu_topology \<Rightarrow> sched_env \<Rightarrow> nat \<Rightarrow> sched \<Rightarrow> nat option \<times> sched" where
  "sched_catchlwp P R T E ci s =
    (let cur = curcpu E; gentle = (\<not> cpu_is_better T (rq_spc s cur) (rq_spc s ci));
         (least, s) = (if gentle then lpsched_min_catch P R T E cur ci s else (1, s));
         spc = rq_spc s ci
     in if spc_mcount spc < uint least \<or> spc_psid (rq_spc s cur) \<noteq> spc_psid spc then (None, s)
        else case find (\<lambda>l. let v = rq_lwps s l in
               \<not> (l_pflag v AND LP_BOUND \<noteq> 0 \<or> (gentle \<and> lwp_cache_hot P E s v) \<or> \<not> sched_migratable s v cur))
               (spc_queue spc (nat (spc_maxpriority spc))) of
             None \<Rightarrow> (None, s)
           | Some l \<Rightarrow> (Some l, sched_enqueue P R (se_now E) (se_ticks E) l
               (upd_lwp l (\<lambda>v. v \<lparr> l_cpu := cur \<rparr>) (sched_dequeue P R l s))))"

text \<open>
  The retry of \<^verbatim>\<open>sched_idle_migrate\<close> after taking the two locks in the other order reads
  \<^verbatim>\<open>spc_migrating\<close> and the target again; this is the pass that holds both locks.
\<close>

definition sched_idle_migrate :: "platform \<Rightarrow> runq_conf \<Rightarrow> sched_env \<Rightarrow> sched \<Rightarrow> nat option \<times> sched" where
  "sched_idle_migrate P R E s =
    (let ci = curcpu E
     in case spc_migrating (rq_spc s ci) of
          None \<Rightarrow> (None, s)
        | Some l \<Rightarrow>
            (let target = l_target_cpu (rq_lwps s l);
                 s = upd_spc ci (\<lambda>spc. spc \<lparr> spc_migrating := None \<rparr>) s;
                 s = upd_lwp l (\<lambda>v. v \<lparr> l_target_cpu := None \<rparr>) s
             in case target of
                  None \<Rightarrow> (None, s)
                | Some tci \<Rightarrow>
                    if tci = ci then (None, s)
                    else
                      let s = sched_dequeue P R l s;
                          s = upd_lwp l (\<lambda>v. v \<lparr> l_cpu := tci \<rparr>) s;
                          s = sched_enqueue P R (se_now E) (se_ticks E) l s
                      in (Some tci, sched_resched_lwp R E l s)))"

definition sched_steal :: "platform \<Rightarrow> runq_conf \<Rightarrow> cpu_topology \<Rightarrow> sched_env \<Rightarrow> nat \<Rightarrow> nat \<Rightarrow> sched \<Rightarrow> bool \<times> sched" where
  "sched_steal P R T E ci tci s =
    (if spc_mcount (rq_spc s tci) \<noteq> 0 \<and> spc_psid (rq_spc s ci) = spc_psid (rq_spc s tci)
     then let (l, s) = sched_catchlwp P R T E tci s in (l \<noteq> None, s)
     else (False, s))"

fun steal_siblings :: "platform \<Rightarrow> runq_conf \<Rightarrow> cpu_topology \<Rightarrow> sched_env \<Rightarrow> nat option \<Rightarrow> nat list \<Rightarrow> sched \<Rightarrow> bool \<times> sched" where
  "steal_siblings P R T E mci [] s = (False, s)"
| "steal_siblings P R T E mci (tci # cs) s =
    (if Some tci \<noteq> mci then
       let (got, s) = sched_steal P R T E (curcpu E) tci s
       in if got then (True, s) else steal_siblings P R T E mci cs s
     else steal_siblings P R T E mci cs s)"

fun skim_scan :: "platform \<Rightarrow> runq_conf \<Rightarrow> cpu_topology \<Rightarrow> sched_env \<Rightarrow> nat option \<Rightarrow> nat list \<Rightarrow> sched \<Rightarrow> sched" where
  "skim_scan P R T E mci [] s = s"
| "skim_scan P R T E mci (inner # cs) s =
    (let ci = curcpu E
     in if ci = inner \<or> Some ci = mci \<or> spc_psid (rq_spc s ci) \<noteq> spc_psid (rq_spc s inner)
        then skim_scan P R T E mci cs s
        else
          let (least, s) = lpsched_min_catch P R T E ci inner s
          in if spc_mcount (rq_spc s inner) < uint least then skim_scan P R T E mci cs s
             else
               let (l, s) = sched_catchlwp P R T E inner s
               in if l \<noteq> None then s else skim_scan P R T E mci cs s)"

definition sched_idle :: "platform \<Rightarrow> runq_conf \<Rightarrow> cpu_topology \<Rightarrow> sched_env \<Rightarrow> sched \<Rightarrow> sched" where
  "sched_idle P R T E s =
    (let ci = curcpu E;
         (mci, s) = (if spc_migrating (rq_spc s ci) \<noteq> None then sched_idle_migrate P R E s else (None, s));
         spc = rq_spc s ci
     in if spc_offline spc \<or> spc_count spc \<noteq> 0 then s
        else
          let smt = (length (core_ring T ci) > 1);
              (got, s) = (if smt then steal_siblings P R T E mci (tl (core_ring T ci)) s else (False, s));
              spc = rq_spc s ci
          in if got then s
             else if smt \<and> \<not> spc_1stclass spc \<and> spc_psid spc = PS_NONE R then s
             else if spc_nextskim spc > se_ticks E then s
             else
               let s = upd_spc ci (\<lambda>spc. spc \<lparr> spc_nextskim := se_ticks E + word_of_int (mstohz P (uint (skim_interval (rq_tune s)))) \<rparr>) s
               in skim_scan P R T E mci (all_from T ci) s)"

definition set_target :: "nat \<Rightarrow> nat \<Rightarrow> sched \<Rightarrow> sched" where
  "set_target n tci = upd_lwp n (\<lambda>v. v \<lparr> l_target_cpu := Some tci \<rparr>)"

definition clear_teleport :: "nat \<Rightarrow> sched \<Rightarrow> sched" where
  "clear_teleport n = upd_lwp n (\<lambda>v. v \<lparr> l_pflag := l_pflag v AND NOT LP_TELEPORT \<rparr>)"

definition sched_preempted :: "platform \<Rightarrow> runq_conf \<Rightarrow> cpu_topology \<Rightarrow> sched_env \<Rightarrow> nat \<Rightarrow> sched \<Rightarrow> sched" where
  "sched_preempted P R T E n s =
    (let l = rq_lwps s n; ci = l_cpu l
     in if l_target_cpu l \<noteq> None \<or> (cpu_is_1stclass T (rq_spc s ci) \<and> l_pflag l AND LP_TELEPORT = 0) then s
        else case find (\<lambda>tci. cpu_is_idle_1stclass T (rq_spc s tci) \<and> sched_migratable s l tci) (tl (core_ring T ci)) of
          Some tci \<Rightarrow> clear_teleport n (set_target n tci s)
        | None \<Rightarrow>
            if l_pflag l AND LP_TELEPORT \<noteq> 0 then
              let s = clear_teleport n s;
                  (pkg, s) = sched_nextpkg T E s;
                  tci = sched_bestcpu R T s (rq_lwps s n) pkg
              in if tci \<noteq> ci then set_target n tci s else s
            else
              let tci = sched_bestcpu R T s l ci
              in if tci \<noteq> ci \<and> cpu_is_idle_1stclass T (rq_spc s tci) then
                   let (held, s) = (if lpsched_packing (rq_lp s) \<and> \<not> lpsched_same_core T ci tci \<and> lpsched_is_packed T ci s
                                    then let (exempt, s) = lpsched_exempt P E l s in (\<not> exempt, s) else (False, s))
                   in if held then stat_at P E LPSCHED_ST_PACK_HELD s else set_target n tci s
                 else s)"

end
