(* ===== verification/Runq_Prop.thy ===== *)
theory Runq_Prop
  imports Runq_Place
begin

text \<open>
  Properties of placement and balancing: the best CPU is the best of those the thread may run on,
  placement never chooses a forbidden CPU, and stealing and migration keep the run queues'
  invariant and lose no thread.
\<close>

section \<open>The best CPU\<close>

lemma bestcpu_scan_spec:
  assumes bound: "\<And>c. c \<in> set cs \<Longrightarrow> sched_migratable s l c \<Longrightarrow> cpu_pri s c < mx" and "bestpri \<le> mx"
    and best: "bestpri < mx \<Longrightarrow> sched_migratable s l bestci \<and> cpu_pri s bestci = bestpri"
    and some: "bestpri < mx \<or> (\<exists>c \<in> set cs. sched_migratable s l c)"
  shows "sched_migratable s l (bestcpu_scan T s l cs bestci bestpri) \<and>
    (cpu_is_idle_1stclass T (rq_spc s (bestcpu_scan T s l cs bestci bestpri)) \<or>
     (\<forall>c \<in> set cs. sched_migratable s l c \<longrightarrow> cpu_pri s (bestcpu_scan T s l cs bestci bestpri) \<le> cpu_pri s c) \<and>
     (bestpri < mx \<longrightarrow> cpu_pri s (bestcpu_scan T s l cs bestci bestpri) \<le> bestpri))"
  using assms
proof (induction cs arbitrary: bestci bestpri)
  case (Cons c cs)
  let ?skip = "bestcpu_scan T s l cs bestci bestpri" and ?take = "bestcpu_scan T s l cs c (cpu_pri s c)"
  consider (no) "\<not> sched_migratable s l c" | (idle) "sched_migratable s l c" "cpu_is_idle_1stclass T (rq_spc s c)"
    | (worse) "sched_migratable s l c" "\<not> cpu_is_idle_1stclass T (rq_spc s c)" "cpu_pri s c \<ge> bestpri"
        "bestcpu_scan T s l (c # cs) bestci bestpri = ?skip"
    | (better) "sched_migratable s l c" "\<not> cpu_is_idle_1stclass T (rq_spc s c)" "cpu_pri s c \<le> bestpri"
        "bestcpu_scan T s l (c # cs) bestci bestpri = ?take"
  proof (cases "cpu_pri s c > bestpri \<or> cpu_pri s c = bestpri \<and>
      (cpu_is_better T (rq_spc s bestci) (rq_spc s c) \<or> spc_count (rq_spc s bestci) < spc_count (rq_spc s c))")
    case True
    then show ?thesis using that(1-3) by (cases "cpu_pri s c > bestpri") auto
  next
    case False
    then show ?thesis using that(1,2,4) by (cases "cpu_pri s c = bestpri") auto
  qed
  then show ?case
  proof cases
    case no
    then show ?thesis using Cons.IH [of bestpri bestci] Cons.prems by simp
  next
    case idle
    then show ?thesis by simp
  next
    case worse
    have mx: "bestpri < mx" using worse(1,3) Cons.prems(1) [of c] by simp
    show ?thesis unfolding worse(4) using Cons.IH [of bestpri bestci] Cons.prems worse(3) mx by force
  next
    case better
    have mx: "cpu_pri s c < mx" using better(1) Cons.prems(1) [of c] by simp
    show ?thesis unfolding better(4) using Cons.IH [of "cpu_pri s c" c] Cons.prems better(1,3) mx by force
  qed
qed auto

lemma bestcpu_best:
  assumes "\<forall>c. sched_migratable s l c \<longrightarrow> cpu_pri s c < int (PRI_COUNT R)"
    and "\<exists>c \<in> set (all_from T pivot). sched_migratable s l c"
  shows "sched_migratable s l (sched_bestcpu R T s l pivot) \<and>
    (cpu_is_idle_1stclass T (rq_spc s (sched_bestcpu R T s l pivot)) \<or>
     (\<forall>c \<in> set (all_from T pivot). sched_migratable s l c \<longrightarrow> cpu_pri s (sched_bestcpu R T s l pivot) \<le> cpu_pri s c))"
proof -
  define b where "b = (if sched_migratable s l pivot then cpu_pri s pivot else int (PRI_COUNT R))"
  have "b \<le> int (PRI_COUNT R)" "b < int (PRI_COUNT R) \<Longrightarrow> sched_migratable s l pivot \<and> cpu_pri s pivot = b"
    using assms(1) unfolding b_def by (simp_all add: less_imp_le split: if_splits)
  then show ?thesis unfolding sched_bestcpu_def b_def [symmetric]
    using bestcpu_scan_spec [of "all_from T pivot" s l "int (PRI_COUNT R)" b pivot T] assms by blast
qed

text \<open>
  C11: \<^verbatim>\<open>sched_bestcpu\<close> returns a CPU the thread may run on whenever there is one, and unless it
  found an idle first-class CPU, none of the CPUs the thread may run on runs or queues lower
  priority work.
\<close>

theorem sched_bestcpu_best:
  assumes "\<forall>c. sched_migratable s l c \<longrightarrow> cpu_pri s c < int (PRI_COUNT R)"
    and "\<exists>c \<in> set (all_from T pivot). sched_migratable s l c"
  shows "sched_migratable s l (sched_bestcpu R T s l pivot) \<and>
    (cpu_is_idle_1stclass T (rq_spc s (sched_bestcpu R T s l pivot)) \<or>
     (\<forall>c \<in> set (all_from T pivot). sched_migratable s l c \<longrightarrow> cpu_pri s (sched_bestcpu R T s l pivot) \<le> cpu_pri s c))"
  using bestcpu_best [OF assms] .

section \<open>Operations that only count\<close>

text \<open>Exemption, packing and the stealing threshold change nothing but the power scheduler's counters.\<close>

definition lp_only :: "sched \<Rightarrow> sched \<Rightarrow> bool" where
  "lp_only s s' \<longleftrightarrow> (\<exists>lp. s' = s \<lparr> rq_lp := lp \<rparr>)"

lemma lp_only_refl [simp]: "lp_only s s"
proof -
  have "s = s \<lparr> rq_lp := rq_lp s \<rparr>" by simp
  then show ?thesis unfolding lp_only_def by blast
qed

lemma lp_only_trans: "lp_only s s' \<Longrightarrow> lp_only s' s'' \<Longrightarrow> lp_only s s''"
  by (auto simp: lp_only_def)

lemma lp_only_upd [simp]: "lp_only s (s \<lparr> rq_lp := lp \<rparr>)" "lp_only s (stat_at P E i s)"
  by (auto simp: lp_only_def stat_at_def)

lemma lp_only_stat: "lp_only s s' \<Longrightarrow> lp_only s (stat_at P E i s')"
  using lp_only_trans lp_only_upd(2) by blast

lemma lp_onlyD:
  assumes "lp_only s s'"
  shows "rq_lwps s' = rq_lwps s" "rq_spc s' = rq_spc s" "rq_tune s' = rq_tune s" "ci_want_resched s' = ci_want_resched s"
    "ci_onproc s' = ci_onproc s" "sched_migratable s' = sched_migratable s" "cpu_pri s' = cpu_pri s" "lwp_cache_hot P E s' = lwp_cache_hot P E s"
  using assms by (auto simp: lp_only_def sched_migratable_def cpu_pri_def lwp_cache_hot_def fun_eq_iff split: option.splits)

lemma exempt_lp_only: "lp_only s (snd (lpsched_exempt P E l s))"
  by (simp add: lpsched_exempt_def Let_def lp_only_stat)

lemma wake_cost_scan_lp_only: "lp_only s (snd (wake_cost_scan P E ci cs free s))"
  by (induction cs arbitrary: free) auto

lemma pack_idle_scan_spec:
  "lp_only s (snd (pack_idle_scan P T E l cs best s)) \<and>
   (\<forall>ci cost. fst (pack_idle_scan P T E l cs best s) = Some (ci, cost) \<longrightarrow> best = Some (ci, cost) \<or> ci \<in> set cs \<and> sched_migratable s l ci)"
proof (induction cs arbitrary: best s)
  case (Cons c cs)
  define s1 where "s1 = snd (lpsched_wake_cost P T E c s)"
  have s1: "lp_only s s1" unfolding s1_def lpsched_wake_cost_def by (rule wake_cost_scan_lp_only)
  obtain cost where w: "lpsched_wake_cost P T E c s = (cost, s1)" unfolding s1_def by (cases "lpsched_wake_cost P T E c s") simp
  show ?case
  proof (cases "\<not> sched_migratable s l c \<or> \<not> spc_idle (rq_spc s c)")
    case True
    then show ?thesis using Cons.IH [of s best] by auto
  next
    case False
    then show ?thesis using Cons.IH [of s1] lp_only_trans [OF s1] lp_onlyD(6) [OF s1] by (auto simp: w)
  qed
qed simp

lemma pack_busy_scan_spec:
  "lp_only s (snd (pack_busy_scan P R E l cs s)) \<and>
   (\<forall>ci. fst (pack_busy_scan P R E l cs s) = Some ci \<longrightarrow> ci \<in> set cs \<and> sched_migratable s l ci)"
proof (induction cs arbitrary: s)
  case (Cons c cs)
  have "lp_only s (snd (pack_busy_scan P R E l cs (stat_at P E LPSCHED_ST_PACK_LONGBURST s)))"
    using Cons.IH lp_only_trans lp_only_upd(2) by blast
  then show ?case using Cons.IH [of s] Cons.IH [of "stat_at P E LPSCHED_ST_PACK_LONGBURST s"]
    lp_onlyD(6) [OF lp_only_upd(2) [of s P E LPSCHED_ST_PACK_LONGBURST]] by (auto simp: Let_def)
qed simp

lemma pack_pick_spec:
  "lp_only s (snd (lpsched_pack_pick P R T E l pivot s)) \<and>
   (\<forall>ci. fst (lpsched_pack_pick P R T E l pivot s) = Some ci \<longrightarrow> sched_migratable s l ci)"
proof -
  obtain best s1 where b: "pack_idle_scan P T E l (all_from T pivot) None s = (best, s1)" by fastforce
  have s1: "lp_only s s1" and m: "best = Some (ci, cost) \<Longrightarrow> sched_migratable s l ci" for ci cost
    using pack_idle_scan_spec [of s P T E l "all_from T pivot" None] by (auto simp: b)
  obtain busy s2 where y: "(if lpsched_pack (rq_lp s1) \<ge> 2 then pack_busy_scan P R E l (all_from T pivot) s1 else (None, s1)) = (busy, s2)" by fastforce
  have s2: "lp_only s s2" and m2: "busy = Some ci \<Longrightarrow> sched_migratable s l ci" for ci
    using pack_busy_scan_spec [of s1 P R E l "all_from T pivot"] y s1 lp_only_trans [OF s1] lp_onlyD(6) [OF s1] by (auto split: if_splits)
  show ?thesis unfolding lpsched_pack_pick_def b y Let_def prod.case
    using m m2 by (auto simp: y lp_only_stat s1 s2 split: option.splits nat.splits prod.splits)
qed

text \<open>
  The topology of a machine with the given CPUs: from every CPU the loops over packages and
  their members reach exactly those CPUs, and a CPU's circular lists stay among them.
\<close>

definition topology_ok :: "cpu_topology \<Rightarrow> nat list \<Rightarrow> bool" where
  "topology_ok T cpus \<longleftrightarrow> (\<forall>p \<in> set cpus. set (all_from T p) = set cpus \<and> set (core_ring T p) \<subseteq> set cpus \<and>
    ring_next (package1st_ring T) p \<in> set cpus)"

lemma takecpu_stock_allowed:
  assumes "\<forall>c. sched_migratable s l c \<longrightarrow> cpu_pri s c < int (PRI_COUNT R)"
    and "\<exists>c \<in> set (all_from T (l_cpu l)). sched_migratable s l c"
  shows "sched_migratable s l (takecpu_stock P R T E l fc s)"
  using bestcpu_best [OF assms] unfolding takecpu_stock_def Let_def
  by (auto simp: find_Some_iff split: option.splits)

lemma nextpkg_frame:
  "rq_lwps (snd (sched_nextpkg T E s)) = rq_lwps s" "sched_migratable (snd (sched_nextpkg T E s)) = sched_migratable s"
  "cpu_pri (snd (sched_nextpkg T E s)) = cpu_pri s"
  by (auto simp: sched_nextpkg_def Let_def upd_spc_def sched_migratable_def cpu_pri_def fun_eq_iff split: option.splits)

lemma takecpu_place_allowed:
  assumes pri: "\<forall>c. sched_migratable s l c \<longrightarrow> cpu_pri s c < int (PRI_COUNT R)" and T: "topology_ok T cpus"
    and "l_cpu l \<in> set cpus" "spc_nextpkg (rq_spc s (curcpu E)) \<in> set cpus" "\<exists>c \<in> set cpus. sched_migratable s l c"
  shows "sched_migratable s l (fst (takecpu_place P R T E l s))"
proof -
  have c: "\<exists>c \<in> set (all_from T p). sched_migratable s l c" if "p \<in> set cpus" for p
    using T that assms(5) unfolding topology_ok_def by blast
  note stock = takecpu_stock_allowed [OF pri c [OF assms(3)]]
  let ?pkg = "fst (sched_nextpkg T E s)" and ?s = "snd (sched_nextpkg T E s)"
  have "?pkg \<in> set cpus" using T assms(4) by (simp add: sched_nextpkg_def Let_def topology_ok_def)
  then have "sched_migratable ?s l (sched_bestcpu R T ?s l ?pkg)"
    using bestcpu_best [of ?s l R T ?pkg] pri c by (simp add: nextpkg_frame)
  then show ?thesis using stock by (auto simp: takecpu_place_def Let_def nextpkg_frame split: prod.split)
qed

text \<open>
  C9: placement respects the administrator's constraints. A bound thread stays on its CPU; any
  other thread is sent to a CPU that is online and in its affinity or processor set, provided one
  exists, whichever of the packing, vfork, sticky, idle-core and search paths decides.
\<close>

theorem sched_takecpu_allowed:
  assumes "topology_ok T cpus" "\<forall>c. cpu_pri s c < int (PRI_COUNT R)"
    and "l_cpu (rq_lwps s n) \<in> set cpus" "spc_nextpkg (rq_spc s (curcpu E)) \<in> set cpus"
    and "\<exists>c \<in> set cpus. sched_migratable s (rq_lwps s n) c"
  shows "if l_pflag (rq_lwps s n) AND LP_BOUND \<noteq> 0 then fst (sched_takecpu P R T E n s) = l_cpu (rq_lwps s n)
    else sched_migratable s (rq_lwps s n) (fst (sched_takecpu P R T E n s))"
proof (cases "l_pflag (rq_lwps s n) AND LP_BOUND \<noteq> 0")
  case True
  then show ?thesis by (simp add: sched_takecpu_def Let_def)
next
  case False
  let ?l = "rq_lwps s n"
  obtain ex s1 where e: "(if lpsched_packing (rq_lp s) then lpsched_exempt P E ?l s else (True, s)) = (ex, s1)" by fastforce
  have s1: "lp_only s s1" using e exempt_lp_only [of s P E ?l] by (auto split: if_splits)
  obtain tci s2 where t: "(if ex then (None, s1) else lpsched_pack_pick P R T E ?l (l_cpu ?l) s1) = (tci, s2)" by fastforce
  have s2: "lp_only s1 s2" and m: "tci = Some c \<Longrightarrow> sched_migratable s1 ?l c" for c
    using t pack_pick_spec [of s1 P R T E ?l "l_cpu ?l"] by (auto split: if_splits)
  note s12 = lp_only_trans [OF s1 s2]
  have "sched_migratable s2 ?l (fst (takecpu_place P R T E ?l s2))"
    using takecpu_place_allowed [of s2 ?l R T cpus E P] assms unfolding lp_onlyD(2,6,7) [OF s12] by blast
  then have "sched_migratable s ?l (fst (sched_takecpu P R T E n s))"
    using False m lp_onlyD(6) [OF s1] lp_onlyD(6) [OF s12] by (auto simp: sched_takecpu_def Let_def e t split: option.split)
  then show ?thesis using False by simp
qed

section \<open>Stealing and migration\<close>

lemma min_catch_lp_only: "lp_only s (snd (lpsched_min_catch P R T E a b s))"
proof -
  obtain od lp where o: "(if lpsched_accounting (rq_lp s) then lpsched_queue_overdue P (se_now E) (curcpu E) b (rq_lp s) else (False, rq_lp s)) = (od, lp)" by fastforce
  show ?thesis unfolding lpsched_min_catch_def Let_def o prod.case by (auto simp: lp_only_stat)
qed

text \<open>Nothing but the order and place of the waiting threads changes.\<close>

definition conserves :: "runq_conf \<Rightarrow> sched \<Rightarrow> sched \<Rightarrow> bool" where
  "conserves R s s' \<longleftrightarrow> rq_ok R s' \<and> (\<forall>n. rq_queued R s' n \<longleftrightarrow> rq_queued R s n) \<and>
    (\<forall>n. l_stat (rq_lwps s' n) = l_stat (rq_lwps s n)) \<and> (\<forall>n. lwp_pris (rq_lwps s' n) = lwp_pris (rq_lwps s n)) \<and>
    (\<forall>k. spc_curpriority (rq_spc s' k) = spc_curpriority (rq_spc s k))"

lemma conserves_trans: "conserves R s s' \<Longrightarrow> conserves R s' s'' \<Longrightarrow> conserves R s s''"
  by (simp add: conserves_def)

lemma conserves_refl: "rq_ok R s \<Longrightarrow> conserves R s s"
  by (simp add: conserves_def)

lemma rq_queued_cong: "rq_lwps s' = rq_lwps s \<Longrightarrow> rq_spc s' = rq_spc s \<Longrightarrow> rq_queued R s' n = rq_queued R s n"
  by (simp add: rq_queued_def rq_list_def)

text \<open>A step that leaves every thread's place and state and the queues' contents alone.\<close>

lemma conserves_frame:
  assumes ok: "rq_ok R s" and p: "\<And>n. lwp_place (rq_lwps s' n) = lwp_place (rq_lwps s n)"
    and st: "\<And>n. l_stat (rq_lwps s' n) = l_stat (rq_lwps s n)" and spc: "rq_spc s' = rq_spc s"
  shows "conserves R s s'"
proof -
  have "rq_ok R s'" by (rule rq_ok_cong [OF p spc ok])
  moreover have "rq_queued R s' n = rq_queued R s n" for n
    unfolding rq_queued_def rq_list_def spc place_eq(2) [OF p [of n]] by (rule refl)
  ultimately show ?thesis unfolding conserves_def using st place_eq(4) [OF p] spc by simp
qed

lemma conserves_lp_only: "rq_ok R s \<Longrightarrow> lp_only s s' \<Longrightarrow> conserves R s s'"
  by (rule conserves_frame) (simp_all add: lp_onlyD)

lemma upd_place_conserves:
  assumes "rq_ok R s" "\<And>v. lwp_place (f v) = lwp_place v" "\<And>v. l_stat (f v) = l_stat v"
  shows "conserves R s (upd_lwp l f s)"
  by (rule conserves_frame [OF assms(1)]) (simp_all add: upd_lwp_def assms(2,3))

lemma upd_spc_conserves:
  assumes ok: "rq_ok R s" and f: "\<And>spc. f spc = spc \<lparr> spc_migrating := None \<rparr> \<or> f spc = spc \<lparr> spc_nextskim := t \<rparr> \<or> f spc = spc \<lparr> spc_nextpkg := n \<rparr>"
  shows "conserves R s (upd_spc k f s)"
proof -
  have o: "rq_order R (f spc) = rq_order R spc" for spc using f [of spc] by auto
  have "spc_ok R L j (f spc)" if "spc_ok R L j spc" for L j spc using that f [of spc] unfolding spc_ok_def by auto
  then have "rq_ok R (upd_spc k f s)" using ok by (auto simp: rq_ok_def upd_spc_def)
  moreover have "spc_curpriority (f spc) = spc_curpriority spc" for spc using f [of spc] by auto
  ultimately show ?thesis using o by (auto simp: conserves_def rq_queued_def rq_list_def upd_spc_def)
qed

lemma resched_frame:
  "rq_spc (sched_resched_cpu R E ci pri s) = rq_spc s"
  "rq_lwps (sched_resched_cpu R E ci pri s) = rq_lwps s \<or>
   rq_lwps (sched_resched_cpu R E ci pri s) = rq_lwps (upd_lwp (ci_onproc s ci) (\<lambda>v. v \<lparr> l_dopreempt := l_dopreempt v OR DOPREEMPT_ACTIVE \<rparr>) s)"
proof -
  have p: "rq_spc (resched_post R E ci l f s) = rq_spc s" "rq_lwps (resched_post R E ci l f s) = rq_lwps s" for l f s
    by (simp_all add: resched_post_def Let_def)
  show "rq_spc (sched_resched_cpu R E ci pri s) = rq_spc s" by (simp add: sched_resched_cpu_def Let_def p upd_lwp_def)
  show "rq_lwps (sched_resched_cpu R E ci pri s) = rq_lwps s \<or>
   rq_lwps (sched_resched_cpu R E ci pri s) = rq_lwps (upd_lwp (ci_onproc s ci) (\<lambda>v. v \<lparr> l_dopreempt := l_dopreempt v OR DOPREEMPT_ACTIVE \<rparr>) s)"
    by (simp add: sched_resched_cpu_def Let_def p)
qed

lemma resched_conserves:
  assumes "rq_ok R s"
  shows "conserves R s (sched_resched_cpu R E ci pri s)"
proof (rule conserves_frame [OF assms])
  fix n
  show "lwp_place (rq_lwps (sched_resched_cpu R E ci pri s) n) = lwp_place (rq_lwps s n)"
    "l_stat (rq_lwps (sched_resched_cpu R E ci pri s) n) = l_stat (rq_lwps s n)"
    using resched_frame(2) [of R E ci pri s] by (auto simp: upd_lwp_def)
qed (rule resched_frame)

text \<open>Taking a thread out of one queue and putting it into that of another CPU.\<close>

lemma move_conserves:
  assumes h: "runq_hooks_ok R" and ok: "rq_ok R s" and q: "rq_queued R s l"
  shows "conserves R s (sched_enqueue P R now t l (upd_lwp l (\<lambda>v. v \<lparr> l_cpu := c \<rparr>) (sched_dequeue P R l s)))"
proof -
  have p: "prio_ok R ((rq_lwps s l) \<lparr> l_cpu := c \<rparr>)"
    using rq_list_mem(2) [OF ok q [unfolded rq_queued_def]] by (simp add: prio_ok_def)
  show ?thesis unfolding conserves_def
    using rq.requeue [of R s l "\<lambda>v. v \<lparr> l_cpu := c \<rparr>" P now t] h ok q p by (auto simp: upd_lwp_def lwp_pris_def)
qed

lemma catchlwp_conserves:
  assumes h: "runq_hooks_ok R" and ok: "rq_ok R s"
  shows "conserves R s (snd (sched_catchlwp P R T E ci s))"
proof -
  let ?g = "\<not> cpu_is_better T (rq_spc s (curcpu E)) (rq_spc s ci)"
  obtain least s1 where m: "(if ?g then lpsched_min_catch P R T E (curcpu E) ci s else (1, s)) = (least, s1)" by fastforce
  have s1: "lp_only s s1" using m min_catch_lp_only [of s P R T E "curcpu E" ci] by (auto split: if_splits)
  note c1 = conserves_lp_only [OF ok s1]
  have ok1: "rq_ok R s1" using c1 by (simp add: conserves_def)
  have "rq_queued R s1 l" if "find F (spc_queue (rq_spc s1 ci) p) = Some l" for l F p
  proof -
    have "l \<in> set (spc_queue (rq_spc s1 ci) p)" using that by (auto simp: find_Some_iff)
    moreover have "p < PRI_COUNT R" using spc_okD(2) [OF rq_okD [OF ok1] calculation] by simp
    ultimately have "l \<in> set (rq_list R ci s1)" by (auto simp: rq_list_def rq_order_mem)
    then show ?thesis using rq_queued_iff [OF ok1] by blast
  qed
  then show ?thesis unfolding sched_catchlwp_def Let_def m prod.case
    using c1 conserves_trans [OF c1 move_conserves [OF h ok1]] by (auto split: option.split)
qed

lemma idle_migrate_conserves:
  assumes h: "runq_hooks_ok R" and ok: "rq_ok R s"
  shows "conserves R s (snd (sched_idle_migrate P R E s))"
proof (cases "spc_migrating (rq_spc s (curcpu E))")
  case None
  then show ?thesis using conserves_refl [OF ok] by (simp add: sched_idle_migrate_def Let_def)
next
  case (Some l)
  define s1 where "s1 = upd_spc (curcpu E) (\<lambda>spc. spc \<lparr> spc_migrating := None \<rparr>) s"
  define s2 where "s2 = upd_lwp l (\<lambda>v. v \<lparr> l_target_cpu := None \<rparr>) s1"
  have c1: "conserves R s s1" unfolding s1_def by (rule upd_spc_conserves [OF ok]) simp
  then have ok1: "rq_ok R s1" by (simp add: conserves_def)
  have c2: "conserves R s s2" unfolding s2_def by (rule conserves_trans [OF c1 upd_place_conserves [OF ok1]]) simp_all
  then have ok2: "rq_ok R s2" by (simp add: conserves_def)
  have "rq_queued R s l" using spc_okD(7) [OF rq_okD [OF ok] Some] rq_queued_iff [OF ok] by (auto simp: rq_list_def)
  then have q2: "rq_queued R s2 l" using c2 by (simp add: conserves_def)
  define s3 where "s3 tci = sched_enqueue P R (se_now E) (se_ticks E) l (upd_lwp l (\<lambda>v. v \<lparr> l_cpu := tci \<rparr>) (sched_dequeue P R l s2))" for tci
  have c3: "conserves R s (s3 tci)" for tci unfolding s3_def by (rule conserves_trans [OF c2 move_conserves [OF h ok2 q2]])
  have "conserves R s (sched_resched_lwp R E l (s3 tci))" for tci
    unfolding sched_resched_lwp_def by (rule conserves_trans [OF c3 resched_conserves]) (use c3 in \<open>simp add: conserves_def\<close>)
  then show ?thesis using c2 by (simp add: sched_idle_migrate_def Some Let_def s1_def [symmetric] s2_def [symmetric] s3_def [symmetric] split: option.split)
qed

lemma steal_conserves:
  assumes h: "runq_hooks_ok R" and ok: "rq_ok R s"
  shows "conserves R s (snd (sched_steal P R T E ci tci s))"
  using catchlwp_conserves [OF h ok, of P T E tci] conserves_refl [OF ok] by (auto simp: sched_steal_def split: prod.split)

lemma steal_siblings_conserves:
  assumes h: "runq_hooks_ok R" and "rq_ok R s"
  shows "conserves R s (snd (steal_siblings P R T E mci cs s))"
  using assms(2)
proof (induction cs arbitrary: s)
  case (Cons tci cs)
  obtain got s1 where g: "sched_steal P R T E (curcpu E) tci s = (got, s1)" by fastforce
  have c1: "conserves R s s1" using steal_conserves [OF h Cons.prems, of P T E "curcpu E" tci] by (simp add: g)
  then have ok1: "rq_ok R s1" by (simp add: conserves_def)
  show ?case using Cons.IH [OF Cons.prems] c1 conserves_trans [OF c1 Cons.IH [OF ok1]] by (simp add: g)
qed (simp add: conserves_refl)

lemma skim_scan_conserves:
  assumes h: "runq_hooks_ok R" and "rq_ok R s"
  shows "conserves R s (skim_scan P R T E mci cs s)"
  using assms(2)
proof (induction cs arbitrary: s)
  case (Cons c cs)
  obtain least s1 where m: "lpsched_min_catch P R T E (curcpu E) c s = (least, s1)" by fastforce
  have c1: "conserves R s s1" using conserves_lp_only [OF Cons.prems min_catch_lp_only [of s P R T E "curcpu E" c]] by (simp add: m)
  then have ok1: "rq_ok R s1" by (simp add: conserves_def)
  obtain l s2 where l: "sched_catchlwp P R T E c s1 = (l, s2)" by fastforce
  have c2: "conserves R s s2" using conserves_trans [OF c1 catchlwp_conserves [OF h ok1, of P T E c]] by (simp add: l)
  then have ok2: "rq_ok R s2" by (simp add: conserves_def)
  show ?case using Cons.IH [OF Cons.prems] conserves_trans [OF c1 Cons.IH [OF ok1]] conserves_trans [OF c2 Cons.IH [OF ok2]] c2
    by (simp add: Let_def m l)
qed (simp add: conserves_refl)

lemma idle_conserves:
  assumes h: "runq_hooks_ok R" and ok: "rq_ok R s"
  shows "conserves R s (sched_idle P R T E s)"
proof -
  let ?ci = "curcpu E"
  obtain mci s1 where m: "(if spc_migrating (rq_spc s ?ci) \<noteq> None then sched_idle_migrate P R E s else (None, s)) = (mci, s1)" by fastforce
  have c1: "conserves R s s1" using m idle_migrate_conserves [OF h ok, of P E] conserves_refl [OF ok] by (auto split: if_splits)
  then have ok1: "rq_ok R s1" by (simp add: conserves_def)
  obtain got s2 where g: "(if length (core_ring T ?ci) > 1 then steal_siblings P R T E mci (tl (core_ring T ?ci)) s1 else (False, s1)) = (got, s2)" by fastforce
  have c2: "conserves R s s2" using g conserves_trans [OF c1 steal_siblings_conserves [OF h ok1, of P T E mci "tl (core_ring T ?ci)"]] c1 by (auto split: if_splits)
  then have ok2: "rq_ok R s2" by (simp add: conserves_def)
  have c3: "conserves R s (upd_spc ?ci (\<lambda>spc. spc \<lparr> spc_nextskim := t \<rparr>) s2)" for t
    by (rule conserves_trans [OF c2 upd_spc_conserves [OF ok2, where t = t]]) simp
  then have "conserves R s (skim_scan P R T E mci cs (upd_spc ?ci (\<lambda>spc. spc \<lparr> spc_nextskim := t \<rparr>) s2))" for t cs
    using conserves_trans [OF c3 skim_scan_conserves [OF h]] c3 unfolding conserves_def by blast
  then show ?thesis unfolding sched_idle_def Let_def m prod.case g using c1 c2 by simp
qed

lemma catchlwp_allowed:
  assumes h: "runq_hooks_ok R" and ok: "rq_ok R s" and c: "fst (sched_catchlwp P R T E ci s) = Some l"
  shows "lwp_unbound (rq_lwps s l) \<and> sched_migratable s (rq_lwps s l) (curcpu E) \<and> l \<in> set (rq_list R ci s) \<and>
    l_cpu (rq_lwps (snd (sched_catchlwp P R T E ci s)) l) = curcpu E"
proof -
  let ?g = "\<not> cpu_is_better T (rq_spc s (curcpu E)) (rq_spc s ci)"
  obtain least s1 where m: "(if ?g then lpsched_min_catch P R T E (curcpu E) ci s else (1, s)) = (least, s1)" by fastforce
  have s1: "lp_only s s1" using m min_catch_lp_only [of s P R T E "curcpu E" ci] by (auto split: if_splits)
  define s3 where "s3 = upd_lwp l (\<lambda>v. v \<lparr> l_cpu := curcpu E \<rparr>) (sched_dequeue P R l s1)"
  obtain F where F: "find F (spc_queue (rq_spc s1 ci) (nat (spc_maxpriority (rq_spc s1 ci)))) = Some l"
    "F = (\<lambda>l. let v = rq_lwps s1 l in \<not> (l_pflag v AND LP_BOUND \<noteq> 0 \<or> (?g \<and> lwp_cache_hot P E s1 v) \<or> \<not> sched_migratable s1 v (curcpu E)))"
    and r: "snd (sched_catchlwp P R T E ci s) = sched_enqueue P R (se_now E) (se_ticks E) l s3"
    using c by (auto simp: sched_catchlwp_def Let_def m s3_def split: if_splits option.splits)
  have l: "F l" "l \<in> set (spc_queue (rq_spc s ci) (nat (spc_maxpriority (rq_spc s ci))))"
    using F(1) unfolding lp_onlyD(2) [OF s1] by (auto simp: find_Some_iff)
  then have "l \<in> set (rq_list R ci s)" using spc_okD(2) [OF rq_okD [OF ok] l(2)] by (auto simp: rq_list_def rq_order_mem)
  moreover have "lwp_unbound (rq_lwps s l)" "sched_migratable s (rq_lwps s l) (curcpu E)"
    using l(1) unfolding F(2) Let_def lp_onlyD(1,6) [OF s1] by (auto simp: lwp_unbound_def)
  moreover obtain v where "rq_lwps (sched_enqueue P R (se_now E) (se_ticks E) l s3) = (rq_lwps s3)(l := v)" "lwp_place v = lwp_place (rq_lwps s3 l)"
    using sched_enqueue_lwps [OF h] by blast
  then have "l_cpu (rq_lwps (snd (sched_catchlwp P R T E ci s)) l) = curcpu E"
    unfolding r using place_eq(2) [of v "rq_lwps s3 l"] by (simp add: s3_def upd_lwp_def)
  ultimately show ?thesis by blast
qed

text \<open>
  C10: an idle CPU's search for work loses, duplicates and wakes no thread. Whatever it migrates or
  steals, exactly the same threads wait afterwards, each in one queue, with their states and
  priorities, and the invariant of the queues holds; and a thread it steals from CPU \<open>ci\<close> was
  waiting there, is not bound, and may run on the CPU that stole it.
\<close>

theorem sched_idle_conserves:
  assumes "runq_hooks_ok R" "rq_ok R s"
  shows "conserves R s (sched_idle P R T E s) \<and>
    (\<forall>l. fst (sched_catchlwp P R T E ci s) = Some l \<longrightarrow>
      lwp_unbound (rq_lwps s l) \<and> sched_migratable s (rq_lwps s l) (curcpu E) \<and> l \<in> set (rq_list R ci s) \<and>
      l_cpu (rq_lwps (snd (sched_catchlwp P R T E ci s)) l) = curcpu E)"
  using idle_conserves [OF assms] catchlwp_allowed [OF assms] by blast

section \<open>Witnesses\<close>

text \<open>Two cores of two threads each, in one package.\<close>

definition sample_topology :: cpu_topology where
  "sample_topology = \<lparr> core_ring = \<lambda>c. if even c then [c, c + 1] else [c, c - 1], package_ring = \<lambda>_. [0, 1, 2, 3],
    package1st_ring = \<lambda>_. [0], ci_package1st = \<lambda>_. 0,
    cpu_is_better = \<lambda>a b. spc_1stclass a \<and> \<not> spc_1stclass b, cpu_is_1stclass = spc_1stclass,
    cpu_is_idle_1stclass = \<lambda>a. spc_idle a \<and> spc_1stclass a, cpu_is_type = \<lambda>a f. spc_idle a \<and> (f \<longrightarrow> spc_1stclass a) \<rparr>"

definition sample_env :: sched_env where
  "sample_env = \<lparr> se_now = 0, se_ticks = 100, curcpu = 2, curlwp = 9, cpu_intr_p = False \<rparr>"

lemma sample_all_from: "all_from sample_topology p = [0, 1, 2, 3]"
  by (simp add: all_from_def sample_topology_def)

lemma sample_topology_ok: "topology_ok sample_topology [0, 1, 2, 3]"
  by (simp add: topology_ok_def sample_all_from ring_next_def) (simp add: sample_topology_def)

text \<open>The sample scheduler with CPU 0, the home of every thread, taken offline.\<close>

definition sample_offline :: sched where
  "sample_offline = upd_spc 0 (\<lambda>spc. spc \<lparr> spc_offline := True \<rparr>) sample_sched"

lemma sample_migratable: "sched_migratable sample_offline (rq_lwps sample_offline n) c \<longleftrightarrow> c \<noteq> 0"
  by (simp add: sched_migratable_def sample_offline_def upd_spc_def sample_sched_def sample_spc_def sample_lwp_def)

lemma sample_cpu_pri: "cpu_pri sample_offline c < int (PRI_COUNT sample_runq)"
  by (simp add: cpu_pri_def sample_offline_def upd_spc_def sample_sched_def sample_spc_def sample_runq_def)

theorem sched_bestcpu_best_witness:
  "sched_bestcpu sample_runq sample_topology sample_offline (rq_lwps sample_offline 3) 2 \<noteq> 0"
  using sched_bestcpu_best [of sample_offline "rq_lwps sample_offline 3" sample_runq sample_topology 2]
  by (simp add: sample_cpu_pri sample_migratable sample_all_from)

theorem sched_takecpu_allowed_witness:
  "fst (sched_takecpu sample_platform sample_runq sample_topology sample_env 3 sample_offline) \<noteq> 0"
proof -
  have l: "l_cpu (rq_lwps sample_offline 3) = 0" "l_pflag (rq_lwps sample_offline 3) = 0" "spc_nextpkg (rq_spc sample_offline c) = 0" for c
    by (simp_all add: sample_offline_def upd_spc_def sample_sched_def sample_lwp_def sample_spc_def)
  show ?thesis
    using sched_takecpu_allowed [OF sample_topology_ok, of sample_offline sample_runq 3 sample_env sample_platform]
    by (simp add: sample_cpu_pri sample_migratable l)
qed

theorem sched_idle_conserves_witness:
  "let s = sched_enqueue sample_platform sample_runq 0 5 3 sample_sched
   in rq_queued sample_runq s 3 \<and> rq_queued sample_runq (sched_idle sample_platform sample_runq sample_topology sample_env s) 3"
proof -
  let ?s = "sched_enqueue sample_platform sample_runq 0 5 3 sample_sched"
  have l: "rq_lwps sample_sched 3 = sample_lwp \<lparr> l_stat := LSSLEEP \<rparr>" by (simp add: sample_sched_def)
  have p: "prio_ok sample_runq (rq_lwps sample_sched 3)" by (simp add: prio_ok_def l sample_eprio) (simp add: sample_runq_def)
  have n: "\<not> rq_queued sample_runq sample_sched 3" by (simp add: rq_queued_def rq_list_def sample_sched_def sample_order)
  have q: "rq_queued sample_runq ?s 3" using rq_queued_enqueue [OF sample_hooks sample_rq_ok p n] by blast
  have "conserves sample_runq ?s (sched_idle sample_platform sample_runq sample_topology sample_env ?s)"
    using sched_idle_conserves [OF sample_hooks sched_enqueue_ok [OF sample_hooks sample_rq_ok p n]] by blast
  then show ?thesis using q by (simp add: conserves_def Let_def)
qed

end
