(* ===== verification/Switch.thy ===== *)
theory Switch
  imports Runq_Prop
begin

text \<open>
  The life of a thread between its states: context switching, waking and priority changes of
  \<^verbatim>\<open>kernel/kern/kern_synch.c\<close>, and suspending, continuing, starting and migrating threads in
  \<^verbatim>\<open>kernel/kern/kern_lwp.c\<close>. The operations work on the run queues of \<^verbatim>\<open>kern_runq.c\<close>; together
  they keep one invariant, that a thread is in a run queue exactly while it is in the state
  \<^verbatim>\<open>LSRUN\<close>.

  The locks of the code are not part of the state: each operation is what the code does while it
  holds them. \<open>synch_ops\<close> holds what is called elsewhere: the idle threads, sleep queues
  (\<^verbatim>\<open>lwp_unsleep\<close> through the sleep queue's \<^verbatim>\<open>sobj_unsleep\<close>, \<^verbatim>\<open>cv_broadcast\<close>), and the notification of
  a pending signal. CPU time accounting, the pmap and the processor-specific part of the switch
  are left out.
\<close>

section \<open>Operations\<close>

abbreviation (input) LW_SINTR :: u32 where "LW_SINTR \<equiv> 0x80"
abbreviation (input) LW_DBGSUSPEND :: u32 where "LW_DBGSUSPEND \<equiv> 0x10000"
abbreviation (input) LW_WSUSPEND :: u32 where "LW_WSUSPEND \<equiv> 0x20000"
abbreviation (input) LW_WCORE :: u32 where "LW_WCORE \<equiv> 0x80000"
abbreviation (input) LW_WEXIT :: u32 where "LW_WEXIT \<equiv> 0x100000"
abbreviation (input) LW_WREBOOT :: u32 where "LW_WREBOOT \<equiv> 0x8000000"

record synch_ops =
  cpu_idlelwp :: "nat \<Rightarrow> nat"
  cpu_softints :: "nat \<Rightarrow> u32"
  lwp_unsleep :: "nat \<Rightarrow> sched \<Rightarrow> sched"
  cv_broadcast_lwpcv :: "int \<Rightarrow> sched \<Rightarrow> sched"
  signotify :: "lwp \<Rightarrow> lwp"
  PRI_USER_RT :: int

definition upd_proc :: "int \<Rightarrow> (proc \<Rightarrow> proc) \<Rightarrow> sched \<Rightarrow> sched" where
  "upd_proc pid f s = s \<lparr> rq_procs := (rq_procs s)(pid := f (rq_procs s pid)) \<rparr>"

definition nextlwp :: "synch_ops \<Rightarrow> platform \<Rightarrow> runq_conf \<Rightarrow> sched_env \<Rightarrow> sched \<Rightarrow> nat \<times> sched" where
  "nextlwp X P R E s =
    (let ci = curcpu E;
         (n, s) = sched_nextlwp P R (se_now E) (se_ticks E) ci (curlwp E) s;
         (newl, s) = (case n of
           Some newl \<Rightarrow>
             (let s = sched_dequeue P R newl s;
                  s = upd_lwp newl (\<lambda>v. v \<lparr> l_stat := LSONPROC, l_pflag := l_pflag v OR LP_RUNNING, l_boostpri := PRI_NONE R \<rparr>) s;
                  s = upd_spc ci (\<lambda>spc. spc \<lparr> spc_curpriority := eprio R (rq_lwps s newl), spc_switchclear := False, spc_idle := False \<rparr>) s
              in (newl, s))
         | None \<Rightarrow>
             (let newl = cpu_idlelwp X ci;
                  s = upd_lwp newl (\<lambda>v. v \<lparr> l_pflag := l_pflag v OR LP_RUNNING \<rparr>) s;
                  s = upd_spc ci (\<lambda>spc. spc \<lparr> spc_curpriority := PRI_IDLE R, spc_switchclear := False, spc_idle := True \<rparr>) s
              in (newl, s)))
     in (newl, if cpu_softints X ci = 0 then s \<lparr> ci_want_resched := (ci_want_resched s)(ci := 0) \<rparr> else s))"

text \<open>A thread that was running goes back to its queue, and may be marked for migration.\<close>

definition mi_switch_yield :: "platform \<Rightarrow> runq_conf \<Rightarrow> cpu_topology \<Rightarrow> sched_env \<Rightarrow> sched \<Rightarrow> sched" where
  "mi_switch_yield P R T E s =
    (let l = curlwp E;
         s = upd_lwp l (\<lambda>v. v \<lparr> l_stat := LSRUN \<rparr>) s;
         s = sched_enqueue P R (se_now E) (se_ticks E) l s;
         s = sched_preempted P R T E l s
     in if l_target_cpu (rq_lwps s l) \<noteq> None \<and> l_pflag (rq_lwps s l) AND LP_BOUND = 0
        then upd_spc (curcpu E) (\<lambda>spc. spc \<lparr> spc_migrating := Some l \<rparr>) s else s)"

definition mi_switch :: "synch_ops \<Rightarrow> platform \<Rightarrow> runq_conf \<Rightarrow> cpu_topology \<Rightarrow> sched_env \<Rightarrow> sched \<Rightarrow> nat \<times> sched" where
  "mi_switch X P R T E s =
    (let l = curlwp E; ci = curcpu E;
         to = l_switchto (rq_lwps s l);
         returning = (to \<noteq> None \<and> l_pflag (rq_lwps s l) AND LP_INTR \<noteq> 0);
         s = (if to \<noteq> None then upd_lwp l (\<lambda>v. v \<lparr> l_switchto := None \<rparr>) s else s);
         s = (if l_stat (rq_lwps s l) = LSONPROC \<and> Some l \<noteq> to then mi_switch_yield P R T E s else s);
         (newl, s) = (case to of Some newl \<Rightarrow> (newl, s) | None \<Rightarrow> nextlwp X P R E s);
         s = (if returning then s else s \<lparr> ci_onproc := (ci_onproc s)(ci := newl) \<rparr>);
         s = upd_lwp l (\<lambda>v. v \<lparr> l_dopreempt := 0 \<rparr>) s;
         s = upd_lwp l (\<lambda>v. v \<lparr> l_pflag := l_pflag v AND NOT LP_PREEMPTING \<rparr>) s
     in (newl, if l \<noteq> newl then upd_lwp l (\<lambda>v. v \<lparr> l_pflag := l_pflag v AND NOT LP_RUNNING \<rparr>) s else s))"

definition yield :: "synch_ops \<Rightarrow> platform \<Rightarrow> runq_conf \<Rightarrow> cpu_topology \<Rightarrow> sched_env \<Rightarrow> sched \<Rightarrow> nat \<times> sched" where
  "yield X P R T E s = mi_switch X P R T E s"

definition preempt :: "synch_ops \<Rightarrow> platform \<Rightarrow> runq_conf \<Rightarrow> cpu_topology \<Rightarrow> sched_env \<Rightarrow> sched \<Rightarrow> nat \<times> sched" where
  "preempt X P R T E s = mi_switch X P R T E (upd_lwp (curlwp E) (\<lambda>v. v \<lparr> l_pflag := l_pflag v OR LP_PREEMPTING \<rparr>) s)"

definition sched_vforkexec :: "synch_ops \<Rightarrow> platform \<Rightarrow> runq_conf \<Rightarrow> cpu_topology \<Rightarrow> sched_env \<Rightarrow> nat \<Rightarrow> bool \<Rightarrow> sched \<Rightarrow> sched" where
  "sched_vforkexec X P R T E ncpu samecpu s =
    (if (samecpu \<and> ncpu > 1) \<or> \<not> cpu_is_1stclass T (rq_spc s (l_cpu (rq_lwps s (curlwp E))))
     then snd (preempt X P R T E (upd_lwp (curlwp E) (\<lambda>v. v \<lparr> l_pflag := l_pflag v OR LP_TELEPORT \<rparr>) s))
     else s)"

text \<open>\<^verbatim>\<open>setrunnable\<close>; \<open>None\<close> is its panic on a thread that cannot be woken.\<close>

definition setrunnable_stat :: "synch_ops \<Rightarrow> nat \<Rightarrow> sched \<Rightarrow> sched option" where
  "setrunnable_stat X n s =
    (let l = rq_lwps s n; pid = l_pid l; p = rq_procs s pid
     in case l_stat l of
          LSSTOP \<Rightarrow> Some (upd_proc pid (\<lambda>p. p \<lparr> p_nrlwps := p_nrlwps p + 1 \<rparr>)
            (if p_traced p \<and> p_xsig p \<noteq> 0 then upd_lwp n (signotify X) s else s))
        | LSSUSPENDED \<Rightarrow> Some (cv_broadcast_lwpcv X pid (upd_proc pid (\<lambda>p. p \<lparr> p_nrlwps := p_nrlwps p + 1 \<rparr>)
            (upd_lwp n (\<lambda>v. v \<lparr> l_flag := l_flag v AND NOT LW_WSUSPEND \<rparr>) s)))
        | LSSLEEP \<Rightarrow> Some s
        | LSIDL \<Rightarrow> Some s
        | _ \<Rightarrow> None)"

definition setrunnable_place :: "platform \<Rightarrow> runq_conf \<Rightarrow> cpu_topology \<Rightarrow> sched_env \<Rightarrow> nat \<Rightarrow> sched \<Rightarrow> sched" where
  "setrunnable_place P R T E n s =
    (let (ci, s) = sched_takecpu P R T E n s;
         s = upd_lwp n (\<lambda>v. (sched_setrunnable R (v \<lparr> l_cpu := ci \<rparr>)) \<lparr> l_stat := LSRUN, l_slptime := 0 \<rparr>) s;
         s = sched_enqueue P R (se_now E) (se_ticks E) n s
     in sched_resched_lwp R E n s)"

definition setrunnable :: "synch_ops \<Rightarrow> platform \<Rightarrow> runq_conf \<Rightarrow> cpu_topology \<Rightarrow> sched_env \<Rightarrow> nat \<Rightarrow> sched \<Rightarrow> sched option" where
  "setrunnable X P R T E n s = (case setrunnable_stat X n s of
      None \<Rightarrow> None
    | Some s \<Rightarrow> Some
        (if l_wchan (rq_lwps s n) then lwp_unsleep X n (upd_lwp n (\<lambda>v. v \<lparr> l_stat := LSSLEEP \<rparr>) s)
         else if l_pflag (rq_lwps s n) AND LP_RUNNING \<noteq> 0
         then upd_lwp n (\<lambda>v. v \<lparr> l_stat := LSONPROC, l_slptime := 0 \<rparr>) s
         else setrunnable_place P R T E n s))"

text \<open>A change of one of a thread's priorities: \<open>f\<close> is the assignment.\<close>

definition sched_setpri :: "platform \<Rightarrow> runq_conf \<Rightarrow> sched_env \<Rightarrow> nat \<Rightarrow> (lwp \<Rightarrow> lwp) \<Rightarrow> sched \<Rightarrow> sched" where
  "sched_setpri P R E n f s =
    (let l = rq_lwps s n; ci = l_cpu l
     in if l_stat l = LSRUN then
          let s = sched_dequeue P R n s;
              s = upd_lwp n f s;
              s = sched_enqueue P R (se_now E) (se_ticks E) n s
          in sched_resched_lwp R E n s
        else if l_stat l = LSONPROC \<and> l_class l \<noteq> SCHED_OTHER then
          let s = upd_lwp n f s
          in sched_resched_cpu R E ci (spc_maxpriority (rq_spc s ci)) s
        else upd_lwp n f s)"

definition sched_changepri :: "platform \<Rightarrow> runq_conf \<Rightarrow> sched_env \<Rightarrow> nat \<Rightarrow> int \<Rightarrow> sched \<Rightarrow> sched" where
  "sched_changepri P R E n pri s = sched_setpri P R E n (\<lambda>v. v \<lparr> l_priority := pri \<rparr>) s"

definition sched_lendpri :: "platform \<Rightarrow> runq_conf \<Rightarrow> sched_env \<Rightarrow> nat \<Rightarrow> int \<Rightarrow> sched \<Rightarrow> sched" where
  "sched_lendpri P R E n pri s =
    sched_setpri P R E n (\<lambda>v. v \<lparr> l_inheritedprio := pri, l_auxprio := max pri (l_protectprio v) \<rparr>) s"

definition lwp_changepri :: "platform \<Rightarrow> runq_conf \<Rightarrow> sched_env \<Rightarrow> nat \<Rightarrow> int \<Rightarrow> sched \<Rightarrow> sched" where
  "lwp_changepri P R E n pri s = (if l_priority (rq_lwps s n) = pri then s else sched_changepri P R E n pri s)"

text \<open>
  Suspending and continuing threads. The result is the error and the state; \<open>None\<close> is a panic.
  \<^verbatim>\<open>lwp_need_userret\<close> only sets the processor's AST flag.
\<close>

definition lwp_suspend :: "synch_ops \<Rightarrow> platform \<Rightarrow> runq_conf \<Rightarrow> cpu_topology \<Rightarrow> sched_env \<Rightarrow> nat \<Rightarrow> nat \<Rightarrow> sched \<Rightarrow> (errno option \<times> sched) option" where
  "lwp_suspend X P R T E curl t s =
    (let marked = upd_lwp t (\<lambda>v. v \<lparr> l_flag := l_flag v OR LW_WSUSPEND \<rparr>) s
     in if l_flag (rq_lwps s curl) AND (LW_WEXIT OR LW_WCORE) \<noteq> 0 then Some (Some EDEADLK, s)
        else if l_flag (rq_lwps s t) AND LW_DBGSUSPEND \<noteq> 0 then Some (None, s)
        else case l_stat (rq_lwps s t) of
          LSRUN \<Rightarrow> Some (None, marked)
        | LSONPROC \<Rightarrow> Some (None, marked)
        | LSSLEEP \<Rightarrow>
            if l_flag (rq_lwps marked t) AND LW_SINTR \<noteq> 0 then map_option (Pair None) (setrunnable X P R T E t marked)
            else Some (None, marked)
        | LSSUSPENDED \<Rightarrow> Some (None, s)
        | LSSTOP \<Rightarrow> map_option (Pair None) (setrunnable X P R T E t marked)
        | LSIDL \<Rightarrow> Some (Some EINTR, s)
        | LSZOMB \<Rightarrow> Some (Some EINTR, s))"

definition lwp_continue :: "synch_ops \<Rightarrow> platform \<Rightarrow> runq_conf \<Rightarrow> cpu_topology \<Rightarrow> sched_env \<Rightarrow> nat \<Rightarrow> sched \<Rightarrow> sched option" where
  "lwp_continue X P R T E n s =
    (if l_flag (rq_lwps s n) AND LW_WREBOOT \<noteq> 0 then Some s
     else
       let s = upd_lwp n (\<lambda>v. v \<lparr> l_flag := l_flag v AND NOT LW_WSUSPEND \<rparr>) s
       in if l_stat (rq_lwps s n) \<noteq> LSSUSPENDED \<or> l_flag (rq_lwps s n) AND LW_DBGSUSPEND \<noteq> 0 then Some s
          else setrunnable X P R T E n s)"

definition lwp_unstop :: "synch_ops \<Rightarrow> platform \<Rightarrow> runq_conf \<Rightarrow> cpu_topology \<Rightarrow> sched_env \<Rightarrow> nat \<Rightarrow> sched \<Rightarrow> sched option" where
  "lwp_unstop X P R T E n s =
    (let l = rq_lwps s n; pid = l_pid l; p = rq_procs s pid
     in if l_stat l \<noteq> LSSTOP then Some s
        else
          let s = upd_proc pid (\<lambda>p. p \<lparr> p_sstop := False, p_stopping := False \<rparr>) s;
              s = (if \<not> p_waited p then upd_proc (p_pptr p) (\<lambda>q. q \<lparr> p_nstopchild := p_nstopchild q - 1 \<rparr>) s else s)
          in if \<not> l_wchan l then setrunnable X P R T E n s
             else if p_xsig p \<noteq> 0 \<and> l_flag l AND LW_SINTR \<noteq> 0 then setrunnable X P R T E n s
             else Some (upd_proc pid (\<lambda>p. p \<lparr> p_nrlwps := p_nrlwps p + 1 \<rparr>) (upd_lwp n (\<lambda>v. v \<lparr> l_stat := LSSLEEP \<rparr>) s)))"

definition lwp_start :: "synch_ops \<Rightarrow> platform \<Rightarrow> runq_conf \<Rightarrow> cpu_topology \<Rightarrow> sched_env \<Rightarrow> nat \<Rightarrow> bool \<Rightarrow> sched \<Rightarrow> sched option" where
  "lwp_start X P R T E n suspended s =
    (let pid = l_pid (rq_lwps s n); p = rq_procs s pid;
         s = (if suspended then upd_lwp n (\<lambda>v. v \<lparr> l_flag := l_flag v OR LW_WSUSPEND \<rparr>) s else s)
     in if p_sstop p \<or> p_stopping p
        then Some (upd_proc pid (\<lambda>p. p \<lparr> p_nrlwps := p_nrlwps p - 1 \<rparr>) (upd_lwp n (\<lambda>v. v \<lparr> l_stat := LSSTOP \<rparr>) s))
        else setrunnable X P R T E n s)"

text \<open>Migration of a thread on request.\<close>

definition lwp_migrate :: "synch_ops \<Rightarrow> runq_conf \<Rightarrow> sched_env \<Rightarrow> nat \<Rightarrow> nat \<Rightarrow> sched \<Rightarrow> sched" where
  "lwp_migrate X R E n tci s =
    (let l = rq_lwps s n; lstat = (if l_pflag l AND LP_RUNNING \<noteq> 0 then LSONPROC else l_stat l)
     in if l_target_cpu l \<noteq> None then set_target n tci s
        else if l_cpu l = tci then s
        else case lstat of
          LSRUN \<Rightarrow> set_target n tci s
        | LSONPROC \<Rightarrow> sched_resched_cpu R E (l_cpu l) (PRI_USER_RT X) (set_target n tci s)
        | LSZOMB \<Rightarrow> s
        | _ \<Rightarrow> upd_lwp n (\<lambda>v. v \<lparr> l_cpu := tci \<rparr>) s)"

section \<open>The invariant\<close>

definition pri_ok :: "runq_conf \<Rightarrow> lwp \<Rightarrow> bool" where
  "pri_ok R v \<longleftrightarrow> 0 \<le> l_priority v \<and> l_priority v < int (PRI_COUNT R) \<and> l_auxprio v < int (PRI_COUNT R) \<and>
    (l_priority v \<le> MAXPRI_USER R \<and> l_boostpri v > MAXPRI_USER R \<longrightarrow> 0 \<le> drop_bit 1 (l_priority v) + l_boostpri v \<and>
      drop_bit 1 (l_priority v) + l_boostpri v < int (PRI_COUNT R))"

text \<open>
  A thread waits in a run queue exactly if it is runnable, the queues are in order, and all
  priorities are in range.
\<close>

definition sched_inv :: "runq_conf \<Rightarrow> sched \<Rightarrow> bool" where
  "sched_inv R s \<longleftrightarrow> rq_ok R s \<and> (\<forall>n. rq_queued R s n \<longleftrightarrow> l_stat (rq_lwps s n) = LSRUN) \<and>
    (\<forall>n. pri_ok R (rq_lwps s n)) \<and> (\<forall>k. spc_curpriority (rq_spc s k) < int (PRI_COUNT R))"

text \<open>
  What the code relies on of the configuration: \<^verbatim>\<open>PRI_NONE\<close> and \<^verbatim>\<open>PRI_IDLE\<close> lie below the user
  range's top and the number of priorities, and waking a thread leaves it a valid priority.
\<close>

definition sched_conf_ok :: "runq_conf \<Rightarrow> bool" where
  "sched_conf_ok R \<longleftrightarrow> runq_hooks_ok R \<and> PRI_NONE R \<le> MAXPRI_USER R \<and> PRI_IDLE R < int (PRI_COUNT R) \<and>
    (\<forall>v. pri_ok R v \<longrightarrow> pri_ok R (sched_setrunnable R v) \<and> l_cpu (sched_setrunnable R v) = l_cpu v)"

text \<open>
  And of the sleep queues: waking a sleeping thread through them keeps the scheduler's invariant,
  and a broadcast changes sleeping threads only.
\<close>

definition synch_ok :: "runq_conf \<Rightarrow> synch_ops \<Rightarrow> bool" where
  "synch_ok R X \<longleftrightarrow>
    (\<forall>n s. sched_inv R s \<and> l_stat (rq_lwps s n) = LSSLEEP \<and> l_wchan (rq_lwps s n) \<longrightarrow> sched_inv R (lwp_unsleep X n s)) \<and>
    (\<forall>p s. sched_inv R s \<longrightarrow> sched_inv R (cv_broadcast_lwpcv X p s) \<and>
      (\<forall>n. l_stat (rq_lwps s n) \<noteq> LSSLEEP \<longrightarrow> rq_lwps (cv_broadcast_lwpcv X p s) n = rq_lwps s n)) \<and>
    (\<forall>v. lwp_place (signotify X v) = lwp_place v \<and> l_stat (signotify X v) = l_stat v \<and> l_wchan (signotify X v) = l_wchan v)"

subsection \<open>Steps that keep it\<close>

lemma pri_ok_prio: "pri_ok R v \<Longrightarrow> prio_ok R v"
proof -
  define b where "b = drop_bit 1 (l_priority v) + l_boostpri v"
  show "pri_ok R v \<Longrightarrow> prio_ok R v" unfolding pri_ok_def prio_ok_def lwp_eprio_def Let_def b_def [symmetric] by auto
qed

lemma pri_ok_cong: "lwp_pris v' = lwp_pris v \<Longrightarrow> pri_ok R v' = pri_ok R v"
  by (simp add: pri_ok_def lwp_pris_def)

lemma sched_invD:
  assumes "sched_inv R s"
  shows "rq_ok R s" "rq_queued R s n \<longleftrightarrow> l_stat (rq_lwps s n) = LSRUN" "pri_ok R (rq_lwps s n)" "prio_ok R (rq_lwps s n)"
    "spc_curpriority (rq_spc s k) < int (PRI_COUNT R)"
  using assms pri_ok_prio by (auto simp: sched_inv_def)

lemma conserves_inv: "sched_inv R s \<Longrightarrow> conserves R s s' \<Longrightarrow> sched_inv R s'"
  using pri_ok_cong unfolding sched_inv_def conserves_def by metis

lemma flag_other_bits:
  fixes a c d :: u32
  assumes "c AND d = 0"
  shows "(a OR c) AND d = a AND d" "(a AND NOT c) AND d = a AND d"
proof -
  have "\<not> (bit c n \<and> bit d n)" for n using bit_and_iff [of c d n] unfolding assms by simp
  then show "(a OR c) AND d = a AND d" "(a AND NOT c) AND d = a AND d"
    by (auto intro!: bit_eqI simp: bit_simps)
qed

lemma place_flags [simp]:
  "c AND LP_BOUND = 0 \<Longrightarrow> lwp_place (v \<lparr> l_pflag := l_pflag v OR c \<rparr>) = lwp_place v"
  "c AND LP_BOUND = 0 \<Longrightarrow> lwp_place (v \<lparr> l_pflag := l_pflag v AND NOT c \<rparr>) = lwp_place v"
  "lwp_place (v \<lparr> l_flag := f \<rparr>) = lwp_place v"
  by (simp_all add: lwp_place_def lwp_unbound_def flag_other_bits) (simp_all add: lwp_pris_def)

lemmas place_clear [simp] = place_flags(2) [of LP_RUNNING, simplified] place_flags(2) [of LP_PREEMPTING, simplified]
  place_flags(2) [of LP_TELEPORT, simplified]

lemma inv_upd_place:
  assumes "sched_inv R s" "\<And>v. lwp_place (f v) = lwp_place v" "\<And>v. l_stat (f v) = l_stat v"
  shows "sched_inv R (upd_lwp n f s)"
  using conserves_inv [OF assms(1) upd_place_conserves [OF sched_invD(1) [OF assms(1)] assms(2,3)]] .

text \<open>A thread that is not runnable may be changed freely, as long as its priorities stay valid.\<close>

lemma inv_upd:
  assumes i: "sched_inv R s" and n: "l_stat (rq_lwps s n) \<noteq> LSRUN" "l_stat (f (rq_lwps s n)) \<noteq> LSRUN" "pri_ok R (f (rq_lwps s n))"
  shows "sched_inv R (upd_lwp n f s)"
proof -
  have q: "\<not> rq_queued R s n" using i n(1) by (simp add: sched_inv_def)
  note u = rq_upd_ok [OF sched_invD(1) [OF i] q, of f]
  have "rq_queued R (upd_lwp n f s) m \<longleftrightarrow> l_stat (rq_lwps (upd_lwp n f s) m) = LSRUN" for m
    unfolding u(2) sched_invD(2) [OF i] using n by (auto simp: upd_lwp_def)
  moreover have "pri_ok R (rq_lwps (upd_lwp n f s) m)" for m using sched_invD(3) [OF i, of m] n(3) by (simp add: upd_lwp_def)
  moreover have "spc_curpriority (rq_spc (upd_lwp n f s) k) < int (PRI_COUNT R)" for k using sched_invD(5) [OF i] by (simp add: upd_lwp_def)
  ultimately show ?thesis unfolding sched_inv_def using u(1) by blast
qed

text \<open>A thread that becomes runnable is put into a run queue.\<close>

lemma inv_enter:
  assumes h: "runq_hooks_ok R" and i: "sched_inv R s" and n: "l_stat (rq_lwps s n) \<noteq> LSRUN" "l_stat (f (rq_lwps s n)) = LSRUN" "pri_ok R (f (rq_lwps s n))"
  shows "sched_inv R (sched_enqueue P R now t n (upd_lwp n f s))"
proof -
  let ?u = "upd_lwp n f s" and ?e = "sched_enqueue P R now t n (upd_lwp n f s)"
  have q: "\<not> rq_queued R s n" using i n(1) by (simp add: sched_inv_def)
  have "n \<notin> {l. rq_queued R s l}" using q by simp
  note e = rq.enter [of R s n f P now t, OF conjI [OF h sched_invD(1) [OF i]] this pri_ok_prio [OF n(3)]]
  have w: "rq_queued R ?e m \<longleftrightarrow> m = n \<or> rq_queued R s m" for m using e(2) by blast
  obtain v where v: "rq_lwps ?e = (rq_lwps ?u)(n := v)" "lwp_place v = lwp_place (rq_lwps ?u n)" "l_stat v = l_stat (rq_lwps ?u n)"
    using sched_enqueue_lwps [OF h] by blast
  have "rq_queued R ?e m \<longleftrightarrow> l_stat (rq_lwps ?e m) = LSRUN" for m
    unfolding w v(1) sched_invD(2) [OF i] using v(3) n(2) by (auto simp: upd_lwp_def)
  moreover have "pri_ok R (rq_lwps ?e m)" for m
    unfolding v(1) using sched_invD(3) [OF i, of m] n(3) pri_ok_cong [OF place_eq(4) [OF v(2)], of R] by (simp add: upd_lwp_def)
  moreover have "spc_curpriority (rq_spc ?e k) < int (PRI_COUNT R)" for k
    unfolding enqueue_curpriority using sched_invD(5) [OF i] by (simp add: upd_lwp_def)
  ultimately show ?thesis unfolding sched_inv_def using e(1) by blast
qed

text \<open>A runnable thread changes its priority by leaving and entering its queue.\<close>

lemma inv_requeue:
  assumes h: "runq_hooks_ok R" and i: "sched_inv R s" and n: "l_stat (rq_lwps s n) = LSRUN" "l_stat (f (rq_lwps s n)) = LSRUN" "pri_ok R (f (rq_lwps s n))"
  shows "sched_inv R (sched_enqueue P R now t n (upd_lwp n f (sched_dequeue P R n s)))"
proof -
  let ?u = "upd_lwp n f (sched_dequeue P R n s)" and ?e = "sched_enqueue P R now t n (upd_lwp n f (sched_dequeue P R n s))"
  have "n \<in> {l. rq_queued R s l}" using i n(1) by (simp add: sched_inv_def)
  note e = rq.requeue(1,2) [of R s n f P now t, OF conjI [OF h sched_invD(1) [OF i]] this pri_ok_prio [OF n(3)]]
  have w: "rq_queued R ?e m \<longleftrightarrow> rq_queued R s m" for m using e(2) by blast
  have d: "rq_lwps (sched_dequeue P R n s) = rq_lwps s" by (simp add: sched_dequeue_def Let_def)
  obtain v where v: "rq_lwps ?e = (rq_lwps ?u)(n := v)" "lwp_place v = lwp_place (rq_lwps ?u n)" "l_stat v = l_stat (rq_lwps ?u n)"
    using sched_enqueue_lwps [OF h] by blast
  have u: "rq_lwps ?u m = (if m = n then f (rq_lwps s n) else rq_lwps s m)" for m by (simp add: upd_lwp_def d)
  have "rq_queued R ?e m \<longleftrightarrow> l_stat (rq_lwps ?e m) = LSRUN" for m
    unfolding w v(1) sched_invD(2) [OF i] using v(3) n(1,2) by (auto simp: u)
  moreover have "pri_ok R (rq_lwps ?e m)" for m
    unfolding v(1) using sched_invD(3) [OF i, of m] n(3) pri_ok_cong [OF place_eq(4) [OF v(2)], of R] by (simp add: u)
  moreover have "spc_curpriority (rq_spc ?e k) < int (PRI_COUNT R)" for k
    unfolding enqueue_curpriority using sched_invD(5) [OF i, of k] enqueue_curpriority(2) [of P R n s k] by (simp add: upd_lwp_def)
  ultimately show ?thesis unfolding sched_inv_def using e(1) by blast
qed

subsection \<open>Choosing a CPU moves no thread\<close>

definition same_place :: "sched \<Rightarrow> sched \<Rightarrow> bool" where
  "same_place s s' \<longleftrightarrow> (\<forall>n. lwp_place (rq_lwps s' n) = lwp_place (rq_lwps s n) \<and> l_stat (rq_lwps s' n) = l_stat (rq_lwps s n)) \<and>
    (\<forall>k. \<exists>p. rq_spc s' k = (rq_spc s k) \<lparr> spc_nextpkg := p \<rparr>)"

lemma same_place_trans: "same_place s s' \<Longrightarrow> same_place s' s'' \<Longrightarrow> same_place s s''"
proof -
  assume a: "same_place s s'" "same_place s' s''"
  have "\<exists>p. rq_spc s'' k = (rq_spc s k) \<lparr> spc_nextpkg := p \<rparr>" for k
  proof -
    obtain p q where "rq_spc s' k = (rq_spc s k) \<lparr> spc_nextpkg := p \<rparr>" "rq_spc s'' k = (rq_spc s' k) \<lparr> spc_nextpkg := q \<rparr>"
      using a unfolding same_place_def by blast
    then have "rq_spc s'' k = (rq_spc s k) \<lparr> spc_nextpkg := q \<rparr>" by simp
    then show ?thesis by blast
  qed
  then show ?thesis using a unfolding same_place_def by simp
qed

lemma same_spc: "\<exists>p. (spc :: schedstate_percpu) = spc \<lparr> spc_nextpkg := p \<rparr>"
  by (intro exI [of _ "spc_nextpkg spc"]) simp

lemma same_place_lp: "lp_only s s' \<Longrightarrow> same_place s s'"
  using lp_onlyD(1,2) [of s s'] same_spc by (simp add: same_place_def)

lemma same_place_refl: "same_place s s"
  using same_place_lp lp_only_refl by blast

lemma same_place_upd:
  assumes "\<And>v. lwp_place (f v) = lwp_place v" "\<And>v. l_stat (f v) = l_stat v"
  shows "same_place s (upd_lwp n f s)"
  using assms same_spc by (simp add: same_place_def upd_lwp_def)

lemma same_place_nextpkg: "same_place s (snd (sched_nextpkg T E s))"
proof -
  have "\<exists>p. rq_spc (snd (sched_nextpkg T E s)) k = (rq_spc s k) \<lparr> spc_nextpkg := p \<rparr>" for k
  proof (cases "k = curcpu E")
    case True
    then have "rq_spc (snd (sched_nextpkg T E s)) k = (rq_spc s k) \<lparr> spc_nextpkg := fst (sched_nextpkg T E s) \<rparr>"
      by (simp add: sched_nextpkg_def Let_def upd_spc_def)
    then show ?thesis by blast
  next
    case False
    then have "rq_spc (snd (sched_nextpkg T E s)) k = rq_spc s k" by (simp add: sched_nextpkg_def Let_def upd_spc_def)
    then show ?thesis using same_spc by simp
  qed
  then show ?thesis by (simp add: same_place_def nextpkg_frame)
qed

lemma same_place_targets: "same_place s (set_target n c s)" "same_place s (clear_teleport n s)"
proof -
  show "same_place s (set_target n c s)" unfolding set_target_def by (rule same_place_upd) simp_all
  show "same_place s (clear_teleport n s)" unfolding clear_teleport_def by (rule same_place_upd) simp_all
qed

lemma same_place_conserves:
  assumes ok: "rq_ok R s" and p: "same_place s s'"
  shows "conserves R s s'"
proof -
  have L: "lwp_place (rq_lwps s' n) = lwp_place (rq_lwps s n)" "l_stat (rq_lwps s' n) = l_stat (rq_lwps s n)" for n
    using p by (auto simp: same_place_def)
  have S: "\<exists>p. rq_spc s' k = (rq_spc s k) \<lparr> spc_nextpkg := p \<rparr>" for k using p by (simp add: same_place_def)
  have o: "rq_order R (rq_spc s' k) = rq_order R (rq_spc s k)" for k using S [of k] by auto
  have "spc_ok R (rq_lwps s) k (rq_spc s' k)" for k using rq_okD [OF ok, of k] S [of k] unfolding spc_ok_def by auto
  then have "spc_ok R (rq_lwps s') k (rq_spc s' k)" for k by (rule spc_ok_cong [rotated]) (simp add: L)
  moreover have "rq_queued R s' n = rq_queued R s n" for n
    by (simp add: rq_queued_def rq_list_def o place_eq(2) [OF L(1) [of n]])
  moreover have "spc_curpriority (rq_spc s' k) = spc_curpriority (rq_spc s k)" for k using S [of k] by auto
  ultimately show ?thesis unfolding conserves_def rq_ok_def using L(2) place_eq(4) [OF L(1)] by simp
qed

lemma same_place_takecpu: "same_place s (snd (sched_takecpu P R T E n s))"
proof -
  let ?l = "rq_lwps s n"
  obtain ex s1 where e: "(if lpsched_packing (rq_lp s) then lpsched_exempt P E ?l s else (True, s)) = (ex, s1)" by fastforce
  have s1: "same_place s s1" using e same_place_lp [OF exempt_lp_only [of s P E ?l]] same_place_refl by (auto split: if_splits)
  obtain tci s2 where t: "(if ex then (None, s1) else lpsched_pack_pick P R T E ?l (l_cpu ?l) s1) = (tci, s2)" by fastforce
  have "lp_only s1 s2" using t pack_pick_spec [of s1 P R T E ?l "l_cpu ?l"] by (auto split: if_splits)
  then have s2: "same_place s s2" using s1 same_place_trans same_place_lp by blast
  have "same_place s (snd (takecpu_place P R T E ?l s2))"
    using s2 same_place_trans [OF s2 same_place_nextpkg [of s2 T E]] by (auto simp: takecpu_place_def Let_def split: prod.split)
  then show ?thesis using s2 same_place_refl by (auto simp: sched_takecpu_def Let_def e t split: option.split)
qed

lemma same_place_preempted: "same_place s (sched_preempted P R T E n s)"
proof -
  let ?l = "rq_lwps s n" let ?c = "clear_teleport n s" let ?q = "snd (sched_nextpkg T E (clear_teleport n s))"
  have c: "same_place s ?q" by (rule same_place_trans [OF same_place_targets(2) same_place_nextpkg])
  define cond where "cond tci \<longleftrightarrow> lpsched_packing (rq_lp s) \<and> \<not> lpsched_same_core T (l_cpu ?l) tci \<and> lpsched_is_packed T (l_cpu ?l) s" for tci
  have h: "same_place s (snd (if cond tci then let (exempt, s) = lpsched_exempt P E ?l s in (\<not> exempt, s) else (False, s)))" for tci
    using same_place_lp [OF exempt_lp_only [of s P E ?l]] same_place_refl by (auto split: prod.split)
  have tail: "same_place s (let (held, s) = (if cond tci then let (exempt, s) = lpsched_exempt P E ?l s in (\<not> exempt, s) else (False, s))
      in if held then stat_at P E LPSCHED_ST_PACK_HELD s else set_target n tci s)" for tci
    using h [of tci] same_place_trans [OF h [of tci] same_place_lp [OF lp_only_upd(2)]] same_place_trans [OF h [of tci] same_place_targets(1)]
    by (auto simp: Let_def split: prod.splits)
  have a: "same_place s (clear_teleport n (set_target n tci s))" for tci by (rule same_place_trans [OF same_place_targets(1) same_place_targets(2)])
  have b: "same_place s (let s = clear_teleport n s; (pkg, s) = sched_nextpkg T E s; tci = sched_bestcpu R T s (rq_lwps s n) pkg
              in if tci \<noteq> l_cpu ?l then set_target n tci s else s)"
    using c same_place_trans [OF c same_place_targets(1)] by (auto simp: Let_def split: prod.split)
  show ?thesis unfolding sched_preempted_def Let_def [of ?l] Let_def [of "l_cpu ?l"] cond_def [symmetric]
    using a b tail same_place_refl by (simp add: Let_def split: option.split)
qed

subsection \<open>Context switches\<close>

lemma inv_cong: "rq_lwps s' = rq_lwps s \<Longrightarrow> rq_spc s' = rq_spc s \<Longrightarrow> sched_inv R s \<Longrightarrow> sched_inv R s'"
  by (simp add: sched_inv_def rq_ok_def rq_queued_def rq_list_def)

lemma inv_leave:
  assumes i: "sched_inv R s" and n: "l_stat (rq_lwps s n) = LSRUN" "l_stat (f (rq_lwps s n)) \<noteq> LSRUN" "pri_ok R (f (rq_lwps s n))"
  shows "sched_inv R (upd_lwp n f (sched_dequeue P R n s))"
proof -
  let ?d = "sched_dequeue P R n s" and ?u = "upd_lwp n f (sched_dequeue P R n s)"
  have q: "rq_queued R s n" using sched_invD(2) [OF i] n(1) by simp
  note d = sched_dequeue_ok [OF sched_invD(1) [OF i] q, of P] rq_queued_dequeue [OF sched_invD(1) [OF i] q, of P]
  have "\<not> rq_queued R ?d n" using d(2) by simp
  note u = rq_upd_ok [OF d(1) this, of f]
  have L: "rq_lwps ?u m = (if m = n then f (rq_lwps s n) else rq_lwps s m)" for m by (simp add: upd_lwp_def sched_dequeue_def Let_def)
  have "rq_queued R ?u m \<longleftrightarrow> l_stat (rq_lwps ?u m) = LSRUN" for m
    unfolding u(2) d(2) L sched_invD(2) [OF i] using n(2) by simp
  moreover have "pri_ok R (rq_lwps ?u m)" for m unfolding L using sched_invD(3) [OF i] n(3) by simp
  moreover have "spc_curpriority (rq_spc ?u k) < int (PRI_COUNT R)" for k
    using sched_invD(5) [OF i, of k] enqueue_curpriority(2) [of P R n s k] by (simp add: upd_lwp_def)
  ultimately show ?thesis unfolding sched_inv_def using u(1) by blast
qed

lemma inv_curpriority:
  assumes i: "sched_inv R s" and "c < int (PRI_COUNT R)"
  shows "sched_inv R (upd_spc k (\<lambda>spc. spc \<lparr> spc_curpriority := c, spc_switchclear := a, spc_idle := b \<rparr>) s)"
proof -
  have o: "rq_order R (spc \<lparr> spc_curpriority := c, spc_switchclear := a, spc_idle := b \<rparr>) = rq_order R spc" for spc by (simp add: rq_order_def)
  have "spc_ok R L j (spc \<lparr> spc_curpriority := c, spc_switchclear := a, spc_idle := b \<rparr>)" if "spc_ok R L j spc" for L j spc
    using that unfolding spc_ok_def o by simp
  then have "rq_ok R (upd_spc k (\<lambda>spc. spc \<lparr> spc_curpriority := c, spc_switchclear := a, spc_idle := b \<rparr>) s)"
    using sched_invD(1) [OF i] by (simp add: rq_ok_def upd_spc_def)
  then show ?thesis using i assms(2) o unfolding sched_inv_def by (auto simp: rq_queued_def rq_list_def upd_spc_def)
qed

lemma nextlwp_inv:
  assumes R: "sched_conf_ok R" and i: "sched_inv R s"
  shows "sched_inv R (snd (nextlwp X P R E s))"
proof -
  have h: "runq_hooks_ok R" using R by (simp add: sched_conf_ok_def)
  note ok = sched_invD(1) [OF i]
  let ?ci = "curcpu E"
  obtain n s1 where n: "sched_nextlwp P R (se_now E) (se_ticks E) ?ci (curlwp E) s = (n, s1)" by fastforce
  note fr = sched_nextlwp_frame [OF h, of P "se_now E" "se_ticks E" ?ci "curlwp E" s, unfolded n snd_conv]
  have i1: "sched_inv R s1" by (rule conserves_inv [OF i conserves_frame [OF ok]]) (simp_all add: fr)
  define fin where "fin s' = (if cpu_softints X ?ci = 0 then s' \<lparr> ci_want_resched := (ci_want_resched s')(?ci := 0) \<rparr> else s')" for s' :: sched
  have fin: "sched_inv R (fin s')" if "sched_inv R s'" for s' using that inv_cong [of "fin s'" s' R] by (simp add: fin_def)
  show ?thesis
  proof (cases n)
    case None
    define s2 where "s2 = upd_lwp (cpu_idlelwp X ?ci) (\<lambda>v. v \<lparr> l_pflag := l_pflag v OR LP_RUNNING \<rparr>) s1"
    have "sched_inv R s2" unfolding s2_def by (rule inv_upd_place [OF i1]) simp_all
    then have "sched_inv R (upd_spc ?ci (\<lambda>spc. spc \<lparr> spc_curpriority := PRI_IDLE R, spc_switchclear := False, spc_idle := True \<rparr>) s2)"
      using R by (intro inv_curpriority) (auto simp: sched_conf_ok_def)
    from fin [OF this] show ?thesis by (simp add: nextlwp_def Let_def n None fin_def s2_def)
  next
    case (Some l)
    define f :: "lwp \<Rightarrow> lwp" where "f = (\<lambda>v. v \<lparr> l_stat := LSONPROC, l_pflag := l_pflag v OR LP_RUNNING, l_boostpri := PRI_NONE R \<rparr>)"
    define s2 where "s2 = upd_lwp l f (sched_dequeue P R l s1)"
    have "l \<in> set (rq_list R ?ci s)" using sched_nextlwp_result [OF ok, of P "se_now E" "se_ticks E" ?ci "curlwp E"] Some n by (auto split: if_splits)
    then have "rq_queued R s l" using rq_queued_iff [OF ok] by blast
    then have "l_stat (rq_lwps s1 l) = LSRUN"
      using sched_invD(2) [OF i] sched_nextlwp_frame(2) [OF h, of P "se_now E" "se_ticks E" ?ci "curlwp E" s l] by (simp add: n)
    moreover have "pri_ok R (f (rq_lwps s1 l))" using sched_invD(3) [OF i1, of l] R by (auto simp: pri_ok_def f_def sched_conf_ok_def)
    ultimately have i2: "sched_inv R s2" unfolding s2_def by (intro inv_leave [OF i1]) (simp_all add: f_def)
    have "eprio R (rq_lwps s2 l) < int (PRI_COUNT R)" using sched_invD(4) [OF i2] by (simp add: prio_ok_def)
    from fin [OF inv_curpriority [OF i2 this]] show ?thesis
      by (simp add: nextlwp_def Let_def n Some fin_def s2_def f_def)
  qed
qed

lemma mark_migrating_inv:
  assumes i: "sched_inv R s" and l: "l \<in> set (rq_list R k s)"
  shows "sched_inv R (upd_spc k (\<lambda>spc. spc \<lparr> spc_migrating := Some l \<rparr>) s)"
proof -
  let ?s = "upd_spc k (\<lambda>spc. spc \<lparr> spc_migrating := Some l \<rparr>) s"
  have o: "rq_order R (rq_spc ?s j) = rq_order R (rq_spc s j)" for j by (simp add: upd_spc_def)
  have "spc_ok R (rq_lwps s) k ((rq_spc s k) \<lparr> spc_migrating := Some l \<rparr>)"
    using rq_okD [OF sched_invD(1) [OF i], of k] l unfolding spc_ok_def rq_order_cong rq_list_def by simp
  then have "rq_ok R ?s" using rq_okD [OF sched_invD(1) [OF i]] by (simp add: rq_ok_def upd_spc_def)
  moreover have "rq_queued R ?s n = rq_queued R s n" for n unfolding rq_queued_def rq_list_def o by (simp add: upd_spc_def)
  ultimately show ?thesis using i unfolding sched_inv_def by (simp add: upd_spc_def)
qed

lemma mi_switch_yield_inv:
  assumes R: "sched_conf_ok R" and i: "sched_inv R s" and l: "l_stat (rq_lwps s (curlwp E)) \<noteq> LSRUN" "l_cpu (rq_lwps s (curlwp E)) = curcpu E"
  shows "sched_inv R (mi_switch_yield P R T E s)"
proof -
  have h: "runq_hooks_ok R" using R by (simp add: sched_conf_ok_def)
  let ?l = "curlwp E"
  define s1 where "s1 = sched_enqueue P R (se_now E) (se_ticks E) ?l (upd_lwp ?l (\<lambda>v. v \<lparr> l_stat := LSRUN \<rparr>) s)"
  have p: "pri_ok R ((rq_lwps s ?l) \<lparr> l_stat := LSRUN \<rparr>)" using sched_invD(3) [OF i, of ?l] by (simp add: pri_ok_def)
  have i1: "sched_inv R s1" unfolding s1_def by (rule inv_enter [OF h i l(1)]) (simp_all add: p)
  obtain v where v: "rq_lwps s1 = (rq_lwps (upd_lwp ?l (\<lambda>v. v \<lparr> l_stat := LSRUN \<rparr>) s))(?l := v)" "lwp_place v = lwp_place ((rq_lwps s ?l) \<lparr> l_stat := LSRUN \<rparr>)"
    "l_stat v = LSRUN" using sched_enqueue_lwps [OF h, of P "se_now E" "se_ticks E" ?l "upd_lwp ?l (\<lambda>v. v \<lparr> l_stat := LSRUN \<rparr>) s"] unfolding s1_def by (auto simp: upd_lwp_def)
  define s2 where "s2 = sched_preempted P R T E ?l s1"
  have sp: "same_place s1 s2" unfolding s2_def by (rule same_place_preempted)
  have i2: "sched_inv R s2" using conserves_inv [OF i1 same_place_conserves [OF sched_invD(1) [OF i1] sp]] .
  have "l_stat (rq_lwps s2 ?l) = LSRUN" "l_cpu (rq_lwps s2 ?l) = curcpu E"
    using sp v place_eq(2) [of "rq_lwps s2 ?l" "rq_lwps s1 ?l"] place_eq(2) [OF v(2)] l(2) by (auto simp: same_place_def)
  then have "?l \<in> set (rq_list R (curcpu E) s2)" using sched_invD(2) [OF i2, of ?l] by (simp add: rq_queued_def)
  from mark_migrating_inv [OF i2 this] show ?thesis
    using i2 by (simp add: mi_switch_yield_def Let_def s1_def [symmetric] s2_def [symmetric])
qed

lemma mi_switch_inv:
  assumes R: "sched_conf_ok R" and i: "sched_inv R s" and l: "l_stat (rq_lwps s (curlwp E)) \<noteq> LSRUN" "l_cpu (rq_lwps s (curlwp E)) = curcpu E"
  shows "sched_inv R (snd (mi_switch X P R T E s))"
proof -
  let ?l = "curlwp E"
  define to where "to = l_switchto (rq_lwps s ?l)"
  define s1 where "s1 = (if to \<noteq> None then upd_lwp ?l (\<lambda>v. v \<lparr> l_switchto := None \<rparr>) s else s)"
  have i1: "sched_inv R s1" unfolding s1_def using inv_upd_place [OF i, of "\<lambda>v. v \<lparr> l_switchto := None \<rparr>" ?l] i by simp
  have l1: "l_stat (rq_lwps s1 ?l) = l_stat (rq_lwps s ?l)" "l_cpu (rq_lwps s1 ?l) = l_cpu (rq_lwps s ?l)" by (simp_all add: s1_def upd_lwp_def)
  define s2 where "s2 = (if l_stat (rq_lwps s1 ?l) = LSONPROC \<and> Some ?l \<noteq> to then mi_switch_yield P R T E s1 else s1)"
  have i2: "sched_inv R s2" unfolding s2_def using mi_switch_yield_inv [OF R i1] l l1 i1 by simp
  obtain newl s3 where n: "(case to of Some newl \<Rightarrow> (newl, s2) | None \<Rightarrow> nextlwp X P R E s2) = (newl, s3)" by fastforce
  have i3: "sched_inv R s3" using n nextlwp_inv [OF R i2, of X P E] i2 by (auto split: option.splits)
  define ret where "ret \<longleftrightarrow> to \<noteq> None \<and> l_pflag (rq_lwps s ?l) AND LP_INTR \<noteq> 0"
  define s4 where "s4 = (if ret then s3 else s3 \<lparr> ci_onproc := (ci_onproc s3)(curcpu E := newl) \<rparr>)"
  have i4: "sched_inv R s4" using i3 inv_cong [of s4 s3 R] by (simp add: s4_def)
  define s5 where "s5 = upd_lwp ?l (\<lambda>v. v \<lparr> l_pflag := l_pflag v AND NOT LP_PREEMPTING \<rparr>) (upd_lwp ?l (\<lambda>v. v \<lparr> l_dopreempt := 0 \<rparr>) s4)"
  have "sched_inv R (upd_lwp ?l (\<lambda>v. v \<lparr> l_dopreempt := 0 \<rparr>) s4)" by (rule inv_upd_place [OF i4]) simp_all
  then have i5: "sched_inv R s5" unfolding s5_def by (rule inv_upd_place) simp_all
  have i6: "sched_inv R (upd_lwp ?l (\<lambda>v. v \<lparr> l_pflag := l_pflag v AND NOT LP_RUNNING \<rparr>) s5)" by (rule inv_upd_place [OF i5]) simp_all
  have "snd (mi_switch X P R T E s) = (if ?l \<noteq> newl then upd_lwp ?l (\<lambda>v. v \<lparr> l_pflag := l_pflag v AND NOT LP_RUNNING \<rparr>) s5 else s5)"
    unfolding mi_switch_def Let_def to_def [symmetric] s1_def [symmetric] s2_def [symmetric] n prod.case ret_def [symmetric] s4_def [symmetric] s5_def [symmetric] snd_conv
    by (rule refl)
  then show ?thesis using i5 i6 by simp
qed

subsection \<open>Waking and priority changes\<close>

lemma resched_inv: "sched_inv R s \<Longrightarrow> sched_inv R (sched_resched_cpu R E ci pri s)"
  using conserves_inv resched_conserves sched_invD(1) by blast

lemma setrunnable_place_inv:
  assumes R: "sched_conf_ok R" and i: "sched_inv R s" and n: "l_stat (rq_lwps s n) \<noteq> LSRUN"
  shows "sched_inv R (setrunnable_place P R T E n s)"
proof -
  have h: "runq_hooks_ok R" using R by (simp add: sched_conf_ok_def)
  obtain ci s1 where c: "sched_takecpu P R T E n s = (ci, s1)" by fastforce
  have sp: "same_place s s1" using same_place_takecpu [of s P R T E n] by (simp add: c)
  have i1: "sched_inv R s1" using conserves_inv [OF i same_place_conserves [OF sched_invD(1) [OF i] sp]] .
  define f where "f = (\<lambda>v. (sched_setrunnable R (v \<lparr> l_cpu := ci \<rparr>)) \<lparr> l_stat := LSRUN, l_slptime := 0 \<rparr>)"
  have "pri_ok R ((rq_lwps s1 n) \<lparr> l_cpu := ci \<rparr>)" using sched_invD(3) [OF i1, of n] by (simp add: pri_ok_def)
  then have "pri_ok R (sched_setrunnable R ((rq_lwps s1 n) \<lparr> l_cpu := ci \<rparr>))" using R by (simp add: sched_conf_ok_def)
  then have "pri_ok R (f (rq_lwps s1 n))" by (simp add: f_def pri_ok_def)
  moreover have "l_stat (rq_lwps s1 n) \<noteq> LSRUN" using sp n by (simp add: same_place_def)
  ultimately have "sched_inv R (sched_enqueue P R (se_now E) (se_ticks E) n (upd_lwp n f s1))"
    by (intro inv_enter [OF h i1]) (simp_all add: f_def)
  from resched_inv [OF this] show ?thesis by (simp add: setrunnable_place_def c Let_def f_def sched_resched_lwp_def)
qed

lemma inv_upd_proc: "sched_inv R s \<Longrightarrow> sched_inv R (upd_proc pid f s)"
  by (rule inv_cong [rotated 2]) (simp_all add: upd_proc_def)

lemma setrunnable_stat_inv:
  assumes X: "synch_ok R X" and i: "sched_inv R s" and r: "setrunnable_stat X n s = Some s'"
  shows "sched_inv R s' \<and> l_stat (rq_lwps s' n) = l_stat (rq_lwps s n) \<and> l_stat (rq_lwps s n) \<noteq> LSRUN"
proof -
  let ?pid = "l_pid (rq_lwps s n)"
  have sig: "sched_inv R (upd_lwp n (signotify X) s)" using X by (intro inv_upd_place [OF i]) (auto simp: synch_ok_def)
  define s1 where "s1 = upd_lwp n (\<lambda>v. v \<lparr> l_flag := l_flag v AND NOT LW_WSUSPEND \<rparr>) s"
  define s2 where "s2 = upd_proc ?pid (\<lambda>p. p \<lparr> p_nrlwps := p_nrlwps p + 1 \<rparr>) s1"
  have i2: "sched_inv R s2" unfolding s2_def s1_def by (intro inv_upd_proc inv_upd_place [OF i]) simp_all
  have l2: "l_stat (rq_lwps s2 n) = l_stat (rq_lwps s n)" by (simp add: s2_def s1_def upd_proc_def upd_lwp_def)
  have cv: "sched_inv R (cv_broadcast_lwpcv X ?pid s2)"
    "l_stat (rq_lwps s2 n) \<noteq> LSSLEEP \<Longrightarrow> rq_lwps (cv_broadcast_lwpcv X ?pid s2) n = rq_lwps s2 n" using X i2 unfolding synch_ok_def by blast+
  show ?thesis
  proof (cases "l_stat (rq_lwps s n)")
    case LSSTOP
    have "l_stat (signotify X (rq_lwps s n)) = l_stat (rq_lwps s n)" using X by (simp add: synch_ok_def)
    then show ?thesis using r LSSTOP sig i inv_upd_proc by (auto simp: setrunnable_stat_def Let_def upd_proc_def [symmetric] split: if_splits) (simp_all add: upd_proc_def upd_lwp_def)
  next
    case LSSUSPENDED
    then have "s' = cv_broadcast_lwpcv X ?pid s2" using r by (simp add: setrunnable_stat_def Let_def s1_def s2_def)
    then show ?thesis using LSSUSPENDED cv l2 by simp
  qed (use r i in \<open>simp_all add: setrunnable_stat_def Let_def\<close>)
qed

lemma setrunnable_inv:
  assumes R: "sched_conf_ok R" and X: "synch_ok R X" and i: "sched_inv R s" and r: "setrunnable X P R T E n s = Some s'"
  shows "sched_inv R s'"
proof -
  obtain s1 where s1: "setrunnable_stat X n s = Some s1" using r by (auto simp: setrunnable_def split: option.splits)
  note k = setrunnable_stat_inv [OF X i s1]
  then have i1: "sched_inv R s1" and n: "l_stat (rq_lwps s1 n) \<noteq> LSRUN" by simp_all
  consider (sleep) "l_wchan (rq_lwps s1 n)" | (run) "\<not> l_wchan (rq_lwps s1 n)" "l_pflag (rq_lwps s1 n) AND LP_RUNNING \<noteq> 0"
    | (place) "\<not> l_wchan (rq_lwps s1 n)" "l_pflag (rq_lwps s1 n) AND LP_RUNNING = 0" by blast
  then show ?thesis
  proof cases
    case sleep
    define s2 where "s2 = upd_lwp n (\<lambda>v. v \<lparr> l_stat := LSSLEEP \<rparr>) s1"
    have "sched_inv R s2" unfolding s2_def using sched_invD(3) [OF i1, of n] by (intro inv_upd [OF i1 n]) (simp_all add: pri_ok_def)
    moreover have "l_stat (rq_lwps s2 n) = LSSLEEP" "l_wchan (rq_lwps s2 n)" using sleep by (simp_all add: s2_def upd_lwp_def)
    ultimately have "sched_inv R (lwp_unsleep X n s2)" using X unfolding synch_ok_def by blast
    then show ?thesis using r s1 sleep by (auto simp: setrunnable_def s2_def)
  next
    case run
    have "sched_inv R (upd_lwp n (\<lambda>v. v \<lparr> l_stat := LSONPROC, l_slptime := 0 \<rparr>) s1)"
      using sched_invD(3) [OF i1, of n] by (intro inv_upd [OF i1 n]) (simp_all add: pri_ok_def)
    then show ?thesis using r s1 run by (auto simp: setrunnable_def)
  next
    case place
    then show ?thesis using r s1 setrunnable_place_inv [OF R i1 n] by (auto simp: setrunnable_def)
  qed
qed

lemma setpri_inv:
  assumes R: "sched_conf_ok R" and i: "sched_inv R s" and f: "pri_ok R (f (rq_lwps s n))" "l_stat (f (rq_lwps s n)) = l_stat (rq_lwps s n)"
  shows "sched_inv R (sched_setpri P R E n f s)"
proof -
  have h: "runq_hooks_ok R" using R by (simp add: sched_conf_ok_def)
  show ?thesis
  proof (cases "l_stat (rq_lwps s n) = LSRUN")
    case True
    then show ?thesis using resched_inv [OF inv_requeue [OF h i True, of f P "se_now E" "se_ticks E"]] f
      by (simp add: sched_setpri_def Let_def sched_resched_lwp_def)
  next
    case False
    then have "sched_inv R (upd_lwp n f s)" using f by (intro inv_upd [OF i]) simp_all
    then show ?thesis using False resched_inv by (simp add: sched_setpri_def Let_def)
  qed
qed

lemma set_target_inv: "sched_inv R s \<Longrightarrow> sched_inv R (set_target n c s)"
  unfolding set_target_def by (rule inv_upd_place) simp_all

lemma inv_flag: "sched_inv R s \<Longrightarrow> sched_inv R (upd_lwp n (\<lambda>v. v \<lparr> l_flag := g v \<rparr>) s)"
  by (rule inv_upd_place) simp_all

lemma migrate_inv:
  assumes i: "sched_inv R s"
  shows "sched_inv R (lwp_migrate X R E n tci s)"
proof -
  have "sched_inv R (upd_lwp n (\<lambda>v. v \<lparr> l_cpu := tci \<rparr>) s)" if "l_stat (rq_lwps s n) \<noteq> LSRUN"
    using sched_invD(3) [OF i, of n] that by (intro inv_upd [OF i that]) (simp_all add: pri_ok_def)
  then show ?thesis using i set_target_inv [OF i] resched_inv [OF set_target_inv [OF i]]
    by (auto simp: lwp_migrate_def Let_def split: lwp_stat.split)
qed

lemma suspend_inv:
  assumes R: "sched_conf_ok R" and X: "synch_ok R X" and i: "sched_inv R s" and r: "lwp_suspend X P R T E curl t s = Some (e, s')"
  shows "sched_inv R s'"
proof -
  define m where "m = upd_lwp t (\<lambda>v. v \<lparr> l_flag := l_flag v OR LW_WSUSPEND \<rparr>) s"
  have im: "sched_inv R m" unfolding m_def by (rule inv_flag [OF i])
  show ?thesis using r i im setrunnable_inv [OF R X im, of P T E t s']
    by (auto simp: lwp_suspend_def Let_def m_def [symmetric] split: if_splits lwp_stat.splits)
qed

lemma continue_inv:
  assumes R: "sched_conf_ok R" and X: "synch_ok R X" and i: "sched_inv R s" and r: "lwp_continue X P R T E n s = Some s'"
  shows "sched_inv R s'"
proof -
  define m where "m = upd_lwp n (\<lambda>v. v \<lparr> l_flag := l_flag v AND NOT LW_WSUSPEND \<rparr>) s"
  have im: "sched_inv R m" unfolding m_def by (rule inv_flag [OF i])
  show ?thesis using r [unfolded lwp_continue_def Let_def, folded m_def] i im setrunnable_inv [OF R X im, of P T E n s']
    by (auto split: if_splits)
qed

lemma unstop_inv:
  assumes R: "sched_conf_ok R" and X: "synch_ok R X" and i: "sched_inv R s" and r: "lwp_unstop X P R T E n s = Some s'"
  shows "sched_inv R s'"
proof (cases "l_stat (rq_lwps s n) = LSSTOP")
  case True
  let ?pid = "l_pid (rq_lwps s n)" let ?p = "rq_procs s ?pid"
  define s1 where "s1 = upd_proc ?pid (\<lambda>p. p \<lparr> p_sstop := False, p_stopping := False \<rparr>) s"
  define s2 where "s2 = (if \<not> p_waited ?p then upd_proc (p_pptr ?p) (\<lambda>q. q \<lparr> p_nstopchild := p_nstopchild q - 1 \<rparr>) s1 else s1)"
  have i2: "sched_inv R s2" unfolding s2_def s1_def using inv_upd_proc i by simp
  have n2: "rq_lwps s2 = rq_lwps s" by (simp add: s2_def s1_def upd_proc_def)
  have "sched_inv R (upd_lwp n (\<lambda>v. v \<lparr> l_stat := LSSLEEP \<rparr>) s2)"
    using sched_invD(3) [OF i2, of n] True by (intro inv_upd [OF i2]) (simp_all add: n2 pri_ok_def)
  note i3 = inv_upd_proc [OF this, of ?pid "\<lambda>p. p \<lparr> p_nrlwps := p_nrlwps p + 1 \<rparr>"]
  show ?thesis using r True setrunnable_inv [OF R X i2, of P T E n s'] i3
    by (auto simp: lwp_unstop_def Let_def s1_def [symmetric] s2_def [symmetric] split: if_splits)
qed (use r i in \<open>simp add: lwp_unstop_def Let_def\<close>)

lemma start_inv:
  assumes R: "sched_conf_ok R" and X: "synch_ok R X" and i: "sched_inv R s" and n: "l_stat (rq_lwps s n) = LSIDL"
    and r: "lwp_start X P R T E n susp s = Some s'"
  shows "sched_inv R s'"
proof -
  let ?pid = "l_pid (rq_lwps s n)"
  define s1 where "s1 = (if susp then upd_lwp n (\<lambda>v. v \<lparr> l_flag := l_flag v OR LW_WSUSPEND \<rparr>) s else s)"
  have i1: "sched_inv R s1" unfolding s1_def using inv_flag [OF i] i by simp
  have n1: "l_stat (rq_lwps s1 n) = LSIDL" using n by (simp add: s1_def upd_lwp_def)
  have "sched_inv R (upd_lwp n (\<lambda>v. v \<lparr> l_stat := LSSTOP \<rparr>) s1)"
    using sched_invD(3) [OF i1, of n] n1 by (intro inv_upd [OF i1]) (simp_all add: pri_ok_def)
  note i2 = inv_upd_proc [OF this, of ?pid "\<lambda>p. p \<lparr> p_nrlwps := p_nrlwps p - 1 \<rparr>"]
  show ?thesis using r setrunnable_inv [OF R X i1, of P T E n s'] i2
    by (auto simp: lwp_start_def Let_def s1_def [symmetric] split: if_splits)
qed

section \<open>Every history of the scheduler\<close>

text \<open>
  The states the scheduler reaches from a state with empty run queues and no runnable thread, by
  any sequence of the operations above on any CPUs. \<open>park\<close> is what the sleep queues, exit and stop
  do to a thread that is not waiting in a run queue: they change its entry, but never make it
  runnable behind the scheduler's back.
\<close>

definition sched_start :: "runq_conf \<Rightarrow> sched \<Rightarrow> bool" where
  "sched_start R s \<longleftrightarrow> (\<forall>k. let spc = rq_spc s k in spc_queue spc = (\<lambda>_. []) \<and> spc_bitmap spc = (\<lambda>_. 0) \<and> spc_count spc = 0 \<and>
      spc_mcount spc = 0 \<and> spc_maxpriority spc = 0 \<and> spc_migrating spc = None \<and> spc_curpriority spc < int (PRI_COUNT R)) \<and>
    (\<forall>n. l_stat (rq_lwps s n) \<noteq> LSRUN \<and> pri_ok R (rq_lwps s n))"

inductive sched_reach :: "synch_ops \<Rightarrow> platform \<Rightarrow> runq_conf \<Rightarrow> cpu_topology \<Rightarrow> sched \<Rightarrow> bool"
  for X :: synch_ops and P :: platform and R :: runq_conf and T :: cpu_topology where
  boot: "sched_start R s \<Longrightarrow> sched_reach X P R T s"
| park: "sched_reach X P R T s \<Longrightarrow> l_stat (rq_lwps s n) \<noteq> LSRUN \<Longrightarrow> l_stat v \<noteq> LSRUN \<Longrightarrow> pri_ok R v \<Longrightarrow>
    sched_reach X P R T (upd_lwp n (\<lambda>_. v) s)"
| switch: "sched_reach X P R T s \<Longrightarrow> l_stat (rq_lwps s (curlwp E)) \<noteq> LSRUN \<Longrightarrow> l_cpu (rq_lwps s (curlwp E)) = curcpu E \<Longrightarrow>
    sched_reach X P R T (snd (mi_switch X P R T E s))"
| preempt: "sched_reach X P R T s \<Longrightarrow> l_stat (rq_lwps s (curlwp E)) \<noteq> LSRUN \<Longrightarrow> l_cpu (rq_lwps s (curlwp E)) = curcpu E \<Longrightarrow>
    sched_reach X P R T (snd (preempt X P R T E s))"
| vforkexec: "sched_reach X P R T s \<Longrightarrow> l_stat (rq_lwps s (curlwp E)) \<noteq> LSRUN \<Longrightarrow> l_cpu (rq_lwps s (curlwp E)) = curcpu E \<Longrightarrow>
    sched_reach X P R T (sched_vforkexec X P R T E ncpu samecpu s)"
| wake: "sched_reach X P R T s \<Longrightarrow> setrunnable X P R T E n s = Some s' \<Longrightarrow> sched_reach X P R T s'"
| changepri: "sched_reach X P R T s \<Longrightarrow> pri_ok R ((rq_lwps s n) \<lparr> l_priority := pri \<rparr>) \<Longrightarrow>
    sched_reach X P R T (lwp_changepri P R E n pri s)"
| lendpri: "sched_reach X P R T s \<Longrightarrow> max pri (l_protectprio (rq_lwps s n)) < int (PRI_COUNT R) \<Longrightarrow>
    sched_reach X P R T (sched_lendpri P R E n pri s)"
| migrate: "sched_reach X P R T s \<Longrightarrow> sched_reach X P R T (lwp_migrate X R E n tci s)"
| suspend: "sched_reach X P R T s \<Longrightarrow> lwp_suspend X P R T E curl n s = Some (e, s') \<Longrightarrow> sched_reach X P R T s'"
| continue: "sched_reach X P R T s \<Longrightarrow> lwp_continue X P R T E n s = Some s' \<Longrightarrow> sched_reach X P R T s'"
| unstop: "sched_reach X P R T s \<Longrightarrow> lwp_unstop X P R T E n s = Some s' \<Longrightarrow> sched_reach X P R T s'"
| create: "sched_reach X P R T s \<Longrightarrow> l_stat (rq_lwps s n) = LSIDL \<Longrightarrow> lwp_start X P R T E n susp s = Some s' \<Longrightarrow> sched_reach X P R T s'"
| idle: "sched_reach X P R T s \<Longrightarrow> sched_reach X P R T (sched_idle P R T E s)"

lemma start_sched_inv:
  assumes "sched_start R s"
  shows "sched_inv R s"
proof -
  have e: "rq_order R (rq_spc s k) = []" for k using assms by (simp add: sched_start_def Let_def rq_order_def)
  have "rq_ok R s" unfolding rq_ok_def spc_ok_def e using assms by (simp add: sched_start_def Let_def bitmap_has_def)
  then show ?thesis using assms by (simp add: sched_inv_def sched_start_def Let_def rq_queued_def rq_list_def e)
qed

lemma preempt_inv:
  assumes R: "sched_conf_ok R" and i: "sched_inv R s" and l: "l_stat (rq_lwps s (curlwp E)) \<noteq> LSRUN" "l_cpu (rq_lwps s (curlwp E)) = curcpu E"
  shows "sched_inv R (snd (preempt X P R T E s))"
proof -
  have "sched_inv R (upd_lwp (curlwp E) (\<lambda>v. v \<lparr> l_pflag := l_pflag v OR LP_PREEMPTING \<rparr>) s)" by (rule inv_upd_place [OF i]) simp_all
  then show ?thesis unfolding preempt_def using l by (intro mi_switch_inv [OF R]) (simp_all add: upd_lwp_def)
qed

lemma vforkexec_inv:
  assumes R: "sched_conf_ok R" and i: "sched_inv R s" and l: "l_stat (rq_lwps s (curlwp E)) \<noteq> LSRUN" "l_cpu (rq_lwps s (curlwp E)) = curcpu E"
  shows "sched_inv R (sched_vforkexec X P R T E ncpu samecpu s)"
proof -
  have "sched_inv R (upd_lwp (curlwp E) (\<lambda>v. v \<lparr> l_pflag := l_pflag v OR LP_TELEPORT \<rparr>) s)" by (rule inv_upd_place [OF i]) simp_all
  then have "sched_inv R (snd (preempt X P R T E (upd_lwp (curlwp E) (\<lambda>v. v \<lparr> l_pflag := l_pflag v OR LP_TELEPORT \<rparr>) s)))"
    using l by (intro preempt_inv [OF R]) (simp_all add: upd_lwp_def)
  then show ?thesis using i by (simp add: sched_vforkexec_def)
qed

lemma sched_reach_inv:
  assumes R: "sched_conf_ok R" and X: "synch_ok R X" and "sched_reach X P R T s"
  shows "sched_inv R s"
  using assms(3)
proof induction
  case (boot s)
  then show ?case by (rule start_sched_inv)
next
  case (park s n v)
  then show ?case by (intro inv_upd) simp_all
next
  case (switch s E)
  then show ?case by (intro mi_switch_inv [OF R])
next
  case (preempt s E)
  then show ?case by (intro preempt_inv [OF R])
next
  case (vforkexec s E ncpu samecpu)
  then show ?case by (intro vforkexec_inv [OF R])
next
  case (wake s E n s')
  then show ?case using setrunnable_inv [OF R X] by blast
next
  case (changepri s pri n E)
  then show ?case using setpri_inv [OF R, of s "\<lambda>v. v \<lparr> l_priority := pri \<rparr>" n P E] by (simp add: lwp_changepri_def sched_changepri_def)
next
  case (lendpri s pri n E)
  then have "pri_ok R ((rq_lwps s n) \<lparr> l_inheritedprio := pri, l_auxprio := max pri (l_protectprio (rq_lwps s n)) \<rparr>)"
    using sched_invD(3) [of R s n] by (simp add: pri_ok_def)
  then show ?case unfolding sched_lendpri_def using lendpri by (intro setpri_inv [OF R]) simp_all
next
  case (migrate s E n tci)
  then show ?case by (intro migrate_inv)
next
  case (suspend s E curl n e s')
  then show ?case using suspend_inv [OF R X] by blast
next
  case (continue s E n s')
  then show ?case using continue_inv [OF R X] by blast
next
  case (unstop s E n s')
  then show ?case using unstop_inv [OF R X] by blast
next
  case (create s n E susp s')
  then show ?case using start_inv [OF R X] by blast
next
  case (idle s E)
  have "runq_hooks_ok R" using R by (simp add: sched_conf_ok_def)
  from conserves_inv [OF idle.IH idle_conserves [OF this sched_invD(1) [OF idle.IH]]] show ?case .
qed

text \<open>
  C7: no thread is ever lost or run twice. In every state the scheduler reaches by wake-ups,
  context switches, preemptions, priority changes, migrations, suspensions and idle-time
  stealing, a thread is runnable exactly if it stands in the run queue of its own CPU at its own
  effective priority; it stands there once, and in no other queue of any CPU.
\<close>

theorem sched_no_lost_thread:
  assumes "sched_conf_ok R" "synch_ok R X" "sched_reach X P R T s"
  shows "(l_stat (rq_lwps s n) = LSRUN \<longleftrightarrow>
      n \<in> set (spc_queue (rq_spc s (l_cpu (rq_lwps s n))) (nat (eprio R (rq_lwps s n))))) \<and>
    (n \<in> set (spc_queue (rq_spc s k) p) \<longrightarrow> k = l_cpu (rq_lwps s n) \<and> p = nat (eprio R (rq_lwps s n))) \<and>
    distinct (rq_list R k s)"
proof -
  note i = sched_reach_inv [OF assms] and ok = sched_invD(1) [OF sched_reach_inv [OF assms]]
  have here: "k = l_cpu (rq_lwps s n) \<and> p = nat (eprio R (rq_lwps s n)) \<and> p < PRI_COUNT R" if "n \<in> set (spc_queue (rq_spc s k) p)" for k p
    using spc_okD(2) [OF rq_okD [OF ok] that] by simp
  have "l_stat (rq_lwps s n) = LSRUN \<longleftrightarrow> n \<in> set (rq_list R (l_cpu (rq_lwps s n)) s)" using sched_invD(2) [OF i, of n] by (simp add: rq_queued_def)
  moreover have "n \<in> set (rq_list R (l_cpu (rq_lwps s n)) s) \<longleftrightarrow> n \<in> set (spc_queue (rq_spc s (l_cpu (rq_lwps s n))) (nat (eprio R (rq_lwps s n))))"
  proof
    show "n \<in> set (rq_list R (l_cpu (rq_lwps s n)) s) \<Longrightarrow> n \<in> set (spc_queue (rq_spc s (l_cpu (rq_lwps s n))) (nat (eprio R (rq_lwps s n))))"
      by (rule rq_list_mem(3) [OF ok])
    assume a: "n \<in> set (spc_queue (rq_spc s (l_cpu (rq_lwps s n))) (nat (eprio R (rq_lwps s n))))"
    show "n \<in> set (rq_list R (l_cpu (rq_lwps s n)) s)" unfolding rq_list_def rq_order_mem using a here [OF a] by blast
  qed
  moreover have "distinct (rq_list R k s)" using spc_okD(3) [OF rq_okD [OF ok]] by (simp add: rq_list_def)
  ultimately show ?thesis using here by blast
qed

text \<open>
  C12: error paths. \<^verbatim>\<open>setrunnable\<close> panics exactly on a thread that is already runnable, running
  or dead. Suspending, continuing and unstopping a thread and starting a new one never lead it
  there; and a refused suspension (\<^verbatim>\<open>EDEADLK\<close> for a caller that is exiting, \<^verbatim>\<open>EINTR\<close> for a thread
  that is not yet started or already dead) changes nothing.
\<close>

theorem lwp_state_errors:
  "(setrunnable X P R T E n s = None \<longleftrightarrow> l_stat (rq_lwps s n) \<in> {LSRUN, LSONPROC, LSZOMB}) \<and>
   lwp_suspend X P R T E curl n s \<noteq> None \<and> lwp_continue X P R T E n s \<noteq> None \<and> lwp_unstop X P R T E n s \<noteq> None \<and>
   (lwp_start X P R T E n susp s = None \<longleftrightarrow> \<not> (p_sstop (rq_procs s (l_pid (rq_lwps s n))) \<or> p_stopping (rq_procs s (l_pid (rq_lwps s n)))) \<and>
     l_stat (rq_lwps s n) \<in> {LSRUN, LSONPROC, LSZOMB}) \<and>
   (\<forall>e s'. lwp_suspend X P R T E curl n s = Some (Some e, s') \<longleftrightarrow> s' = s \<and>
     (e = EDEADLK \<and> l_flag (rq_lwps s curl) AND (LW_WEXIT OR LW_WCORE) \<noteq> 0 \<or>
      e = EINTR \<and> l_flag (rq_lwps s curl) AND (LW_WEXIT OR LW_WCORE) = 0 \<and> l_flag (rq_lwps s n) AND LW_DBGSUSPEND = 0 \<and>
        l_stat (rq_lwps s n) \<in> {LSIDL, LSZOMB}))"
proof -
  have sr: "setrunnable X P R T E n s = None \<longleftrightarrow> l_stat (rq_lwps s n) \<in> {LSRUN, LSONPROC, LSZOMB}" for s
    by (auto simp: setrunnable_def setrunnable_stat_def Let_def split: option.split lwp_stat.split)
  have u: "l_stat (rq_lwps (upd_lwp n (\<lambda>v. v \<lparr> l_flag := g v \<rparr>) s) m) = l_stat (rq_lwps s m)" for g m by (simp add: upd_lwp_def)
  have p: "rq_lwps (upd_proc q g s) = rq_lwps s" for q g s by (simp add: upd_proc_def)
  define m where "m = upd_lwp n (\<lambda>v. v \<lparr> l_flag := l_flag v OR LW_WSUSPEND \<rparr>) s"
  have mm: "l_stat (rq_lwps m n) = l_stat (rq_lwps s n)" unfolding m_def by (rule u)
  have sus: "lwp_suspend X P R T E curl n s \<noteq> None" using sr [of m] mm
    by (auto simp: lwp_suspend_def Let_def m_def [symmetric] split: lwp_stat.split)
  have some: "l_stat (rq_lwps s' n) \<in> {LSSTOP, LSSUSPENDED, LSSLEEP, LSIDL} \<Longrightarrow> \<exists>s''. setrunnable X P R T E n s' = Some s''" for s'
    using sr [of s'] by (cases "setrunnable X P R T E n s'") auto
  have cont: "lwp_continue X P R T E n s \<noteq> None" unfolding lwp_continue_def Let_def u using some by (simp add: u)
  have uns: "lwp_unstop X P R T E n s \<noteq> None" unfolding lwp_unstop_def Let_def using some by (simp add: p)
  have st: "lwp_start X P R T E n susp s = None \<longleftrightarrow> \<not> (p_sstop (rq_procs s (l_pid (rq_lwps s n))) \<or> p_stopping (rq_procs s (l_pid (rq_lwps s n)))) \<and>
     l_stat (rq_lwps s n) \<in> {LSRUN, LSONPROC, LSZOMB}"
    using sr [of s] sr [of m] mm by (auto simp: lwp_start_def Let_def m_def [symmetric])
  have "\<forall>e s'. lwp_suspend X P R T E curl n s = Some (Some e, s') \<longleftrightarrow> s' = s \<and>
     (e = EDEADLK \<and> l_flag (rq_lwps s curl) AND (LW_WEXIT OR LW_WCORE) \<noteq> 0 \<or>
      e = EINTR \<and> l_flag (rq_lwps s curl) AND (LW_WEXIT OR LW_WCORE) = 0 \<and> l_flag (rq_lwps s n) AND LW_DBGSUSPEND = 0 \<and>
        l_stat (rq_lwps s n) \<in> {LSIDL, LSZOMB})"
    by (auto simp: lwp_suspend_def Let_def m_def [symmetric] split: lwp_stat.split)
  then show ?thesis using sr sus cont uns st by blast
qed

section \<open>Witness\<close>

text \<open>Sleep queues that leave every thread asleep; the invariant holds for them trivially.\<close>

definition sample_synch :: synch_ops where
  "sample_synch = \<lparr> cpu_idlelwp = \<lambda>c. 100 + c, cpu_softints = \<lambda>_. 0, lwp_unsleep = \<lambda>n. upd_lwp n (\<lambda>v. v \<lparr> l_stat := LSONPROC, l_wchan := False \<rparr>),
    cv_broadcast_lwpcv = \<lambda>_ s. s, signotify = id, PRI_USER_RT = 96 \<rparr>"

lemma sample_synch_ok: "synch_ok R sample_synch"
proof -
  have "sched_inv R (upd_lwp n (\<lambda>v. v \<lparr> l_stat := LSONPROC, l_wchan := False \<rparr>) s)" if "sched_inv R s" "l_stat (rq_lwps s n) = LSSLEEP" for n s
    using sched_invD(3) [OF that(1), of n] that(2) by (intro inv_upd [OF that(1)]) (simp_all add: pri_ok_def)
  then show ?thesis by (simp add: synch_ok_def sample_synch_def)
qed

lemma sample_pri_ok: "pri_ok sample_runq (sample_lwp \<lparr> l_stat := st \<rparr>)"
  by (simp add: pri_ok_def sample_runq_def sample_lwp_def)

lemma sample_conf_ok: "sched_conf_ok sample_runq"
  using sample_hooks by (simp add: sched_conf_ok_def) (simp add: sample_runq_def)

lemma sample_start: "sched_start sample_runq sample_sched"
  using sample_pri_ok [of LSSLEEP] by (simp add: sched_start_def Let_def sample_sched_def) (simp add: sample_spc_def sample_runq_def)

text \<open>A sleeping thread is woken: it stands in the queue of its CPU at priority 40.\<close>

theorem sched_no_lost_thread_witness:
  "let s = the (setrunnable sample_synch sample_platform sample_runq sample_topology sample_env 3 sample_sched)
   in distinct (rq_list sample_runq 0 s) \<and>
      (l_stat (rq_lwps s 3) = LSRUN \<longrightarrow> 3 \<in> set (spc_queue (rq_spc s (l_cpu (rq_lwps s 3))) (nat (eprio sample_runq (rq_lwps s 3)))))"
proof -
  have st: "l_stat (rq_lwps sample_sched 3) = LSSLEEP" by (simp add: sample_sched_def)
  then obtain s where s: "setrunnable sample_synch sample_platform sample_runq sample_topology sample_env 3 sample_sched = Some s"
    by (auto simp: setrunnable_def setrunnable_stat_def Let_def)
  have "sched_reach sample_synch sample_platform sample_runq sample_topology s"
    by (rule sched_reach.wake [OF sched_reach.boot [OF sample_start] s])
  from sched_no_lost_thread [OF sample_conf_ok sample_synch_ok this] show ?thesis unfolding s Let_def option.sel by blast
qed

end
