(* ===== verification/Memfd.thy ===== *)
theory Memfd
  imports Prelude
begin

text \<open>
  Anonymous memory files, \<^verbatim>\<open>kernel/kern/sys_memfd.c\<close>: creation, reading, writing, seals, mapping,
  seeking and truncation. The backing object is the byte at every offset, its reference count,
  and the mappings that hold references (each with its protection and whether it is private), so
  that stores through a mapping are operations too.

  The kernel's memory and file interfaces are arguments: \<open>memfd_env\<close> has the page size and the
  clock, \<open>io\<close> is what \<^verbatim>\<open>ubc_uiomove\<close> does with a request (the error and the bytes moved), \<open>put\<close>
  the result of freeing pages, and the results of \<^verbatim>\<open>copyinstr\<close> and \<^verbatim>\<open>fd_allocfile\<close> are arguments of
  creation. Offsets are mathematical integers in the range of \<^verbatim>\<open>off_t\<close>; the sums the code forms in
  64 bits are written out.
\<close>

section \<open>State\<close>

record memfd_map =
  map_write :: bool \<comment> \<open>\<^verbatim>\<open>VM_PROT_WRITE\<close> in its protection\<close>
  map_private :: bool

record memfd =
  mfd_name :: string
  mfd_size :: int
  mfd_data :: "int \<Rightarrow> u8"
  uo_refs :: nat
  mfd_maps :: "memfd_map list"
  mfd_seals :: u32
  mfd_btime :: int
  mfd_atime :: int
  mfd_mtime :: int

record memfile =
  f_memfd :: "memfd option"
  f_offset :: int

record memfd_env =
  PAGE_SIZE :: int
  nanotime :: int
  F_SEAL_SEAL :: u32
  F_SEAL_SHRINK :: u32
  F_SEAL_GROW :: u32
  F_SEAL_WRITE :: u32
  F_SEAL_FUTURE_WRITE :: u32
  MFD_CLOEXEC :: u32
  MFD_CLOFORK :: u32
  MFD_ALLOW_SEALING :: u32

definition F_SEAL_ANY_WRITE :: "memfd_env \<Rightarrow> u32" where
  "F_SEAL_ANY_WRITE M = F_SEAL_WRITE M OR F_SEAL_FUTURE_WRITE M"

definition MFD_KNOWN_SEALS :: "memfd_env \<Rightarrow> u32" where
  "MFD_KNOWN_SEALS M = F_SEAL_SEAL M OR F_SEAL_SHRINK M OR F_SEAL_GROW M OR F_SEAL_WRITE M OR F_SEAL_FUTURE_WRITE M"

definition memfd_prefix :: string where
  "memfd_prefix = ''memfd:''"

definition round_page :: "memfd_env \<Rightarrow> int \<Rightarrow> int" where
  "round_page M x = (x + PAGE_SIZE M - 1) div PAGE_SIZE M * PAGE_SIZE M"

text \<open>The 64-bit unsigned sum of an offset and a length, and its reading as an \<^verbatim>\<open>off_t\<close>.\<close>

definition off_sum :: "int \<Rightarrow> nat \<Rightarrow> u64" where
  "off_sum off len = word_of_int (off + int len)"

section \<open>Operations\<close>

text \<open>
  \<^verbatim>\<open>sys_memfd_create\<close>: the new descriptor and its file, with the close-on-exec and close-on-fork
  settings, or an error.
\<close>

definition sys_memfd_create ::
    "memfd_env \<Rightarrow> u32 \<Rightarrow> errno + string \<Rightarrow> errno + nat \<Rightarrow> errno + (nat \<times> memfile \<times> bool \<times> bool)" where
  "sys_memfd_create M flags copyinstr fd_allocfile =
    (if flags AND NOT (MFD_CLOEXEC M OR MFD_CLOFORK M OR MFD_ALLOW_SEALING M) \<noteq> 0 then Inl EINVAL
     else case copyinstr of
       Inl e \<Rightarrow> Inl e
     | Inr name \<Rightarrow> (case fd_allocfile of
         Inl e \<Rightarrow> Inl e
       | Inr fd \<Rightarrow>
           let mfd = \<lparr> mfd_name = memfd_prefix @ name, mfd_size = 0, mfd_data = \<lambda>_. 0, uo_refs = 1, mfd_maps = [],
                 mfd_seals = (if flags AND MFD_ALLOW_SEALING M = 0 then F_SEAL_SEAL M else 0),
                 mfd_btime = nanotime M, mfd_atime = 0, mfd_mtime = 0 \<rparr>
           in Inr (fd, \<lparr> f_memfd = Some mfd, f_offset = 0 \<rparr>, flags AND MFD_CLOEXEC M \<noteq> 0, flags AND MFD_CLOFORK M \<noteq> 0)))"

text \<open>Reading: the error, the bytes, the offset afterwards and the file.\<close>

definition memfd_read ::
    "memfd_env \<Rightarrow> (nat \<Rightarrow> errno option \<times> nat) \<Rightarrow> int \<Rightarrow> nat \<Rightarrow> bool \<Rightarrow> memfd \<Rightarrow> errno option \<times> u8 list \<times> int \<times> memfd" where
  "memfd_read M io off resid update mfd =
    (let stamp = mfd \<lparr> mfd_atime := nanotime M \<rparr>
     in if off < 0 then (Some EINVAL, [], off, stamp)
        else if off \<ge> mfd_size mfd then (None, [], off, stamp)
        else
          let todo = min resid (nat (mfd_size mfd - off)); (error, moved) = io todo;
              bytes = map (\<lambda>i. mfd_data mfd (off + int i)) [0..<moved]
          in (error, bytes, if update then off + int moved else off, stamp))"

text \<open>
  Changing the size. Growing zeroes the new range; shrinking frees whole pages only, which then
  read as zeroes, and a failure to free them is reported after the size has changed.
\<close>

definition memfd_truncate_locked :: "memfd_env \<Rightarrow> errno option \<Rightarrow> int \<Rightarrow> memfd \<Rightarrow> errno option \<times> memfd" where
  "memfd_truncate_locked M put len mfd =
    (if len < 0 then (Some EINVAL, mfd)
     else if len = mfd_size mfd then (None, mfd)
     else if mfd_seals mfd AND F_SEAL_SHRINK M \<noteq> 0 \<and> len < mfd_size mfd then (Some EPERM, mfd)
     else if mfd_seals mfd AND F_SEAL_GROW M \<noteq> 0 \<and> len > mfd_size mfd then (Some EPERM, mfd)
     else
       let (error, data) =
             (if len > mfd_size mfd
              then (None, \<lambda>i. if mfd_size mfd \<le> i \<and> i < len then 0 else mfd_data mfd i)
              else
                let start = round_page M len; fin = round_page M (mfd_size mfd)
                in if start < fin then (put, \<lambda>i. if start \<le> i \<and> i < fin then 0 else mfd_data mfd i) else (None, mfd_data mfd))
       in (error, mfd \<lparr> mfd_data := data, mfd_mtime := nanotime M, mfd_size := len \<rparr>))"

definition memfd_truncate :: "memfd_env \<Rightarrow> errno option \<Rightarrow> int \<Rightarrow> memfd \<Rightarrow> errno option \<times> memfd" where
  "memfd_truncate M put len mfd = memfd_truncate_locked M put len mfd"

text \<open>The transfer of a write: the first \<open>moved\<close> bytes of the buffer.\<close>

definition memfd_store :: "int \<Rightarrow> u8 list \<Rightarrow> (int \<Rightarrow> u8) \<Rightarrow> int \<Rightarrow> u8" where
  "memfd_store off bytes data i = (if off \<le> i \<and> i < off + int (length bytes) then bytes ! nat (i - off) else data i)"

text \<open>The room a write finds or makes: the error, the number of bytes to transfer, and the file.\<close>

definition memfd_write_room :: "memfd_env \<Rightarrow> errno option \<Rightarrow> int \<Rightarrow> nat \<Rightarrow> memfd \<Rightarrow> errno option \<times> nat \<times> memfd" where
  "memfd_write_room M put off resid mfd =
    (let end64 = off_sum off resid
     in if mfd_seals mfd AND F_SEAL_GROW M \<noteq> 0 then
          (if off \<ge> mfd_size mfd then (Some EPERM, resid, mfd)
           else (None, if uint end64 \<ge> mfd_size mfd then nat (mfd_size mfd - off) else resid, mfd))
        else if uint end64 \<ge> mfd_size mfd then
          let (e, mfd) = memfd_truncate_locked M put (sint end64) mfd in (e, resid, mfd)
        else (None, resid, mfd))"

definition memfd_write ::
    "memfd_env \<Rightarrow> (nat \<Rightarrow> errno option \<times> nat) \<Rightarrow> errno option \<Rightarrow> int \<Rightarrow> u8 list \<Rightarrow> bool \<Rightarrow> memfd \<Rightarrow> errno option \<times> int \<times> memfd" where
  "memfd_write M io put off buf update mfd =
    (if mfd_seals mfd AND F_SEAL_ANY_WRITE M \<noteq> 0 then (Some EPERM, off, mfd)
     else if off < 0 then (Some EINVAL, off, mfd)
     else case memfd_write_room M put off (length buf) mfd of
       (Some e, _, mfd) \<Rightarrow> (Some e, off, mfd)
     | (None, todo, mfd) \<Rightarrow>
         let (error, moved) = io todo
         in (error, if update then off + int moved else off,
             mfd \<lparr> mfd_data := memfd_store off (take moved buf) (mfd_data mfd), mfd_mtime := nanotime M \<rparr>))"

definition memfd_ioctl :: "memfd \<Rightarrow> errno option \<times> memfd" where
  "memfd_ioctl mfd = (Some EINVAL, mfd)"

datatype memfd_cmd = F_GETPATH | F_ADD_SEALS u32 | F_GET_SEALS | F_OTHER

datatype memfd_reply = ReplyNone | ReplyPath string | ReplySeals u32

definition memfd_fcntl :: "memfd_env \<Rightarrow> nat \<Rightarrow> memfd_cmd \<Rightarrow> memfd \<Rightarrow> errno option \<times> memfd_reply \<times> memfd" where
  "memfd_fcntl M MAXPATHLEN cmd mfd = (case cmd of
      F_GETPATH \<Rightarrow> (None, ReplyPath (take MAXPATHLEN (mfd_name mfd)), mfd)
    | F_ADD_SEALS data \<Rightarrow>
        if mfd_seals mfd AND F_SEAL_SEAL M \<noteq> 0 then (Some EPERM, ReplyNone, mfd)
        else if data AND NOT (MFD_KNOWN_SEALS M) \<noteq> 0 then (Some EINVAL, ReplyNone, mfd)
        else if mfd_seals mfd AND F_SEAL_WRITE M = 0 \<and> data AND F_SEAL_WRITE M \<noteq> 0 \<and> uo_refs mfd > 1
        then (Some EBUSY, ReplyNone, mfd)
        else (None, ReplyNone, mfd \<lparr> mfd_seals := mfd_seals mfd OR data \<rparr>)
    | F_GET_SEALS \<Rightarrow> (None, ReplySeals (mfd_seals mfd), mfd)
    | F_OTHER \<Rightarrow> (Some EINVAL, ReplyNone, mfd))"

record memfd_statbuf =
  st_uid :: nat
  st_gid :: nat
  st_size :: int
  st_read :: bool
  st_write :: bool
  st_birthtime :: int
  st_ctime :: int
  st_atime :: int
  st_mtime :: int

definition memfd_stat :: "memfd_env \<Rightarrow> nat \<Rightarrow> nat \<Rightarrow> memfd \<Rightarrow> memfd_statbuf" where
  "memfd_stat M euid egid mfd = \<lparr> st_uid = euid, st_gid = egid, st_size = mfd_size mfd, st_read = True, st_write = (mfd_seals mfd AND F_SEAL_ANY_WRITE M = 0),
    st_birthtime = mfd_btime mfd, st_ctime = mfd_mtime mfd, st_atime = mfd_atime mfd, st_mtime = mfd_mtime mfd \<rparr>"

text \<open>Closing drops the file's reference to the object; the object lives on in its mappings.\<close>

definition memfd_close :: "memfile \<Rightarrow> memfile \<times> nat" where
  "memfd_close f = (f \<lparr> f_memfd := None \<rparr>, case f_memfd f of None \<Rightarrow> 0 | Some mfd \<Rightarrow> uo_refs mfd - 1)"

definition memfd_mmap :: "memfd_env \<Rightarrow> int \<Rightarrow> nat \<Rightarrow> bool \<Rightarrow> bool \<Rightarrow> memfd \<Rightarrow> errno option \<times> memfd" where
  "memfd_mmap M off sz prot_write private mfd =
    (if off < 0 then (Some EINVAL, mfd)
     else if uint (off_sum off sz) > round_page M (mfd_size mfd) then (Some EINVAL, mfd)
     else if mfd_seals mfd AND F_SEAL_ANY_WRITE M \<noteq> 0 \<and> prot_write \<and> \<not> private then (Some EPERM, mfd)
     else (None, mfd \<lparr> uo_refs := uo_refs mfd + 1,
            mfd_maps := \<lparr> map_write = prot_write, map_private = private \<rparr> # mfd_maps mfd \<rparr>))"

datatype memfd_whence = SEEK_CUR | SEEK_END | SEEK_SET | SEEK_OTHER

definition memfd_seek :: "int \<Rightarrow> memfd_whence \<Rightarrow> bool \<Rightarrow> memfile \<Rightarrow> errno option \<times> int option \<times> memfile" where
  "memfd_seek delta whence update f =
    (let size = (case f_memfd f of None \<Rightarrow> 0 | Some mfd \<Rightarrow> mfd_size mfd);
         newoff = (case whence of SEEK_CUR \<Rightarrow> Some (f_offset f + delta) | SEEK_END \<Rightarrow> Some (size + delta) | SEEK_SET \<Rightarrow> Some delta | SEEK_OTHER \<Rightarrow> None)
     in case newoff of
          None \<Rightarrow> (Some EINVAL, None, f)
        | Some off \<Rightarrow> (None, Some off, if update then f \<lparr> f_offset := off \<rparr> else f))"

section \<open>Histories of a file\<close>

text \<open>
  The operations on an open file, with what the environment did in each: system calls, unmapping,
  and stores through a mapping, which reach the object only if the mapping is shared and writable.
\<close>

datatype memfd_op =
    Op_read "nat \<Rightarrow> errno option \<times> nat" int nat
  | Op_write "nat \<Rightarrow> errno option \<times> nat" "errno option" int "u8 list"
  | Op_truncate "errno option" int
  | Op_fcntl memfd_cmd
  | Op_mmap int nat bool bool
  | Op_unmap nat
  | Op_map_store nat int "u8 list"

definition memfd_unmap :: "nat \<Rightarrow> memfd \<Rightarrow> memfd" where
  "memfd_unmap i mfd = (if i < length (mfd_maps mfd)
    then mfd \<lparr> uo_refs := uo_refs mfd - 1, mfd_maps := take i (mfd_maps mfd) @ drop (i + 1) (mfd_maps mfd) \<rparr> else mfd)"

definition memfd_map_store :: "nat \<Rightarrow> int \<Rightarrow> u8 list \<Rightarrow> memfd \<Rightarrow> memfd" where
  "memfd_map_store i off bytes mfd = (if i < length (mfd_maps mfd) \<and> map_write (mfd_maps mfd ! i) \<and> \<not> map_private (mfd_maps mfd ! i)
    then mfd \<lparr> mfd_data := memfd_store off bytes (mfd_data mfd) \<rparr> else mfd)"

fun memfd_step :: "memfd_env \<Rightarrow> nat \<Rightarrow> memfd_op \<Rightarrow> memfd \<Rightarrow> memfd" where
  "memfd_step M maxpath (Op_read io off resid) mfd = snd (snd (snd (memfd_read M io off resid True mfd)))"
| "memfd_step M maxpath (Op_write io put off buf) mfd = snd (snd (memfd_write M io put off buf True mfd))"
| "memfd_step M maxpath (Op_truncate put len) mfd = snd (memfd_truncate M put len mfd)"
| "memfd_step M maxpath (Op_fcntl cmd) mfd = snd (snd (memfd_fcntl M maxpath cmd mfd))"
| "memfd_step M maxpath (Op_mmap off sz w p) mfd = snd (memfd_mmap M off sz w p mfd)"
| "memfd_step M maxpath (Op_unmap i) mfd = memfd_unmap i mfd"
| "memfd_step M maxpath (Op_map_store i off bytes) mfd = memfd_map_store i off bytes mfd"

definition memfd_run :: "memfd_env \<Rightarrow> nat \<Rightarrow> memfd_op list \<Rightarrow> memfd \<Rightarrow> memfd" where
  "memfd_run M maxpath ops mfd = foldl (\<lambda>m op. memfd_step M maxpath op m) mfd ops"

text \<open>Truncation lengths are of type \<^verbatim>\<open>off_t\<close>.\<close>

fun op_typed :: "memfd_op \<Rightarrow> bool" where
  "op_typed (Op_truncate put len) \<longleftrightarrow> len < 2 ^ 63"
| "op_typed _ \<longleftrightarrow> True"

text \<open>
  A well-formed file: a size in range, only known seals, one reference for the file and one for
  each mapping, and no writable shared mapping of a file sealed against writing.
\<close>

definition memfd_ok :: "memfd_env \<Rightarrow> memfd \<Rightarrow> bool" where
  "memfd_ok M mfd \<longleftrightarrow> 0 \<le> mfd_size mfd \<and> mfd_size mfd < 2 ^ 63 \<and> mfd_seals mfd AND NOT (MFD_KNOWN_SEALS M) = 0 \<and>
    uo_refs mfd = 1 + length (mfd_maps mfd) \<and>
    (mfd_seals mfd AND F_SEAL_WRITE M \<noteq> 0 \<longrightarrow> (\<forall>m \<in> set (mfd_maps mfd). map_write m \<longrightarrow> map_private m))"

subsection \<open>One step\<close>

lemma seals_grow:
  fixes a b x :: u32
  shows "a AND NOT (a OR b) = 0" "a AND x \<noteq> 0 \<Longrightarrow> (a OR b) AND x \<noteq> 0" "(a OR b) AND x = 0 \<longleftrightarrow> a AND x = 0 \<and> b AND x = 0"
proof -
  show "a AND NOT (a OR b) = 0" by (rule bit_eqI) (simp add: bit_simps)
  show "(a OR b) AND x = 0 \<longleftrightarrow> a AND x = 0 \<and> b AND x = 0" by (simp add: bit.conj_disj_distrib2 or_eq_0_iff)
  then show "a AND x \<noteq> 0 \<Longrightarrow> (a OR b) AND x \<noteq> 0" by blast
qed

lemma any_write: "x AND F_SEAL_WRITE M \<noteq> 0 \<Longrightarrow> x AND F_SEAL_ANY_WRITE M \<noteq> 0"
  unfolding F_SEAL_ANY_WRITE_def by (simp add: bit.conj_disj_distrib or_eq_0_iff)

lemma round_page_ge: "0 < PAGE_SIZE M \<Longrightarrow> x \<le> round_page M x"
proof -
  assume p: "0 < PAGE_SIZE M"
  have "x + PAGE_SIZE M - 1 = (x + PAGE_SIZE M - 1) div PAGE_SIZE M * PAGE_SIZE M + (x + PAGE_SIZE M - 1) mod PAGE_SIZE M" by simp
  moreover have "(x + PAGE_SIZE M - 1) mod PAGE_SIZE M < PAGE_SIZE M" using p by simp
  ultimately show ?thesis unfolding round_page_def by linarith
qed

lemma truncate_facts:
  assumes pg: "0 < PAGE_SIZE M" and r: "memfd_truncate_locked M put len mfd = (e, mfd')"
  shows "mfd_seals mfd' = mfd_seals mfd" "mfd_maps mfd' = mfd_maps mfd" "uo_refs mfd' = uo_refs mfd"
    "mfd' = mfd \<or> mfd_size mfd' = len \<and> 0 \<le> len"
    "mfd_seals mfd AND F_SEAL_SHRINK M \<noteq> 0 \<Longrightarrow> mfd_size mfd \<le> mfd_size mfd'"
    "mfd_seals mfd AND F_SEAL_GROW M \<noteq> 0 \<Longrightarrow> mfd_size mfd' \<le> mfd_size mfd"
    "i < mfd_size mfd \<Longrightarrow> i < mfd_size mfd' \<Longrightarrow> mfd_data mfd' i = mfd_data mfd i"
    "mfd_size mfd \<le> i \<Longrightarrow> i < mfd_size mfd' \<Longrightarrow> mfd_data mfd' i = 0"
    "e = None \<Longrightarrow> mfd_size mfd' = len"
proof -
  consider (none) "mfd' = mfd" "e \<noteq> None \<or> len = mfd_size mfd"
    | (grow) "mfd' = mfd \<lparr> mfd_data := \<lambda>i. if mfd_size mfd \<le> i \<and> i < len then 0 else mfd_data mfd i, mfd_mtime := nanotime M, mfd_size := len \<rparr>"
        "0 \<le> len" "mfd_size mfd < len" "mfd_seals mfd AND F_SEAL_GROW M = 0"
    | (shrink) "mfd' = mfd \<lparr> mfd_data := \<lambda>i. if round_page M len \<le> i \<and> i < round_page M (mfd_size mfd) then 0 else mfd_data mfd i, mfd_mtime := nanotime M, mfd_size := len \<rparr>"
        "0 \<le> len" "len < mfd_size mfd" "mfd_seals mfd AND F_SEAL_SHRINK M = 0"
    | (keep) "mfd' = mfd \<lparr> mfd_data := mfd_data mfd, mfd_mtime := nanotime M, mfd_size := len \<rparr>"
        "0 \<le> len" "len < mfd_size mfd" "mfd_seals mfd AND F_SEAL_SHRINK M = 0"
    using r unfolding memfd_truncate_locked_def Let_def by (auto split: if_splits)
  note c = this
  show "mfd_seals mfd' = mfd_seals mfd" "mfd_maps mfd' = mfd_maps mfd" "uo_refs mfd' = uo_refs mfd"
    "mfd' = mfd \<or> mfd_size mfd' = len \<and> 0 \<le> len" "e = None \<Longrightarrow> mfd_size mfd' = len" using c by (cases; simp)+
  show "mfd_seals mfd AND F_SEAL_SHRINK M \<noteq> 0 \<Longrightarrow> mfd_size mfd \<le> mfd_size mfd'"
    "mfd_seals mfd AND F_SEAL_GROW M \<noteq> 0 \<Longrightarrow> mfd_size mfd' \<le> mfd_size mfd" using c by (cases; simp)+
  show "mfd_size mfd \<le> i \<Longrightarrow> i < mfd_size mfd' \<Longrightarrow> mfd_data mfd' i = 0" using c by (cases; simp)
  show "i < mfd_size mfd \<Longrightarrow> i < mfd_size mfd' \<Longrightarrow> mfd_data mfd' i = mfd_data mfd i"
    using c round_page_ge [OF pg, of len] by (cases; simp)
qed

lemma sint_uint_nonneg: "0 \<le> sint (x :: u64) \<Longrightarrow> uint x = sint x"
  using uint_sint [of x] sint_lt [of x] by (simp add: take_bit_int_eq_self)

lemma sint_end: "mfd_size mfd \<le> uint (x :: u64) \<Longrightarrow> 0 \<le> sint x \<Longrightarrow> mfd_size mfd \<le> sint x"
  using sint_uint_nonneg [of x] by simp

lemma write_room_facts:
  assumes pg: "0 < PAGE_SIZE M" and r: "memfd_write_room M put off resid mfd = (e, todo, mfd')"
  shows "mfd_seals mfd' = mfd_seals mfd" "mfd_maps mfd' = mfd_maps mfd" "uo_refs mfd' = uo_refs mfd"
    "mfd_size mfd \<le> mfd_size mfd'" "mfd_size mfd' = mfd_size mfd \<or> mfd_size mfd' < 2 ^ 63"
    "mfd_seals mfd AND F_SEAL_GROW M \<noteq> 0 \<Longrightarrow> mfd' = mfd"
proof -
  define x where "x = off_sum off resid"
  obtain e1 m1 where t: "memfd_truncate_locked M put (sint x) mfd = (e1, m1)" by fastforce
  note f = truncate_facts [OF pg t]
  have le: "mfd_size mfd \<le> mfd_size m1" if "mfd_size mfd \<le> uint x" using f(4) sint_end [OF that] by auto
  have lt: "mfd_size m1 = mfd_size mfd \<or> mfd_size m1 < 2 ^ 63" using f(4) sint_lt [of x] by auto
  have c: "mfd' = mfd \<or> mfd' = m1 \<and> mfd_seals mfd AND F_SEAL_GROW M = 0 \<and> mfd_size mfd \<le> uint x"
    using r unfolding memfd_write_room_def Let_def x_def [symmetric] t prod.case by (simp split: if_splits)
  show "mfd_seals mfd' = mfd_seals mfd" "mfd_maps mfd' = mfd_maps mfd" "uo_refs mfd' = uo_refs mfd" using c f(1-3) by auto
  show "mfd_size mfd \<le> mfd_size mfd'" "mfd_size mfd' = mfd_size mfd \<or> mfd_size mfd' < 2 ^ 63" using c le lt by auto
  show "mfd_seals mfd AND F_SEAL_GROW M \<noteq> 0 \<Longrightarrow> mfd' = mfd" using c by auto
qed

lemma write_cases:
  assumes "memfd_write M io put off buf update mfd = (e, off', mfd')"
  shows "mfd' = mfd \<or> mfd_seals mfd AND F_SEAL_ANY_WRITE M = 0 \<and>
    (\<exists>e1 todo m1. memfd_write_room M put off (length buf) mfd = (e1, todo, m1) \<and>
      (mfd' = m1 \<or> (\<exists>d. mfd' = m1 \<lparr> mfd_data := d, mfd_mtime := nanotime M \<rparr>)))"
proof -
  obtain e1 todo m1 where w: "memfd_write_room M put off (length buf) mfd = (e1, todo, m1)" by (metis prod_cases3)
  obtain er mv where i: "io todo = (er, mv)" by fastforce
  show ?thesis using assms unfolding memfd_write_def w by (cases e1) (auto simp: i split: if_splits)
qed

lemma write_facts:
  assumes pg: "0 < PAGE_SIZE M" and r: "memfd_write M io put off buf update mfd = (e, off', mfd')"
  shows "mfd_seals mfd' = mfd_seals mfd" "mfd_maps mfd' = mfd_maps mfd" "uo_refs mfd' = uo_refs mfd"
    "mfd_size mfd \<le> mfd_size mfd'" "mfd_size mfd' = mfd_size mfd \<or> mfd_size mfd' < 2 ^ 63"
    "mfd_seals mfd AND F_SEAL_GROW M \<noteq> 0 \<Longrightarrow> mfd_size mfd' = mfd_size mfd"
    "mfd_seals mfd AND F_SEAL_ANY_WRITE M \<noteq> 0 \<Longrightarrow> mfd' = mfd"
  using write_cases [OF r] write_room_facts [OF pg] by fastforce+

text \<open>What seals promise about the file at a later time.\<close>

definition seals_kept :: "memfd_env \<Rightarrow> memfd \<Rightarrow> memfd \<Rightarrow> bool" where
  "seals_kept M m m' \<longleftrightarrow>
    mfd_seals m AND NOT (mfd_seals m') = 0 \<and>
    (mfd_seals m AND F_SEAL_SEAL M \<noteq> 0 \<longrightarrow> mfd_seals m' = mfd_seals m) \<and>
    (mfd_seals m AND F_SEAL_SHRINK M \<noteq> 0 \<longrightarrow> mfd_size m \<le> mfd_size m') \<and>
    (mfd_seals m AND F_SEAL_GROW M \<noteq> 0 \<longrightarrow> mfd_size m' \<le> mfd_size m) \<and>
    (mfd_seals m AND F_SEAL_WRITE M \<noteq> 0 \<and> mfd_seals m AND F_SEAL_SHRINK M \<noteq> 0 \<longrightarrow>
      (\<forall>i < mfd_size m. mfd_data m' i = mfd_data m i))"

lemma subset_flags:
  fixes a b x :: u32
  assumes "a AND NOT b = 0" "a AND x \<noteq> 0"
  shows "b AND x \<noteq> 0"
proof
  assume z: "b AND x = 0"
  have "\<not> bit (a AND x) n" for n
    using bit_and_iff [of a "NOT b" n] bit_and_iff [of b x n] bit_imp_le_length [of x n] unfolding assms(1) z by (auto simp: bit_simps)
  then show False using assms(2) bit_eq_iff [of "a AND x" 0] by simp
qed

lemma subset_trans_flags:
  fixes a b c :: u32
  assumes "a AND NOT b = 0" "b AND NOT c = 0"
  shows "a AND NOT c = 0"
proof (rule bit_eqI)
  fix n
  show "bit (a AND NOT c) n = bit 0 n"
    using bit_and_iff [of a "NOT b" n] bit_and_iff [of b "NOT c" n] bit_imp_le_length [of a n] unfolding assms by (auto simp: bit_simps)
qed

lemma seals_kept_trans:
  assumes a: "seals_kept M m m'" and b: "seals_kept M m' m''"
  shows "seals_kept M m m''"
proof -
  have sub: "mfd_seals m AND NOT (mfd_seals m') = 0" using a by (simp add: seals_kept_def)
  note f = subset_flags [OF sub]
  have "mfd_seals m AND NOT (mfd_seals m'') = 0" using a b subset_trans_flags by (auto simp: seals_kept_def)
  moreover have "mfd_seals m AND F_SEAL_SEAL M \<noteq> 0 \<Longrightarrow> mfd_seals m'' = mfd_seals m" using a b f by (simp add: seals_kept_def)
  moreover have "mfd_seals m AND F_SEAL_SHRINK M \<noteq> 0 \<Longrightarrow> mfd_size m \<le> mfd_size m''"
    using a b f [of "F_SEAL_SHRINK M"] by (auto simp: seals_kept_def)
  moreover have "mfd_seals m AND F_SEAL_GROW M \<noteq> 0 \<Longrightarrow> mfd_size m'' \<le> mfd_size m"
    using a b f [of "F_SEAL_GROW M"] by (auto simp: seals_kept_def)
  moreover have "mfd_data m'' i = mfd_data m i"
    if w: "mfd_seals m AND F_SEAL_WRITE M \<noteq> 0" "mfd_seals m AND F_SEAL_SHRINK M \<noteq> 0" and i: "i < mfd_size m" for i
  proof -
    have "mfd_data m' i = mfd_data m i" "i < mfd_size m'" using a w i by (auto simp: seals_kept_def)
    moreover have "mfd_data m'' i = mfd_data m' i" using b f [OF w(1)] f [OF w(2)] calculation(2) unfolding seals_kept_def by blast
    ultimately show ?thesis by simp
  qed
  ultimately show ?thesis unfolding seals_kept_def by blast
qed

text \<open>A step that changes neither seals, size nor data.\<close>

lemma seals_kept_frame:
  "mfd_seals m' = mfd_seals m \<Longrightarrow> mfd_size m' = mfd_size m \<Longrightarrow> mfd_data m' = mfd_data m \<Longrightarrow> seals_kept M m m'"
  by (simp add: seals_kept_def)

lemma truncate_step:
  assumes pg: "0 < PAGE_SIZE M" and ok: "memfd_ok M m" and len: "len < 2 ^ 63" and r: "memfd_truncate_locked M put len m = (e, m')"
  shows "memfd_ok M m' \<and> seals_kept M m m'"
proof -
  note f = truncate_facts [OF pg r]
  have "0 \<le> mfd_size m' \<and> mfd_size m' < 2 ^ 63" using f(4) ok len by (auto simp: memfd_ok_def)
  then have "memfd_ok M m'" using ok unfolding memfd_ok_def f(1-3) by blast
  moreover have "seals_kept M m m'" unfolding seals_kept_def f(1) using f(5-7) by (auto intro: order_less_le_trans)
  ultimately show ?thesis by blast
qed

lemma write_step:
  assumes pg: "0 < PAGE_SIZE M" and ok: "memfd_ok M m" and r: "memfd_write M io put off buf update m = (e, off', m')"
  shows "memfd_ok M m' \<and> seals_kept M m m'"
proof -
  note f = write_facts [OF pg r]
  have "0 \<le> mfd_size m' \<and> mfd_size m' < 2 ^ 63" using f(4,5) ok by (auto simp: memfd_ok_def)
  then have "memfd_ok M m'" using ok unfolding memfd_ok_def f(1-3) by blast
  moreover have "seals_kept M m m'" unfolding seals_kept_def f(1) using f(4,6,7) any_write by auto
  ultimately show ?thesis by blast
qed

lemma fcntl_step:
  assumes ok: "memfd_ok M m"
  shows "memfd_ok M (snd (snd (memfd_fcntl M mp cmd m))) \<and> seals_kept M m (snd (snd (memfd_fcntl M mp cmd m)))"
proof (cases cmd)
  case (F_ADD_SEALS d)
  consider (same) "snd (snd (memfd_fcntl M mp cmd m)) = m"
    | (add) "snd (snd (memfd_fcntl M mp cmd m)) = m \<lparr> mfd_seals := mfd_seals m OR d \<rparr>" "mfd_seals m AND F_SEAL_SEAL M = 0"
        "d AND NOT (MFD_KNOWN_SEALS M) = 0" "mfd_seals m AND F_SEAL_WRITE M \<noteq> 0 \<or> d AND F_SEAL_WRITE M = 0 \<or> uo_refs m \<le> 1"
  proof (cases "mfd_seals m AND F_SEAL_SEAL M \<noteq> 0 \<or> d AND NOT (MFD_KNOWN_SEALS M) \<noteq> 0 \<or>
      (mfd_seals m AND F_SEAL_WRITE M = 0 \<and> d AND F_SEAL_WRITE M \<noteq> 0 \<and> uo_refs m > 1)")
    case True
    then show ?thesis using that(1) F_ADD_SEALS by (simp add: memfd_fcntl_def)
  next
    case False
    then show ?thesis by (intro that(2)) (auto simp: memfd_fcntl_def F_ADD_SEALS not_less)
  qed
  then show ?thesis
  proof cases
    case add
    have "memfd_ok M (m \<lparr> mfd_seals := mfd_seals m OR d \<rparr>)" using ok add(3,4) by (auto simp: memfd_ok_def seals_grow)
    moreover have "seals_kept M m (m \<lparr> mfd_seals := mfd_seals m OR d \<rparr>)"
      using add(2) seals_grow(1) [of "mfd_seals m" d] by (simp add: seals_kept_def)
    ultimately show ?thesis unfolding add(1) by blast
  qed (use ok seals_kept_frame in auto)
qed (use ok seals_kept_frame in \<open>auto simp: memfd_fcntl_def\<close>)

lemma mmap_step:
  assumes ok: "memfd_ok M m"
  shows "memfd_ok M (snd (memfd_mmap M off sz w p m)) \<and> seals_kept M m (snd (memfd_mmap M off sz w p m))"
proof -
  have "memfd_ok M (m \<lparr> uo_refs := uo_refs m + 1, mfd_maps := \<lparr> map_write = w, map_private = p \<rparr> # mfd_maps m \<rparr>)"
    if "\<not> (mfd_seals m AND F_SEAL_ANY_WRITE M \<noteq> 0 \<and> w \<and> \<not> p)"
    using ok that any_write [of "mfd_seals m" M] by (auto simp: memfd_ok_def)
  then show ?thesis using ok by (auto simp: memfd_mmap_def intro: seals_kept_frame)
qed

lemma unmap_step:
  assumes ok: "memfd_ok M m"
  shows "memfd_ok M (memfd_unmap i m) \<and> seals_kept M m (memfd_unmap i m)"
proof -
  have "set (take i (mfd_maps m) @ drop (i + 1) (mfd_maps m)) \<subseteq> set (mfd_maps m)" using set_take_subset set_drop_subset by fastforce
  then show ?thesis using ok by (auto simp: memfd_unmap_def memfd_ok_def intro: seals_kept_frame)
qed

lemma map_store_step:
  assumes ok: "memfd_ok M m"
  shows "memfd_ok M (memfd_map_store i off bytes m) \<and> seals_kept M m (memfd_map_store i off bytes m)"
proof -
  have "mfd_seals m AND F_SEAL_WRITE M = 0" if "i < length (mfd_maps m)" "map_write (mfd_maps m ! i)" "\<not> map_private (mfd_maps m ! i)"
    using ok that nth_mem by (fastforce simp: memfd_ok_def)
  then show ?thesis using ok by (auto simp: memfd_map_store_def memfd_ok_def seals_kept_def)
qed

lemma memfd_step_kept:
  assumes pg: "0 < PAGE_SIZE M" and ok: "memfd_ok M m" and t: "op_typed op"
  shows "memfd_ok M (memfd_step M mp op m) \<and> seals_kept M m (memfd_step M mp op m)"
proof (cases op)
  case (Op_read io off resid)
  then show ?thesis using ok by (auto simp: memfd_read_def Let_def memfd_ok_def intro!: seals_kept_frame split: prod.split)
next
  case (Op_write io put off buf)
  then show ?thesis using write_step [OF pg ok] by (cases "memfd_write M io put off buf True m") auto
next
  case (Op_truncate put len)
  then show ?thesis using truncate_step [OF pg ok, of len put] t by (cases "memfd_truncate_locked M put len m") (auto simp: memfd_truncate_def)
qed (use fcntl_step [OF ok] mmap_step [OF ok] unmap_step [OF ok] map_store_step [OF ok] in auto)

lemma memfd_run_kept:
  assumes pg: "0 < PAGE_SIZE M" and "memfd_ok M m" "list_all op_typed ops"
  shows "memfd_ok M (memfd_run M mp ops m) \<and> seals_kept M m (memfd_run M mp ops m)"
  using assms(2,3)
proof (induction ops arbitrary: m)
  case Nil
  then show ?case using seals_kept_frame by (simp add: memfd_run_def)
next
  case (Cons op ops)
  have s: "memfd_ok M (memfd_step M mp op m)" "seals_kept M m (memfd_step M mp op m)" using memfd_step_kept [OF pg, of m op mp] Cons.prems by auto
  have "memfd_ok M (memfd_run M mp ops (memfd_step M mp op m)) \<and> seals_kept M (memfd_step M mp op m) (memfd_run M mp ops (memfd_step M mp op m))"
    using Cons.IH [OF s(1)] Cons.prems by simp
  then show ?case using seals_kept_trans [OF s(2)] by (simp add: memfd_run_def)
qed

section \<open>Properties\<close>

text \<open>
  C13: the file stays well formed. Creation gives a well-formed file, and so does every sequence of
  reads, writes, truncations, seal requests, mappings, unmappings and stores through mappings: the
  size fits in \<^verbatim>\<open>off_t\<close>, only known seals are set, references count the file and its mappings,
  and a file sealed against writing has no writable shared mapping.
\<close>

theorem memfd_well_formed:
  assumes "0 < PAGE_SIZE M" "list_all op_typed ops"
    and "sys_memfd_create M flags copyinstr fd_allocfile = Inr (fd, f, exclose, foclose)"
  shows "\<exists>mfd. f_memfd f = Some mfd \<and> memfd_ok M mfd \<and> memfd_ok M (memfd_run M maxpath ops mfd)"
proof -
  obtain mfd where f: "f_memfd f = Some mfd" "mfd_size mfd = 0" "uo_refs mfd = 1" "mfd_maps mfd = []" "mfd_seals mfd \<in> {0, F_SEAL_SEAL M}"
    using assms(3) by (auto simp: sys_memfd_create_def Let_def split: if_splits sum.splits)
  have "F_SEAL_SEAL M AND NOT (MFD_KNOWN_SEALS M) = 0" unfolding MFD_KNOWN_SEALS_def by (rule bit_eqI) (simp add: bit_simps)
  then have "memfd_ok M mfd" using f(2-5) by (auto simp: memfd_ok_def)
  then show ?thesis using f(1) memfd_run_kept [OF assms(1) _ assms(2)] by blast
qed

text \<open>
  C14: seals are binding. Whatever happens to a well-formed file afterwards, through the file or
  through mappings, a seal is never removed, \<^verbatim>\<open>F_SEAL_SEAL\<close> freezes the set of seals,
  \<^verbatim>\<open>F_SEAL_SHRINK\<close> and \<^verbatim>\<open>F_SEAL_GROW\<close> bound the size from below and above, and \<^verbatim>\<open>F_SEAL_WRITE\<close>
  together with \<^verbatim>\<open>F_SEAL_SHRINK\<close> fixes every byte the file has.
\<close>

theorem memfd_seals_binding:
  assumes "0 < PAGE_SIZE M" "memfd_ok M mfd" "list_all op_typed ops"
  shows "seals_kept M mfd (memfd_run M maxpath ops mfd)"
  using memfd_run_kept [OF assms] by blast

text \<open>The environment's transfers always succeed in full.\<close>

definition io_full :: "nat \<Rightarrow> errno option \<times> nat" where
  "io_full n = (None, n)"

lemma write_full:
  assumes pg: "0 < PAGE_SIZE M" and seals: "mfd_seals mfd AND F_SEAL_ANY_WRITE M = 0" "mfd_seals mfd AND F_SEAL_GROW M = 0"
    and off: "0 \<le> off" "off + int (length buf) < 2 ^ 63" and sz: "0 \<le> mfd_size mfd"
    and r: "memfd_write M io_full None off buf update mfd = (e, off', mfd')"
  shows "e = None \<and> off' = (if update then off + int (length buf) else off) \<and> mfd_size mfd' = max (mfd_size mfd) (off + int (length buf)) \<and>
    (\<forall>i. 0 \<le> i \<and> i < mfd_size mfd' \<longrightarrow> mfd_data mfd' i =
      (if off \<le> i \<and> i < off + int (length buf) then buf ! nat (i - off) else if i < mfd_size mfd then mfd_data mfd i else 0))"
proof -
  let ?n = "off + int (length buf)"
  have g: "uint (word_of_int k :: u64) = k" if "0 \<le> k" "k < 2 ^ 63" for k :: int
    using that by (simp add: uint_word_of_int_eq take_bit_int_eq_self)
  have u: "uint (off_sum off (length buf)) = ?n" unfolding off_sum_def using g [of ?n] off by auto
  have sn: "sint (off_sum off (length buf)) = ?n"
    unfolding sint_uint u using off by (simp add: signed_take_bit_int_eq_self)
  obtain e1 m1 where t: "memfd_truncate_locked M None ?n mfd = (e1, m1)" by fastforce
  note f = truncate_facts [OF pg t]
  have e1: "e1 = None" if "mfd_size mfd \<le> ?n"
    using t that seals(2) sz by (auto simp: memfd_truncate_locked_def Let_def split: if_splits)
  define m2 where "m2 = (if mfd_size mfd \<le> ?n then m1 else mfd)"
  have room: "memfd_write_room M None off (length buf) mfd = (None, length buf, m2)"
    using seals(2) e1 by (simp add: memfd_write_room_def Let_def u sn t m2_def)
  have size: "mfd_size m2 = max (mfd_size mfd) ?n" using f(9) e1 by (auto simp: m2_def)
  have data: "mfd_data m2 i = (if i < mfd_size mfd then mfd_data mfd i else 0)" if "i < mfd_size m2" for i
    using f(7,8) [of i] that by (auto simp: m2_def split: if_splits)
  have "mfd' = m2 \<lparr> mfd_data := memfd_store off buf (mfd_data m2), mfd_mtime := nanotime M \<rparr>" "e = None" "off' = (if update then ?n else off)"
    using r seals(1) off(1) by (auto simp: memfd_write_def room io_full_def split: if_splits)
  then show ?thesis using size data by (auto simp: memfd_store_def)
qed

text \<open>
  C15: what is written is read back. A write that fits in \<^verbatim>\<open>off_t\<close> to a file whose seals allow it
  stores its bytes, extends the file to cover them, fills a gap with zeroes and changes no other
  byte; reading the same range returns the bytes written.
\<close>

theorem memfd_write_read:
  assumes "0 < PAGE_SIZE M" "memfd_ok M mfd" "mfd_seals mfd AND F_SEAL_ANY_WRITE M = 0" "mfd_seals mfd AND F_SEAL_GROW M = 0"
    and "0 \<le> off" "off + int (length buf) < 2 ^ 63"
    and "memfd_write M io_full None off buf update mfd = (e, off', mfd')"
  shows "e = None \<and> mfd_size mfd' = max (mfd_size mfd) (off + int (length buf)) \<and>
    fst (snd (memfd_read M io_full off (length buf) update' mfd')) = buf \<and>
    (\<forall>i. 0 \<le> i \<and> i < mfd_size mfd' \<and> \<not> (off \<le> i \<and> i < off + int (length buf)) \<longrightarrow>
      mfd_data mfd' i = (if i < mfd_size mfd then mfd_data mfd i else 0))"
proof -
  have "0 \<le> mfd_size mfd" using assms(2) by (simp add: memfd_ok_def)
  note w = write_full [OF assms(1,3-6) this assms(7)]
  have "fst (snd (memfd_read M io_full off (length buf) update' mfd')) = buf"
  proof (cases "buf = []")
    case True
    then show ?thesis by (simp add: memfd_read_def Let_def io_full_def)
  next
    case False
    then have "0 < length buf" by simp
    then have lt: "off + int (length buf) \<le> mfd_size mfd'" "off < mfd_size mfd'" using w by linarith+
    then have "min (length buf) (nat (mfd_size mfd' - off)) = length buf" by auto
    moreover have "map (\<lambda>i. mfd_data mfd' (off + int i)) [0..<length buf] = buf"
      using w lt(1) assms(5) by (intro nth_equalityI) auto
    ultimately show ?thesis using lt(2) assms(5) by (simp add: memfd_read_def Let_def io_full_def)
  qed
  then show ?thesis using w by auto
qed

subsection \<open>Witnesses\<close>

definition sample_memfd_env :: memfd_env where
  "sample_memfd_env = \<lparr> PAGE_SIZE = 4096, nanotime = 7, F_SEAL_SEAL = 1, F_SEAL_SHRINK = 2, F_SEAL_GROW = 4, F_SEAL_WRITE = 8,
    F_SEAL_FUTURE_WRITE = 16, MFD_CLOEXEC = 1, MFD_CLOFORK = 4, MFD_ALLOW_SEALING = 2 \<rparr>"

definition sample_memfd :: memfd where
  "sample_memfd = \<lparr> mfd_name = ''memfd:x'', mfd_size = 2, mfd_data = \<lambda>i. if i = 0 then 65 else 66, uo_refs = 1, mfd_maps = [], mfd_seals = 0,
    mfd_btime = 0, mfd_atime = 0, mfd_mtime = 0 \<rparr>"

lemma sample_memfd_ok: "memfd_ok sample_memfd_env (sample_memfd \<lparr> mfd_seals := x \<rparr>) \<longleftrightarrow> x AND NOT 31 = 0"
  by (simp add: memfd_ok_def sample_memfd_def MFD_KNOWN_SEALS_def sample_memfd_env_def)

text \<open>A file is created, sealed against writing, and then a writable shared mapping is refused.\<close>

theorem memfd_well_formed_witness:
  "\<exists>fd f a b mfd. sys_memfd_create sample_memfd_env 2 (Inr ''x'') (Inr 3) = Inr (fd, f, a, b) \<and> f_memfd f = Some mfd \<and>
    memfd_ok sample_memfd_env (memfd_run sample_memfd_env 1024 [Op_truncate None 4096, Op_fcntl (F_ADD_SEALS 8), Op_mmap 0 4096 True False] mfd)"
proof -
  have "\<exists>r. sys_memfd_create sample_memfd_env 2 (Inr ''x'') (Inr 3) = Inr r"
    unfolding sys_memfd_create_def by (simp add: sample_memfd_env_def Let_def) (rule exI [of _ False], simp)
  then obtain fd f a b where c: "sys_memfd_create sample_memfd_env 2 (Inr ''x'') (Inr 3) = Inr (fd, f, a, b)" by (metis prod_cases4)
  have "0 < PAGE_SIZE sample_memfd_env" by (simp add: sample_memfd_env_def)
  moreover have "list_all op_typed [Op_truncate None 4096, Op_fcntl (F_ADD_SEALS 8), Op_mmap 0 4096 True False]" by simp
  ultimately show ?thesis using memfd_well_formed [OF _ _ c, of "[Op_truncate None 4096, Op_fcntl (F_ADD_SEALS 8), Op_mmap 0 4096 True False]" 1024] c by blast
qed

text \<open>A file sealed against writing and shrinking keeps its two bytes.\<close>

theorem memfd_seals_binding_witness:
  "mfd_data (memfd_run sample_memfd_env 1024 [Op_write io_full None 0 [1, 2], Op_truncate None 0] (sample_memfd \<lparr> mfd_seals := 10 \<rparr>)) 1 = 66"
proof -
  have "0 < PAGE_SIZE sample_memfd_env" by (simp add: sample_memfd_env_def)
  moreover have "memfd_ok sample_memfd_env (sample_memfd \<lparr> mfd_seals := 10 \<rparr>)" unfolding sample_memfd_ok by simp
  ultimately have "seals_kept sample_memfd_env (sample_memfd \<lparr> mfd_seals := 10 \<rparr>)
      (memfd_run sample_memfd_env 1024 [Op_write io_full None 0 [1, 2], Op_truncate None 0] (sample_memfd \<lparr> mfd_seals := 10 \<rparr>))"
    by (rule memfd_seals_binding) simp
  then show ?thesis by (simp add: seals_kept_def sample_memfd_env_def sample_memfd_def)
qed

text \<open>Writing beyond the end: the gap is zero and the bytes read back.\<close>

theorem memfd_write_read_witness:
  "let mfd' = snd (snd (memfd_write sample_memfd_env io_full None 5 [1, 2] True sample_memfd))
   in fst (snd (memfd_read sample_memfd_env io_full 5 2 True mfd')) = [1, 2] \<and> mfd_size mfd' = 7 \<and> mfd_data mfd' 3 = 0"
proof -
  obtain e off' mfd' where r: "memfd_write sample_memfd_env io_full None 5 [1, 2] True sample_memfd = (e, off', mfd')" by (metis prod_cases3)
  have 1: "0 < PAGE_SIZE sample_memfd_env" by (simp add: sample_memfd_env_def)
  have "sample_memfd = sample_memfd \<lparr> mfd_seals := 0 \<rparr>" by (simp add: sample_memfd_def)
  then have 2: "memfd_ok sample_memfd_env sample_memfd" using sample_memfd_ok [of 0] by simp
  have 3: "mfd_seals sample_memfd = 0" "mfd_size sample_memfd = 2" by (simp_all add: sample_memfd_def)
  note w = memfd_write_read [OF 1 2, of 5 "[1, 2]" True e off' mfd' True]
  show ?thesis using w r 3 by (simp add: numeral_2_eq_2)
qed

end
