(* ===== verification/S2idle.thy ===== *)
theory S2idle
  imports Prelude
begin

text \<open>
  Suspending every mounted file system as one session, \<^verbatim>\<open>kernel/kern/vfs_s2idle.c\<close>: the gate that
  excludes mount operations, finding the file system that backs a mount, and the session itself
  with its rollback.

  Mounts, threads and update mutexes are numbers. The file systems and the mount list are
  arguments, \<open>vfs_ops\<close>: what the iterator delivers (\<open>None\<close> for a mount it had to skip), and the
  results of \<^verbatim>\<open>vfs_trybusy\<close>, \<^verbatim>\<open>vfs_suspend\<close>, \<^verbatim>\<open>VFS_SUSPENDCTL\<close> and \<^verbatim>\<open>VFS_SYNC\<close> for each mount. A call
  that succeeds has its effect on the state, one that fails has none. The trace of the calls is
  part of the state. Memory is allocated with \<^verbatim>\<open>KM_SLEEP\<close> and never fails; the check of the array's
  size against \<^verbatim>\<open>SIZE_MAX\<close> is kept.
\<close>

section \<open>State\<close>

record vfs_ops =
  mountlist :: "nat option list"
  vfs_trybusy :: "nat \<Rightarrow> errno option"
  vfs_suspend :: "nat \<Rightarrow> errno option"
  vfs_suspendctl :: "nat \<Rightarrow> errno option"
  vfs_sync :: "nat \<Rightarrow> errno option"
  SIZE_MAX :: nat
  sizeof_mount :: nat

datatype vfs_event = Suspended nat | Synced nat | Resumed nat

record vfs =
  s2_ready :: bool
  s2_mountops :: nat
  s2_owner :: "nat option"
  mnt_lower :: "nat \<Rightarrow> nat option"
  mnt_updating :: "nat \<Rightarrow> nat option"
  mnt_async :: "nat \<Rightarrow> bool"
  mnt_busy :: "nat \<Rightarrow> nat"
  mutex_held :: "nat \<Rightarrow> bool"
  fs_suspended :: "nat \<Rightarrow> bool"
  suspend_lock :: bool
  vfs_trace :: "vfs_event list"

record vfs_s2idle_mount =
  s_mp :: nat
  s_suspend_mp :: "nat option"
  s_suspended :: bool
  s_global_lock :: bool
  s_updating_held :: bool

section \<open>The gate\<close>

definition vfs_s2idle_init :: "vfs \<Rightarrow> vfs" where
  "vfs_s2idle_init v = v \<lparr> s2_ready := True \<rparr>"

definition vfs_s2idle_mount_enter :: "vfs_ops \<Rightarrow> vfs \<Rightarrow> errno option \<times> vfs" where
  "vfs_s2idle_mount_enter V v =
    (if \<not> s2_ready v then (Some ENXIO, v)
     else if s2_owner v \<noteq> None \<or> s2_mountops v = SIZE_MAX V then (Some EBUSY, v)
     else (None, v \<lparr> s2_mountops := s2_mountops v + 1 \<rparr>))"

definition vfs_s2idle_mount_exit :: "vfs \<Rightarrow> vfs" where
  "vfs_s2idle_mount_exit v = v \<lparr> s2_mountops := s2_mountops v - 1 \<rparr>"

definition vfs_s2idle_barrier_enter :: "nat \<Rightarrow> vfs \<Rightarrow> errno option \<times> vfs" where
  "vfs_s2idle_barrier_enter curlwp v =
    (if \<not> s2_ready v then (Some ENXIO, v)
     else if s2_owner v \<noteq> None \<or> s2_mountops v \<noteq> 0 then (Some EBUSY, v)
     else (None, v \<lparr> s2_owner := Some curlwp \<rparr>))"

definition vfs_s2idle_barrier_exit :: "vfs \<Rightarrow> vfs" where
  "vfs_s2idle_barrier_exit v = v \<lparr> s2_owner := None \<rparr>"

section \<open>The file system behind a mount\<close>

text \<open>
  The first loop of \<^verbatim>\<open>vfs_s2idle_canonical_mount\<close>, two pointers at different speeds, which ends
  early on a cycle, and the second, which follows the chain to its end. Neither is known to end a
  priori. \<open>None\<close> in the result of the functions is a loop that does not return.
\<close>

definition step_lower :: "(nat \<Rightarrow> nat option) \<Rightarrow> nat option \<Rightarrow> nat option" where
  "step_lower lower m = Option.bind m lower"

partial_function (option) cycle_loop :: "(nat \<Rightarrow> nat option) \<Rightarrow> nat option \<Rightarrow> nat option \<Rightarrow> bool option" where
  "cycle_loop lower slow fast =
    (if step_lower lower fast = None then Some False
     else
       let slow = step_lower lower slow; fast = step_lower lower (step_lower lower fast)
       in if slow = fast then Some True else cycle_loop lower slow fast)"

partial_function (option) bottom_loop :: "(nat \<Rightarrow> nat option) \<Rightarrow> nat \<Rightarrow> nat option" where
  "bottom_loop lower mp = (case lower mp of None \<Rightarrow> Some mp | Some m \<Rightarrow> bottom_loop lower m)"

definition vfs_s2idle_canonical_mount :: "vfs \<Rightarrow> nat \<Rightarrow> nat option option" where
  "vfs_s2idle_canonical_mount v mp =
    (case cycle_loop (mnt_lower v) (Some mp) (Some mp) of
       None \<Rightarrow> None
     | Some True \<Rightarrow> Some None
     | Some False \<Rightarrow> map_option Some (bottom_loop (mnt_lower v) mp))"

section \<open>The session\<close>

definition vfs_s2idle_has_mount :: "vfs_s2idle_mount list \<Rightarrow> nat \<Rightarrow> bool" where
  "vfs_s2idle_has_mount mounts mp \<longleftrightarrow> list_ex (\<lambda>e. s_mp e = mp) mounts"

definition vfs_s2idle_same_updater :: "vfs \<Rightarrow> vfs_s2idle_mount list \<Rightarrow> nat \<Rightarrow> bool" where
  "vfs_s2idle_same_updater v mounts index \<longleftrightarrow>
    list_ex (\<lambda>i. i \<noteq> index \<and> s_updating_held (mounts ! i) \<and>
      mnt_updating v (s_mp (mounts ! i)) = mnt_updating v (s_mp (mounts ! index))) [0..<length mounts]"

primrec vfs_s2idle_unlock_updates :: "vfs_s2idle_mount list \<Rightarrow> vfs \<Rightarrow> vfs" where
  "vfs_s2idle_unlock_updates [] v = v"
| "vfs_s2idle_unlock_updates (e # es) v = vfs_s2idle_unlock_updates es
    (if s_updating_held e then
       case mnt_updating v (s_mp e) of None \<Rightarrow> v | Some u \<Rightarrow> v \<lparr> mutex_held := (mutex_held v)(u := False) \<rparr>
     else v)"

definition fs_resume :: "nat \<Rightarrow> vfs \<Rightarrow> vfs" where
  "fs_resume mp v = v \<lparr> fs_suspended := (fs_suspended v)(mp := False), vfs_trace := vfs_trace v @ [Resumed mp] \<rparr>"

primrec resume_ctl :: "vfs_s2idle_mount list \<Rightarrow> vfs \<Rightarrow> vfs" where
  "resume_ctl [] v = v"
| "resume_ctl (e # es) v = resume_ctl es (if \<not> s_suspended e \<or> s_global_lock e then v else fs_resume (the (s_suspend_mp e)) v)"

primrec resume_global :: "vfs_s2idle_mount list \<Rightarrow> vfs \<Rightarrow> vfs" where
  "resume_global [] v = v"
| "resume_global (e # es) v = resume_global es
    (if \<not> s_suspended e \<or> \<not> s_global_lock e then v else (fs_resume (the (s_suspend_mp e)) v) \<lparr> suspend_lock := False \<rparr>)"

definition vfs_s2idle_resume_suspended :: "vfs_s2idle_mount list \<Rightarrow> vfs \<Rightarrow> vfs" where
  "vfs_s2idle_resume_suspended mounts v = resume_global mounts (resume_ctl mounts v)"

primrec unbusy_all :: "vfs_s2idle_mount list \<Rightarrow> vfs \<Rightarrow> vfs" where
  "unbusy_all [] v = v"
| "unbusy_all (e # es) v = unbusy_all es (v \<lparr> mnt_busy := (mnt_busy v)(s_mp e := mnt_busy v (s_mp e) - 1) \<rparr>)"

text \<open>The mounts the iterator delivers, each held busy; \<open>capacity\<close> is the array's.\<close>

definition session_entry :: "nat \<Rightarrow> vfs_s2idle_mount" where
  "session_entry mp = \<lparr> s_mp = mp, s_suspend_mp = None, s_suspended = False, s_global_lock = False, s_updating_held = False \<rparr>"

fun collect :: "vfs_ops \<Rightarrow> nat option list \<Rightarrow> nat \<Rightarrow> vfs_s2idle_mount list \<Rightarrow> vfs \<Rightarrow> errno option \<times> vfs_s2idle_mount list \<times> vfs" where
  "collect V [] capacity mounts v = (None, mounts, v)"
| "collect V (None # _) capacity mounts v = (Some EBUSY, mounts, v)"
| "collect V (Some mp # its) capacity mounts v =
    (let newcapacity = (if capacity \<noteq> 0 then capacity * 2 mod (SIZE_MAX V + 1) else 16);
         full = (length mounts = capacity)
     in if full \<and> (newcapacity < capacity \<or> newcapacity > SIZE_MAX V div sizeof_mount V) then (Some ENOMEM, mounts, v)
        else case vfs_trybusy V mp of
          Some e \<Rightarrow> (Some e, mounts, v)
        | None \<Rightarrow> collect V its (if full then newcapacity else capacity) (mounts @ [session_entry mp])
            (v \<lparr> mnt_busy := (mnt_busy v)(mp := mnt_busy v mp + 1) \<rparr>))"

text \<open>The backing file system of every mount, which must be a mount of the session itself.\<close>

function canonicalize :: "nat \<Rightarrow> vfs_s2idle_mount list \<Rightarrow> vfs \<Rightarrow> (errno option \<times> vfs_s2idle_mount list) option" where
  "canonicalize i mounts v =
    (if i < length mounts then
       case vfs_s2idle_canonical_mount v (s_mp (mounts ! i)) of
         None \<Rightarrow> None
       | Some None \<Rightarrow> Some (Some ELOOP, mounts)
       | Some (Some c) \<Rightarrow>
           let mounts = mounts[i := (mounts ! i) \<lparr> s_suspend_mp := Some c \<rparr>]
           in if \<not> vfs_s2idle_has_mount mounts c then Some (Some EBUSY, mounts) else canonicalize (i + 1) mounts v
     else Some (None, mounts))"
  by pat_completeness auto

termination canonicalize
  by (relation "measure (\<lambda>(i, mounts, v). length mounts - i)") auto

declare canonicalize.simps [simp del]

primrec admit_updates :: "nat \<Rightarrow> vfs_s2idle_mount list \<Rightarrow> vfs \<Rightarrow> errno option \<times> vfs_s2idle_mount list \<times> vfs" where
  "admit_updates 0 mounts v = (None, mounts, v)"
| "admit_updates (Suc i) mounts v =
    (if vfs_s2idle_same_updater v mounts i then admit_updates i mounts v
     else case mnt_updating v (s_mp (mounts ! i)) of
       None \<Rightarrow> (Some EBUSY, mounts, v)
     | Some u \<Rightarrow>
         if mutex_held v u then (Some EBUSY, mounts, v)
         else admit_updates i (mounts[i := (mounts ! i) \<lparr> s_updating_held := True \<rparr>]) (v \<lparr> mutex_held := (mutex_held v)(u := True) \<rparr>))"

primrec sync_aliases :: "vfs_ops \<Rightarrow> nat \<Rightarrow> nat \<Rightarrow> vfs_s2idle_mount list \<Rightarrow> vfs \<Rightarrow> errno option \<times> vfs" where
  "sync_aliases V c 0 mounts v = (None, v)"
| "sync_aliases V c (Suc j) mounts v =
    (if s_suspend_mp (mounts ! j) \<noteq> Some c then sync_aliases V c j mounts v
     else
       let mp = s_mp (mounts ! j); asyncflag = mnt_async v mp;
           v = v \<lparr> mnt_async := (mnt_async v)(mp := False) \<rparr>;
           error = vfs_sync V mp;
           v = (if error = None then v \<lparr> vfs_trace := vfs_trace v @ [Synced mp] \<rparr> else v);
           v = v \<lparr> mnt_async := (mnt_async v)(mp := mnt_async v mp \<or> asyncflag) \<rparr>
       in if error \<noteq> None then (error, v) else sync_aliases V c j mounts v)"

primrec suspend_loop :: "vfs_ops \<Rightarrow> nat \<Rightarrow> bool \<Rightarrow> vfs_s2idle_mount list \<Rightarrow> vfs \<Rightarrow> errno option \<times> vfs_s2idle_mount list \<times> vfs" where
  "suspend_loop V 0 global_held mounts v = (None, mounts, v)"
| "suspend_loop V (Suc i) global_held mounts v =
    (let e = mounts ! i; mp = s_mp e
     in if s_suspend_mp e \<noteq> Some mp then suspend_loop V i global_held mounts v
        else case (if global_held then vfs_suspendctl V mp else vfs_suspend V mp) of
          Some err \<Rightarrow> (Some err, mounts, v)
        | None \<Rightarrow>
            let v = v \<lparr> fs_suspended := (fs_suspended v)(mp := True), vfs_trace := vfs_trace v @ [Suspended mp],
                       suspend_lock := (if global_held then suspend_lock v else True) \<rparr>;
                mounts = mounts[i := e \<lparr> s_suspended := True, s_global_lock := (s_global_lock e \<or> \<not> global_held) \<rparr>];
                (error, v) = sync_aliases V mp (length mounts) mounts v
            in if error \<noteq> None then (error, mounts, v) else suspend_loop V i True mounts v)"

definition session_fail :: "vfs_s2idle_mount list \<Rightarrow> vfs \<Rightarrow> vfs" where
  "session_fail mounts v = vfs_s2idle_barrier_exit (unbusy_all mounts (vfs_s2idle_unlock_updates mounts v))"

text \<open>The result is the error, the session, and the state; \<open>None\<close> is a call that does not return.\<close>

definition vfs_suspend_all :: "vfs_ops \<Rightarrow> nat \<Rightarrow> vfs \<Rightarrow> (errno option \<times> vfs_s2idle_mount list \<times> vfs) option" where
  "vfs_suspend_all V curlwp v =
    (let (error, v) = vfs_s2idle_barrier_enter curlwp v
     in if error \<noteq> None then Some (error, [], v)
        else
          let (error, mounts, v) = collect V (mountlist V) 0 [] v
          in if error \<noteq> None then Some (error, [], session_fail mounts v)
             else if mounts = [] then Some (None, [], v)
             else case canonicalize 0 mounts v of
               None \<Rightarrow> None
             | Some (Some e, mounts) \<Rightarrow> Some (Some e, [], session_fail mounts v)
             | Some (None, mounts) \<Rightarrow>
                 let (error, mounts, v) = admit_updates (length mounts) mounts v
                 in if error \<noteq> None then Some (error, [], session_fail mounts v)
                    else
                      let (error, mounts, v) = suspend_loop V (length mounts) False mounts v
                      in if error \<noteq> None then Some (error, [], session_fail mounts (vfs_s2idle_resume_suspended mounts v))
                         else Some (None, mounts, v))"

definition vfs_resume_all :: "vfs_s2idle_mount list \<Rightarrow> vfs \<Rightarrow> vfs" where
  "vfs_resume_all mounts v =
    (if mounts = [] then vfs_s2idle_barrier_exit v
     else vfs_s2idle_barrier_exit (unbusy_all mounts (vfs_s2idle_unlock_updates mounts (vfs_s2idle_resume_suspended mounts v))))"

section \<open>Finding the backing file system terminates\<close>

abbreviation chain :: "(nat \<Rightarrow> nat option) \<Rightarrow> nat \<Rightarrow> nat \<Rightarrow> nat option" where
  "chain lower mp i \<equiv> (step_lower lower ^^ i) (Some mp)"

lemma chain_None: "chain lower mp i = None \<Longrightarrow> i \<le> j \<Longrightarrow> chain lower mp j = None"
proof (induction j)
  case (Suc j)
  then show ?case by (cases "i = Suc j") (auto simp: step_lower_def)
qed simp

lemma chain_shift: "chain lower mp a = chain lower mp b \<Longrightarrow> chain lower mp (a + k) = chain lower mp (b + k)"
  by (induction k) simp_all

text \<open>A chain that ends never repeats.\<close>

lemma chain_no_repeat:
  assumes "chain lower mp n = None" "a < b" "chain lower mp a \<noteq> None"
  shows "chain lower mp a \<noteq> chain lower mp b"
proof
  assume eq: "chain lower mp a = chain lower mp b"
  define m where "m = (LEAST n. chain lower mp n = None)"
  have m: "chain lower mp m = None" "\<And>j. j < m \<Longrightarrow> chain lower mp j \<noteq> None"
    unfolding m_def using LeastI [of "\<lambda>n. chain lower mp n = None", OF assms(1)] not_less_Least by auto
  have "b < m" using m(1) chain_None [OF m(1), where j = b] eq assms(3) by (cases "m \<le> b") auto
  then have "chain lower mp (a + (m - b)) = None" using chain_shift [OF eq, where k = "m - b"] m(1) by simp
  moreover have "a + (m - b) < m" using assms(2) \<open>b < m\<close> by linarith
  ultimately show False using m(2) by blast
qed

lemma cycle_loop_step:
  "cycle_loop lower (chain lower mp i) (chain lower mp (2 * i)) =
    (if chain lower mp (2 * i + 1) = None then Some False
     else if chain lower mp (i + 1) = chain lower mp (2 * (i + 1)) then Some True
     else cycle_loop lower (chain lower mp (i + 1)) (chain lower mp (2 * (i + 1))))"
  by (subst cycle_loop.simps) (simp add: Let_def)

lemma cycle_loop_ends:
  assumes "chain lower mp n = None"
  shows "cycle_loop lower (chain lower mp i) (chain lower mp (2 * i)) = Some False"
proof (induction "n - i" arbitrary: i rule: less_induct)
  case less
  show ?case
  proof (cases "chain lower mp (2 * i + 1) = None")
    case True
    then show ?thesis by (subst cycle_loop_step) (simp only: if_True simp_thms)
  next
    case False
    then have "2 * i + 1 < n" using assms chain_None [where lower = lower and mp = mp and i = n and j = "2 * i + 1"] by (cases "n \<le> 2 * i + 1") auto
    moreover have "chain lower mp (i + 1) \<noteq> None"
    proof
      assume "chain lower mp (i + 1) = None"
      from chain_None [OF this, where j = "2 * i + 1"] False show False by simp
    qed
    then have "chain lower mp (i + 1) \<noteq> chain lower mp (2 * (i + 1))" using chain_no_repeat [OF assms, where a = "i + 1" and b = "2 * (i + 1)"] by simp
    moreover have "n - (i + 1) < n - i" using \<open>2 * i + 1 < n\<close> by linarith
    note less [OF this]
    ultimately show ?thesis using False by (subst cycle_loop_step) (simp only: if_False simp_thms)
  qed
qed

lemma chain_meets:
  assumes fin: "finite {m. lower m \<noteq> None}" and inf: "\<And>n. chain lower mp n \<noteq> None"
  shows "\<exists>i>0. chain lower mp i = chain lower mp (2 * i)"
proof -
  have "chain lower mp n \<in> Some ` {m. lower m \<noteq> None}" for n
    using inf [of n] inf [of "Suc n"] by (cases "chain lower mp n") (auto simp: step_lower_def)
  then have "finite (range (chain lower mp))" using fin by (meson finite_imageI finite_subset image_subset_iff)
  then have "\<not> inj (chain lower mp)" using finite_imageD infinite_UNIV_nat by blast
  then obtain a b where ab: "a < b" "chain lower mp a = chain lower mp b" unfolding inj_def by (metis linorder_less_linear)
  have per: "chain lower mp (j + k * (b - a)) = chain lower mp j" if "a \<le> j" for j k
  proof (induction k)
    case (Suc k)
    have "chain lower mp (a + (j - a + k * (b - a))) = chain lower mp (b + (j - a + k * (b - a)))" by (rule chain_shift [OF ab(2)])
    moreover have "a + (j - a + k * (b - a)) = j + k * (b - a)" "b + (j - a + k * (b - a)) = j + Suc k * (b - a)" using that ab(1) by auto
    ultimately show ?case using Suc by simp
  qed simp
  define i where "i = (a + 1) * (b - a)"
  have "(a + 1) * 1 \<le> i" unfolding i_def using ab(1) by (intro mult_le_mono) simp_all
  then have "a \<le> i" "0 < i" by simp_all
  moreover have "chain lower mp (2 * i) = chain lower mp i" using per [OF \<open>a \<le> i\<close>, where k = "a + 1"] unfolding i_def [symmetric] by (simp only: mult_2)
  ultimately show ?thesis by metis
qed

lemma cycle_loop_meets:
  assumes inf: "\<And>n. chain lower mp n \<noteq> None" and "j > i" "chain lower mp j = chain lower mp (2 * j)"
  shows "cycle_loop lower (chain lower mp i) (chain lower mp (2 * i)) = Some True"
  using assms(2)
proof (induction "j - i" arbitrary: i rule: less_induct)
  case less
  show ?case
  proof (cases "chain lower mp (i + 1) = chain lower mp (2 * (i + 1))")
    case True
    then show ?thesis using inf by (subst cycle_loop_step) (simp only: if_True if_False simp_thms)
  next
    case False
    then have "i + 1 < j" using less.prems assms(3) by (cases "i + 1 = j") auto
    then have "j - (i + 1) < j - i" by linarith
    from less.hyps [OF this \<open>i + 1 < j\<close>] show ?thesis
      using False inf by (subst cycle_loop_step) (simp only: if_False simp_thms)
  qed
qed

lemma bottom_loop_ends:
  assumes "chain lower mp n = None"
  shows "\<exists>i c. bottom_loop lower mp = Some c \<and> chain lower mp i = Some c \<and> lower c = None"
  using assms
proof (induction n arbitrary: mp)
  case (Suc n)
  show ?case
  proof (cases "lower mp")
    case None
    then have "bottom_loop lower mp = Some mp \<and> chain lower mp 0 = Some mp \<and> lower mp = None" by (simp add: bottom_loop.simps)
    then show ?thesis by blast
  next
    case (Some m)
    have sh: "chain lower mp (Suc i) = chain lower m i" for i by (simp add: funpow_swap1 step_lower_def Some)
    obtain i c where "bottom_loop lower m = Some c" "chain lower m i = Some c" "lower c = None" using Suc.IH [of m] Suc.prems sh by auto
    then have "bottom_loop lower mp = Some c \<and> chain lower mp (Suc i) = Some c \<and> lower c = None" unfolding sh by (simp add: bottom_loop.simps [of lower mp] Some)
    then show ?thesis by blast
  qed
qed simp

lemma canonical_mount_spec:
  assumes "finite {m. mnt_lower v m \<noteq> None}"
  shows "if \<exists>n. chain (mnt_lower v) mp n = None
    then \<exists>i c. vfs_s2idle_canonical_mount v mp = Some (Some c) \<and> chain (mnt_lower v) mp i = Some c \<and> mnt_lower v c = None
    else vfs_s2idle_canonical_mount v mp = Some None"
proof (cases "\<exists>n. chain (mnt_lower v) mp n = None")
  case True
  then obtain n where n: "chain (mnt_lower v) mp n = None" by blast
  have "cycle_loop (mnt_lower v) (Some mp) (Some mp) = Some False" using cycle_loop_ends [OF n, of 0] by simp
  moreover obtain i c where c: "bottom_loop (mnt_lower v) mp = Some c" "chain (mnt_lower v) mp i = Some c" "mnt_lower v c = None"
    using bottom_loop_ends [OF n] by blast
  ultimately have "vfs_s2idle_canonical_mount v mp = Some (Some c)" by (simp add: vfs_s2idle_canonical_mount_def)
  then show ?thesis unfolding if_P [OF True] using c by blast
next
  case False
  then have inf: "\<And>n. chain (mnt_lower v) mp n \<noteq> None" by metis
  from chain_meets [OF assms inf] obtain j where "0 < j" "chain (mnt_lower v) mp j = chain (mnt_lower v) mp (2 * j)" by blast
  from cycle_loop_meets [OF inf this] have "cycle_loop (mnt_lower v) (Some mp) (Some mp) = Some True" by simp
  then show ?thesis unfolding if_not_P [OF False] by (simp add: vfs_s2idle_canonical_mount_def)
qed

section \<open>What a session holds\<close>

text \<open>
  \<open>session_of v0 mounts v\<close>: \<open>v\<close> is \<open>v0\<close> with exactly what the entries of the session say added to it:
  a busy hold for each entry, the update mutexes marked as held, which were free, and the file
  systems marked as suspended. Only the trace is not accounted for.
\<close>

definition session_of :: "vfs \<Rightarrow> vfs_s2idle_mount list \<Rightarrow> vfs \<Rightarrow> bool" where
  "session_of v0 mounts v \<longleftrightarrow>
    (\<forall>m. mnt_busy v m = mnt_busy v0 m + count_list (map s_mp mounts) m) \<and>
    (\<forall>u. mutex_held v u \<longleftrightarrow> mutex_held v0 u \<or> (\<exists>e\<in>set mounts. s_updating_held e \<and> mnt_updating v0 (s_mp e) = Some u)) \<and>
    (\<forall>m. fs_suspended v m \<longleftrightarrow> fs_suspended v0 m \<or> (\<exists>e\<in>set mounts. s_suspended e \<and> s_suspend_mp e = Some m)) \<and>
    (suspend_lock v \<longleftrightarrow> suspend_lock v0 \<or> (\<exists>e\<in>set mounts. s_suspended e \<and> s_global_lock e)) \<and>
    s2_ready v = s2_ready v0 \<and> s2_mountops v = s2_mountops v0 \<and> s2_owner v = s2_owner v0 \<and>
    mnt_lower v = mnt_lower v0 \<and> mnt_updating v = mnt_updating v0 \<and> mnt_async v = mnt_async v0 \<and>
    (\<forall>e\<in>set mounts. s_updating_held e \<longrightarrow> (\<exists>u. mnt_updating v0 (s_mp e) = Some u \<and> \<not> mutex_held v0 u)) \<and>
    (\<forall>e\<in>set mounts. s_suspended e \<longrightarrow> s_suspend_mp e = Some (s_mp e)) \<and>
    (\<forall>e\<in>set mounts. s_global_lock e \<longrightarrow> s_suspended e)"

text \<open>Nothing is suspended, by anyone.\<close>

definition vfs_awake :: "vfs \<Rightarrow> bool" where
  "vfs_awake v \<longleftrightarrow> (\<forall>m. \<not> fs_suspended v m) \<and> \<not> suspend_lock v"

lemma unlock_updates_eq:
  "vfs_s2idle_unlock_updates es v = v \<lparr> mutex_held := \<lambda>u. mutex_held v u \<and> \<not> (\<exists>e\<in>set es. s_updating_held e \<and> mnt_updating v (s_mp e) = Some u) \<rparr>"
  by (induction es arbitrary: v) (auto simp: fun_eq_iff split: option.splits intro!: vfs.equality)

lemma unbusy_all_eq: "unbusy_all es v = v \<lparr> mnt_busy := \<lambda>m. mnt_busy v m - count_list (map s_mp es) m \<rparr>"
  by (induction es arbitrary: v) (auto simp: fun_eq_iff intro!: vfs.equality)

lemma resume_ctl_eq:
  "resume_ctl es v = v \<lparr> fs_suspended := \<lambda>m. fs_suspended v m \<and> \<not> (\<exists>e\<in>set es. s_suspended e \<and> \<not> s_global_lock e \<and> the (s_suspend_mp e) = m),
     vfs_trace := vfs_trace v @ map (\<lambda>e. Resumed (the (s_suspend_mp e))) (filter (\<lambda>e. s_suspended e \<and> \<not> s_global_lock e) es) \<rparr>"
  by (induction es arbitrary: v) (auto simp: fun_eq_iff fs_resume_def intro!: vfs.equality)

lemma resume_global_eq:
  "resume_global es v = v \<lparr> fs_suspended := \<lambda>m. fs_suspended v m \<and> \<not> (\<exists>e\<in>set es. s_suspended e \<and> s_global_lock e \<and> the (s_suspend_mp e) = m),
     suspend_lock := suspend_lock v \<and> \<not> (\<exists>e\<in>set es. s_suspended e \<and> s_global_lock e),
     vfs_trace := vfs_trace v @ map (\<lambda>e. Resumed (the (s_suspend_mp e))) (filter (\<lambda>e. s_suspended e \<and> s_global_lock e) es) \<rparr>"
  by (induction es arbitrary: v) (auto simp: fun_eq_iff fs_resume_def intro!: vfs.equality)

lemmas session_eqs = unlock_updates_eq unbusy_all_eq resume_ctl_eq resume_global_eq

lemma session_undo:
  assumes "session_of v0 mounts v" "vfs_awake v0"
  shows "\<exists>t. unbusy_all mounts (vfs_s2idle_unlock_updates mounts (vfs_s2idle_resume_suspended mounts v)) = v0 \<lparr> vfs_trace := t \<rparr>"
proof -
  let ?v = "unbusy_all mounts (vfs_s2idle_unlock_updates mounts (vfs_s2idle_resume_suspended mounts v))"
  have held: "\<not> mutex_held v0 u" if "e \<in> set mounts" "s_updating_held e" "mnt_updating v0 (s_mp e) = Some u" for e u
    using assms(1) that unfolding session_of_def by fastforce
  have "mutex_held ?v u = mutex_held v0 u" for u
    using assms(1) held unfolding vfs_s2idle_resume_suspended_def session_eqs session_of_def by simp blast
  moreover have "fs_suspended ?v m = fs_suspended v0 m" for m
    using assms unfolding vfs_s2idle_resume_suspended_def session_eqs session_of_def vfs_awake_def by simp (metis option.sel)
  moreover have "mnt_busy ?v m = mnt_busy v0 m" for m
    using assms(1) unfolding vfs_s2idle_resume_suspended_def session_eqs session_of_def by simp
  moreover have "suspend_lock ?v = suspend_lock v0"
    using assms unfolding vfs_s2idle_resume_suspended_def session_eqs session_of_def vfs_awake_def by simp blast
  ultimately have "mutex_held ?v = mutex_held v0" "fs_suspended ?v = fs_suspended v0" "mnt_busy ?v = mnt_busy v0" "suspend_lock ?v = suspend_lock v0"
    by (auto simp: fun_eq_iff)
  then have "?v = v0 \<lparr> vfs_trace := vfs_trace ?v \<rparr>"
    using assms(1) by (intro vfs.equality) (simp_all add: vfs_s2idle_resume_suspended_def session_eqs session_of_def)
  then show ?thesis by blast
qed

lemma session_undo_unsuspended:
  assumes "session_of v0 mounts v" "vfs_awake v0" "\<forall>e\<in>set mounts. \<not> s_suspended e"
  shows "\<exists>t. unbusy_all mounts (vfs_s2idle_unlock_updates mounts v) = v0 \<lparr> vfs_trace := t \<rparr>"
proof -
  have "vfs_s2idle_resume_suspended mounts v = v" using assms(3) unfolding vfs_s2idle_resume_suspended_def session_eqs by simp
  with session_undo [OF assms(1,2)] show ?thesis by simp
qed

lemma ex_list_update:
  assumes "i < length xs" "P (xs ! i) \<Longrightarrow> P x"
  shows "(\<exists>e\<in>set (xs[i := x]). P e) \<longleftrightarrow> P x \<or> (\<exists>e\<in>set xs. P e)"
proof
  assume "\<exists>e\<in>set (xs[i := x]). P e"
  then show "P x \<or> (\<exists>e\<in>set xs. P e)" using set_update_subset_insert [of xs i x] by auto
next
  assume "P x \<or> (\<exists>e\<in>set xs. P e)"
  then obtain j where j: "P x \<or> j < length xs \<and> P (xs ! j)" by (metis in_set_conv_nth)
  then show "\<exists>e\<in>set (xs[i := x]). P e"
  proof (cases "P x")
    case True
    then show ?thesis using assms(1) by (metis set_update_memI)
  next
    case False
    then have "j < length xs" "P (xs ! j)" "j \<noteq> i" using j assms(2) by auto
    then show ?thesis by (intro bexI [of _ "xs ! j"]) (auto simp: in_set_conv_nth intro!: exI [of _ j])
  qed
qed

lemma all_list_update: "i < length xs \<Longrightarrow> (\<forall>e\<in>set xs. P e) \<Longrightarrow> P x \<Longrightarrow> \<forall>e\<in>set (xs[i := x]). P e"
  using set_update_subset_insert [of xs i x] by auto

lemma map_update_same: "f x = f (xs ! i) \<Longrightarrow> map f (xs[i := x]) = map f xs"
  by (cases "i < length xs") (auto simp: map_update list_update_same_conv list_update_beyond)

lemma session_of_entry:
  "session_of v0 mounts v \<Longrightarrow> session_of v0 (mounts @ [session_entry mp]) (v \<lparr> mnt_busy := (mnt_busy v)(mp := mnt_busy v mp + 1) \<rparr>)"
  by (auto simp: session_of_def session_entry_def)

lemma collect_session:
  assumes "session_of v0 (map session_entry ps) v" "collect V its capacity (map session_entry ps) v = (err, ms, v')"
  shows "\<exists>qs. ms = map session_entry qs \<and> session_of v0 ms v' \<and> vfs_trace v' = vfs_trace v \<and> (err = None \<longrightarrow> map Some qs = map Some ps @ its)"
  using assms
proof (induction its arbitrary: capacity ps v)
  case (Cons it its)
  show ?case
  proof (cases it)
    case (Some mp)
    let ?v = "v \<lparr> mnt_busy := (mnt_busy v)(mp := mnt_busy v mp + 1) \<rparr>"
    have eq: "map session_entry ps @ [session_entry mp] = map session_entry (ps @ [mp])" by simp
    note s = session_of_entry [OF Cons.prems(1), of mp, unfolded eq]
    show ?thesis
    proof (cases "ms = map session_entry ps \<and> v' = v \<and> err \<noteq> None")
      case False
      then obtain c where "collect V its c (map session_entry (ps @ [mp])) ?v = (err, ms, v')"
        using Cons.prems(2) by (auto simp: Some Let_def split: if_splits option.splits)
      from Cons.IH [OF s this] show ?thesis by (auto simp: Some)
    qed (use Cons.prems(1) in auto)
  qed (use Cons.prems in auto)
qed auto

text \<open>Finding the backing file systems changes nothing but where the entries point.\<close>

lemma session_of_suspend_mp:
  assumes "session_of v0 mounts v" "i < length mounts" "\<forall>e\<in>set mounts. \<not> s_suspended e"
  shows "session_of v0 (mounts[i := (mounts ! i) \<lparr> s_suspend_mp := c \<rparr>]) v"
proof -
  let ?e = "(mounts ! i) \<lparr> s_suspend_mp := c \<rparr>"
  have m: "map s_mp (mounts[i := ?e]) = map s_mp mounts" by (rule map_update_same) simp
  have n: "\<not> s_suspended (mounts ! i)" "mounts ! i \<in> set mounts" using assms by auto
  have h: "(\<exists>e\<in>set (mounts[i := ?e]). s_updating_held e \<and> mnt_updating v0 (s_mp e) = Some u) \<longleftrightarrow>
      (\<exists>e\<in>set mounts. s_updating_held e \<and> mnt_updating v0 (s_mp e) = Some u)" for u
    using n(2) by (subst ex_list_update [OF assms(2)]) auto
  have u: "\<forall>e\<in>set (mounts[i := ?e]). \<not> s_suspended e" by (rule all_list_update [OF assms(2,3)]) (use n in simp)
  have g: "\<forall>e\<in>set (mounts[i := ?e]). \<not> s_global_lock e" "\<forall>e\<in>set (mounts[i := ?e]). s_updating_held e \<longrightarrow> (\<exists>u. mnt_updating v0 (s_mp e) = Some u \<and> \<not> mutex_held v0 u)"
    using assms(1,3) n by (intro all_list_update [OF assms(2)]; auto simp: session_of_def)+
  show ?thesis using assms(1,3) u g unfolding session_of_def m h by blast
qed

text \<open>
  The entries that finding, admitting and suspending may change are the bookkeeping fields: two
  sessions with the same mounts.
\<close>

lemma canonicalize_session:
  assumes "session_of v0 mounts v" "\<forall>e\<in>set mounts. \<not> s_suspended e" "canonicalize i mounts v = Some (err, ms)"
  shows "session_of v0 ms v \<and> (\<forall>e\<in>set ms. \<not> s_suspended e) \<and> map s_mp ms = map s_mp mounts"
  using assms
proof (induction i mounts v arbitrary: err rule: canonicalize.induct)
  case (1 i mounts v)
  show ?case
  proof (cases "\<exists>c. i < length mounts \<and> vfs_s2idle_canonical_mount v (s_mp (mounts ! i)) = Some (Some c)")
    case True
    then obtain c where c: "i < length mounts" "vfs_s2idle_canonical_mount v (s_mp (mounts ! i)) = Some (Some c)" by blast
    let ?ms = "mounts[i := (mounts ! i) \<lparr> s_suspend_mp := Some c \<rparr>]"
    have s: "session_of v0 ?ms v" by (rule session_of_suspend_mp [OF 1(2) c(1) 1(3)])
    have u: "\<forall>e\<in>set ?ms. \<not> s_suspended e" using 1(3) c(1) by (intro all_list_update) auto
    have m: "map s_mp ?ms = map s_mp mounts" by (rule map_update_same) simp
    show ?thesis
    proof (cases "vfs_s2idle_has_mount ?ms c")
      case True
      then have "canonicalize (i + 1) ?ms v = Some (err, ms)" using 1(4) c by (subst (asm) canonicalize.simps) (simp add: Let_def)
      with 1(1) [OF c(1,2) refl refl] True s u m show ?thesis by simp
    next
      case False
      then have "ms = ?ms" using 1(4) c by (subst (asm) canonicalize.simps) (simp add: Let_def)
      then show ?thesis using s u m by simp
    qed
  next
    case False
    then have "ms = mounts" using 1(4) by (subst (asm) canonicalize.simps) (auto split: if_splits option.splits)
    then show ?thesis using 1(2,3) by simp
  qed
qed

text \<open>On success every entry points to its mount's backing file system, which is in the session.\<close>

lemma canonicalize_next:
  assumes "canonicalize i mounts v = Some (err, ms)"
  shows "ms = mounts \<and> (err = None \<longrightarrow> \<not> i < length mounts) \<or>
    (\<exists>c. i < length mounts \<and> vfs_s2idle_canonical_mount v (s_mp (mounts ! i)) = Some (Some c) \<and>
      (ms = mounts[i := (mounts ! i) \<lparr> s_suspend_mp := Some c \<rparr>] \<and> err \<noteq> None \<or>
       vfs_s2idle_has_mount (mounts[i := (mounts ! i) \<lparr> s_suspend_mp := Some c \<rparr>]) c \<and>
       canonicalize (i + 1) (mounts[i := (mounts ! i) \<lparr> s_suspend_mp := Some c \<rparr>]) v = Some (err, ms)))"
  using assms by (subst (asm) canonicalize.simps) (auto simp: Let_def split: if_splits option.splits)

lemma canonicalize_prefix:
  "canonicalize i mounts v = Some (err, ms) \<Longrightarrow> map s_mp ms = map s_mp mounts \<and> (\<forall>k<i. ms ! k = mounts ! k)"
proof (induction "length mounts - i" arbitrary: i mounts rule: less_induct)
  case less
  from canonicalize_next [OF less.prems] consider "ms = mounts"
    | c where "i < length mounts" "ms = mounts[i := (mounts ! i) \<lparr> s_suspend_mp := Some c \<rparr>]"
    | c where "i < length mounts" "canonicalize (i + 1) (mounts[i := (mounts ! i) \<lparr> s_suspend_mp := Some c \<rparr>]) v = Some (err, ms)"
    by blast
  then show ?case
  proof cases
    case 3
    then show ?thesis using less.hyps [OF _ 3(2)] by (simp add: map_update_same)
  qed (auto simp: map_update_same)
qed

lemma canonicalize_points:
  assumes "canonicalize i mounts v = Some (None, ms)" "i \<le> j" "j < length mounts"
  shows "\<exists>c. vfs_s2idle_canonical_mount v (s_mp (ms ! j)) = Some (Some c) \<and> s_suspend_mp (ms ! j) = Some c \<and> c \<in> s_mp ` set ms"
  using assms
proof (induction "length mounts - i" arbitrary: i mounts rule: less_induct)
  case less
  let ?ms = "\<lambda>c. mounts[i := (mounts ! i) \<lparr> s_suspend_mp := Some c \<rparr>]"
  from canonicalize_next [OF less.prems(1)] less.prems(2,3) obtain c where c: "i < length mounts"
      "vfs_s2idle_canonical_mount v (s_mp (mounts ! i)) = Some (Some c)"
      "vfs_s2idle_has_mount (?ms c) c" "canonicalize (i + 1) (?ms c) v = Some (None, ms)" by auto
  show ?case
  proof (cases "j = i")
    case True
    have "ms ! i = (mounts ! i) \<lparr> s_suspend_mp := Some c \<rparr>" using canonicalize_prefix [OF c(4)] c(1) by simp
    moreover have "c \<in> set (map s_mp ms)"
      using c(3) unfolding conjunct1 [OF canonicalize_prefix [OF c(4)]] vfs_s2idle_has_mount_def list_ex_iff by auto
    ultimately show ?thesis using c(2) True by simp
  next
    case False
    then show ?thesis using less.hyps [OF _ c(4)] c(1) less.prems(2,3) by simp
  qed
qed

lemma ex_list_update_same: "i < length xs \<Longrightarrow> P x = P (xs ! i) \<Longrightarrow> (\<exists>e\<in>set (xs[i := x]). P e) = (\<exists>e\<in>set xs. P e)"
  using nth_mem [of i xs] by (subst ex_list_update) auto

lemma session_of_held:
  assumes s: "session_of v0 mounts v" and i: "i < length mounts" and u: "mnt_updating v (s_mp (mounts ! i)) = Some u" and free: "\<not> mutex_held v u"
  shows "session_of v0 (mounts[i := (mounts ! i) \<lparr> s_updating_held := True \<rparr>]) (v \<lparr> mutex_held := (mutex_held v)(u := True) \<rparr>)"
proof -
  let ?e = "(mounts ! i) \<lparr> s_updating_held := True \<rparr>"
  have m: "map s_mp (mounts[i := ?e]) = map s_mp mounts" by (rule map_update_same) simp
  have u0: "mnt_updating v0 (s_mp (mounts ! i)) = Some u" "\<not> mutex_held v0 u" using s u free by (auto simp: session_of_def)
  have h: "(\<exists>e\<in>set (mounts[i := ?e]). s_updating_held e \<and> mnt_updating v0 (s_mp e) = Some w) \<longleftrightarrow>
      w = u \<or> (\<exists>e\<in>set mounts. s_updating_held e \<and> mnt_updating v0 (s_mp e) = Some w)" for w
    using u0 by (subst ex_list_update [OF i]) auto
  have same: "(\<exists>e\<in>set (mounts[i := ?e]). s_suspended e \<and> s_suspend_mp e = Some w) = (\<exists>e\<in>set mounts. s_suspended e \<and> s_suspend_mp e = Some w)"
    "(\<exists>e\<in>set (mounts[i := ?e]). s_suspended e \<and> s_global_lock e) = (\<exists>e\<in>set mounts. s_suspended e \<and> s_global_lock e)" for w
    by (rule ex_list_update_same [OF i], simp)+
  have all: "\<forall>e\<in>set (mounts[i := ?e]). s_updating_held e \<longrightarrow> (\<exists>u. mnt_updating v0 (s_mp e) = Some u \<and> \<not> mutex_held v0 u)"
    "\<forall>e\<in>set (mounts[i := ?e]). s_suspended e \<longrightarrow> s_suspend_mp e = Some (s_mp e)"
    "\<forall>e\<in>set (mounts[i := ?e]). s_global_lock e \<longrightarrow> s_suspended e"
    using s u0 i by (intro all_list_update [OF i]; simp add: session_of_def)+
  show ?thesis using s all unfolding session_of_def m h same by simp
qed

lemma admit_session:
  assumes "session_of v0 mounts v" "n \<le> length mounts" "admit_updates n mounts v = (err, ms, v')"
  shows "session_of v0 ms v' \<and> vfs_trace v' = vfs_trace v \<and> map s_mp ms = map s_mp mounts \<and>
    map s_suspend_mp ms = map s_suspend_mp mounts \<and> map s_suspended ms = map s_suspended mounts"
  using assms
proof (induction n arbitrary: mounts v)
  case (Suc n)
  show ?case
  proof (cases "\<exists>u. \<not> vfs_s2idle_same_updater v mounts n \<and> mnt_updating v (s_mp (mounts ! n)) = Some u \<and> \<not> mutex_held v u")
    case True
    then obtain u where u: "\<not> vfs_s2idle_same_updater v mounts n" "mnt_updating v (s_mp (mounts ! n)) = Some u" "\<not> mutex_held v u" by blast
    have "n < length mounts" using Suc.prems(2) by simp
    from Suc.IH [OF session_of_held [OF Suc.prems(1) this u(2,3)]] u Suc.prems(2,3) show ?thesis by (simp add: map_update_same)
  next
    case False
    then consider "ms = mounts \<and> v' = v" | "admit_updates n mounts v = (err, ms, v')"
      using Suc.prems(3) by (auto split: if_splits option.splits)
    then show ?thesis using Suc.IH [OF Suc.prems(1)] Suc.prems(1,2) by cases simp_all
  qed
qed simp

text \<open>Once an update mutex is held for an entry it stays held, and success holds one for every mount.\<close>

lemma admit_mono: "mutex_held v u \<Longrightarrow> admit_updates k mounts v = (err, ms, v') \<Longrightarrow> mutex_held v' u"
proof (induction k arbitrary: v mounts)
  case (Suc k)
  have "mutex_held (v \<lparr> mutex_held := (mutex_held v)(w := True) \<rparr>) u" for w using Suc.prems(1) by simp
  note IH = Suc.IH [OF this] Suc.IH [OF Suc.prems(1)]
  from Suc.prems show ?case by (auto split: if_splits option.splits dest: IH)
qed simp

lemma admit_held:
  assumes "session_of v0 mounts v" "n \<le> length mounts" "admit_updates n mounts v = (None, ms, v')" "j < n"
  shows "\<exists>u. mnt_updating v0 (s_mp (mounts ! j)) = Some u \<and> mutex_held v' u"
  using assms
proof (induction n arbitrary: mounts v)
  case (Suc n)
  let ?ms = "mounts[n := (mounts ! n) \<lparr> s_updating_held := True \<rparr>]"
  have up: "mnt_updating v = mnt_updating v0" using Suc.prems(1) by (simp add: session_of_def)
  show ?case
  proof (cases "vfs_s2idle_same_updater v mounts n")
    case True
    then obtain e where "e \<in> set mounts" "s_updating_held e" "mnt_updating v (s_mp e) = mnt_updating v (s_mp (mounts ! n))"
      unfolding vfs_s2idle_same_updater_def list_ex_iff by (metis atLeastLessThan_iff nth_mem set_upt)
    moreover then obtain u where u: "mnt_updating v0 (s_mp e) = Some u" "mutex_held v u"
      using Suc.prems(1) unfolding session_of_def by metis
    moreover have "admit_updates n mounts v = (None, ms, v')" using Suc.prems(3) True by simp
    ultimately show ?thesis using Suc.IH [OF Suc.prems(1)] Suc.prems(2,4) admit_mono up by (cases "j = n") (simp_all, metis)
  next
    case False
    then obtain u where u: "mnt_updating v (s_mp (mounts ! n)) = Some u" "\<not> mutex_held v u"
      "admit_updates n ?ms (v \<lparr> mutex_held := (mutex_held v)(u := True) \<rparr>) = (None, ms, v')"
      using Suc.prems(3) by (auto split: if_splits option.splits)
    have "n < length mounts" using Suc.prems(2) by simp
    from Suc.IH [OF session_of_held [OF Suc.prems(1) this u(1,2)] _ u(3)] admit_mono [OF _ u(3), of u] u(1) up Suc.prems(2,4)
    show ?thesis by (cases "j = n") simp_all
  qed
qed simp

section \<open>Suspending\<close>

text \<open>Mount \<open>m\<close> was synchronised after file system \<open>c\<close> was suspended.\<close>

definition synced_after :: "vfs_event list \<Rightarrow> nat \<Rightarrow> nat \<Rightarrow> bool" where
  "synced_after t c m \<longleftrightarrow> (\<exists>xs ys. t = xs @ ys \<and> Suspended c \<in> set xs \<and> Synced m \<in> set ys)"

lemma synced_after_append: "synced_after t c m \<Longrightarrow> synced_after (t @ t') c m"
  unfolding synced_after_def by (metis Un_iff append.assoc set_append)

lemma sync_aliases_eq:
  assumes "sync_aliases V c n ms v = (err, v')"
  shows "\<exists>t. v' = v \<lparr> vfs_trace := vfs_trace v @ map Synced t \<rparr> \<and>
    (err = None \<longrightarrow> (\<forall>j<n. s_suspend_mp (ms ! j) = Some c \<longrightarrow> s_mp (ms ! j) \<in> set t))"
  using assms
proof (induction n arbitrary: v)
  case 0
  then show ?case by (intro exI [of _ "[]"]) simp
next
  case (Suc n)
  let ?m = "s_mp (ms ! n)" and ?v = "v \<lparr> vfs_trace := vfs_trace v @ [Synced (s_mp (ms ! n))] \<rparr>"
  have a: "(mnt_async v)(?m := mnt_async v ?m) = mnt_async v" by simp
  have idle: "v \<lparr> mnt_async := (mnt_async v)(?m := mnt_async v ?m) \<rparr> = v" unfolding a by (cases v) simp
  show ?case
  proof (cases "s_suspend_mp (ms ! n) = Some c")
    case True
    show ?thesis
    proof (cases "vfs_sync V ?m")
      case None
      then have "sync_aliases V c n ms ?v = (err, v')" using Suc.prems True idle by (simp add: Let_def)
      from Suc.IH [OF this] obtain t where "v' = ?v \<lparr> vfs_trace := vfs_trace ?v @ map Synced t \<rparr>"
        "err = None \<longrightarrow> (\<forall>j<n. s_suspend_mp (ms ! j) = Some c \<longrightarrow> s_mp (ms ! j) \<in> set t)" by blast
      then show ?thesis by (intro exI [of _ "?m # t"]) (auto simp: less_Suc_eq)
    next
      case (Some e)
      then show ?thesis using Suc.prems True idle by (intro exI [of _ "[]"]) (auto simp: Let_def)
    qed
  next
    case False
    then show ?thesis using Suc.IH [of v] Suc.prems by (auto simp: less_Suc_eq)
  qed
qed

lemma session_of_trace [simp]: "session_of v0 ms (v \<lparr> vfs_trace := t \<rparr>) = session_of v0 ms v"
  by (simp add: session_of_def)

text \<open>One turn of the loop that suspends: what it leaves when it goes through.\<close>

definition suspended_vfs :: "nat \<Rightarrow> bool \<Rightarrow> nat list \<Rightarrow> vfs \<Rightarrow> vfs" where
  "suspended_vfs mp global_held t v = v \<lparr> fs_suspended := (fs_suspended v)(mp := True),
     suspend_lock := (if global_held then suspend_lock v else True), vfs_trace := vfs_trace v @ Suspended mp # map Synced t \<rparr>"

definition suspended_entry :: "bool \<Rightarrow> vfs_s2idle_mount \<Rightarrow> vfs_s2idle_mount" where
  "suspended_entry global_held e = e \<lparr> s_suspended := True, s_global_lock := s_global_lock e \<or> \<not> global_held \<rparr>"

lemma session_of_suspended:
  assumes s: "session_of v0 mounts v" and i: "i < length mounts" and c: "s_suspend_mp (mounts ! i) = Some (s_mp (mounts ! i))"
  shows "session_of v0 (mounts[i := suspended_entry gh (mounts ! i)]) (suspended_vfs (s_mp (mounts ! i)) gh t v)"
proof -
  let ?e = "suspended_entry gh (mounts ! i)"
  have m: "map s_mp (mounts[i := ?e]) = map s_mp mounts" by (rule map_update_same) (simp add: suspended_entry_def)
  have f: "(\<exists>e\<in>set (mounts[i := ?e]). s_suspended e \<and> s_suspend_mp e = Some w) \<longleftrightarrow>
      w = s_mp (mounts ! i) \<or> (\<exists>e\<in>set mounts. s_suspended e \<and> s_suspend_mp e = Some w)" for w
    using c by (subst ex_list_update [OF i]) (auto simp: suspended_entry_def)
  have old: "\<forall>e\<in>set mounts. s_updating_held e \<longrightarrow> (\<exists>u. mnt_updating v0 (s_mp e) = Some u \<and> \<not> mutex_held v0 u)"
    "\<forall>e\<in>set mounts. s_suspended e \<longrightarrow> s_suspend_mp e = Some (s_mp e)" "\<forall>e\<in>set mounts. s_global_lock e \<longrightarrow> s_suspended e"
    using s unfolding session_of_def by blast+
  have gi: "s_global_lock (mounts ! i) \<longrightarrow> s_suspended (mounts ! i)" using old(3) nth_mem [OF i] by blast
  have g: "(\<exists>e\<in>set (mounts[i := ?e]). s_suspended e \<and> s_global_lock e) \<longleftrightarrow> \<not> gh \<or> (\<exists>e\<in>set mounts. s_suspended e \<and> s_global_lock e)"
    by (subst ex_list_update [OF i]) (use gi nth_mem [OF i] in \<open>auto simp: suspended_entry_def\<close>)
  have same: "(\<exists>e\<in>set (mounts[i := ?e]). s_updating_held e \<and> mnt_updating v0 (s_mp e) = Some w) = (\<exists>e\<in>set mounts. s_updating_held e \<and> mnt_updating v0 (s_mp e) = Some w)" for w
    by (rule ex_list_update_same [OF i]) (simp add: suspended_entry_def)
  have all: "\<forall>e\<in>set (mounts[i := ?e]). s_updating_held e \<longrightarrow> (\<exists>u. mnt_updating v0 (s_mp e) = Some u \<and> \<not> mutex_held v0 u)"
    "\<forall>e\<in>set (mounts[i := ?e]). s_suspended e \<longrightarrow> s_suspend_mp e = Some (s_mp e)"
    "\<forall>e\<in>set (mounts[i := ?e]). s_global_lock e \<longrightarrow> s_suspended e"
    using all_list_update [OF i old(1), of ?e] all_list_update [OF i old(2), of ?e] all_list_update [OF i old(3), of ?e]
      bspec [OF old(1) nth_mem [OF i]] c by (simp_all add: suspended_entry_def)
  show ?thesis using s all unfolding session_of_def m f g same by (simp add: suspended_vfs_def)
qed

lemma suspend_loop_turn:
  assumes "suspend_loop V (Suc i) gh mounts v = (err, ms, v')"
  defines "mp \<equiv> s_mp (mounts ! i)" and "ms1 \<equiv> mounts[i := suspended_entry gh (mounts ! i)]"
  shows "s_suspend_mp (mounts ! i) \<noteq> Some mp \<and> suspend_loop V i gh mounts v = (err, ms, v') \<or>
    err \<noteq> None \<and> ms = mounts \<and> v' = v \<or>
    s_suspend_mp (mounts ! i) = Some mp \<and>
    (\<exists>t. err \<noteq> None \<and> ms = ms1 \<and> v' = suspended_vfs mp gh t v \<or>
      (\<forall>j<length mounts. s_suspend_mp (ms1 ! j) = Some mp \<longrightarrow> s_mp (ms1 ! j) \<in> set t) \<and>
      suspend_loop V i True ms1 (suspended_vfs mp gh t v) = (err, ms, v'))"
proof (cases "s_suspend_mp (mounts ! i) = Some mp \<and> (if gh then vfs_suspendctl V mp else vfs_suspend V mp) = None")
  case True
  let ?v = "v \<lparr> fs_suspended := (fs_suspended v)(mp := True), vfs_trace := vfs_trace v @ [Suspended mp], suspend_lock := (if gh then suspend_lock v else True) \<rparr>"
  obtain err1 v1 where s: "sync_aliases V mp (length mounts) ms1 ?v = (err1, v1)" by fastforce
  from sync_aliases_eq [OF s] obtain t where "v1 = ?v \<lparr> vfs_trace := vfs_trace ?v @ map Synced t \<rparr>"
    and t: "err1 = None \<longrightarrow> (\<forall>j<length mounts. s_suspend_mp (ms1 ! j) = Some mp \<longrightarrow> s_mp (ms1 ! j) \<in> set t)" by blast
  then have v1: "v1 = suspended_vfs mp gh t v" by (simp add: suspended_vfs_def)
  have "(if err1 \<noteq> None then (err1, ms1, v1) else suspend_loop V i True ms1 v1) = (err, ms, v')"
    using assms(1) True s unfolding mp_def ms1_def suspended_entry_def by (simp add: Let_def)
  then show ?thesis using True t unfolding v1 by (cases err1) auto
next
  case False
  show ?thesis
  proof (cases "s_suspend_mp (mounts ! i) = Some mp")
    case True
    then obtain e where "(if gh then vfs_suspendctl V mp else vfs_suspend V mp) = Some e" using False by fastforce
    then have "(Some e, mounts, v) = (err, ms, v')" using assms(1) True unfolding mp_def by (simp add: Let_def)
    then show ?thesis by auto
  next
    case False
    then have "suspend_loop V i gh mounts v = (err, ms, v')" using assms(1) unfolding mp_def by (simp add: Let_def)
    then show ?thesis using False by blast
  qed
qed

lemma suspended_entry_simps [simp]:
  "s_mp (suspended_entry gh e) = s_mp e" "s_suspend_mp (suspended_entry gh e) = s_suspend_mp e"
  "s_suspended (suspended_entry gh e)" "s_global_lock (suspended_entry gh e) \<longleftrightarrow> s_global_lock e \<or> \<not> gh"
  by (simp_all add: suspended_entry_def)

lemma suspended_vfs_simps [simp]:
  "vfs_trace (suspended_vfs mp gh t v) = vfs_trace v @ Suspended mp # map Synced t" "mutex_held (suspended_vfs mp gh t v) = mutex_held v"
  by (simp_all add: suspended_vfs_def)

lemma suspend_session:
  assumes "session_of v0 mounts v" "n \<le> length mounts" "suspend_loop V n gh mounts v = (err, ms, v')"
  shows "session_of v0 ms v' \<and> map s_mp ms = map s_mp mounts \<and> map s_suspend_mp ms = map s_suspend_mp mounts \<and>
    (\<exists>t. vfs_trace v' = vfs_trace v @ t) \<and> mutex_held v' = mutex_held v \<and> (\<forall>k\<ge>n. ms ! k = mounts ! k)"
  using assms
proof (induction n arbitrary: gh mounts v)
  case (Suc n)
  let ?ms = "mounts[n := suspended_entry gh (mounts ! n)]" and ?v = "\<lambda>t. suspended_vfs (s_mp (mounts ! n)) gh t v"
  have n: "n < length mounts" using Suc.prems(2) by simp
  from suspend_loop_turn [OF Suc.prems(3)] consider
    "suspend_loop V n gh mounts v = (err, ms, v')" | "ms = mounts" "v' = v"
    | t where "s_suspend_mp (mounts ! n) = Some (s_mp (mounts ! n))" "ms = ?ms" "v' = ?v t"
    | t where "s_suspend_mp (mounts ! n) = Some (s_mp (mounts ! n))" "suspend_loop V n True ?ms (?v t) = (err, ms, v')" by blast
  then show ?case
  proof cases
    case 1
    then show ?thesis using Suc.IH [OF Suc.prems(1) _ 1] n by auto
  next
    case 3
    then show ?thesis using session_of_suspended [OF Suc.prems(1) n 3(1), of gh t] by (simp add: map_update_same)
  next
    case 4
    then show ?thesis using Suc.IH [OF session_of_suspended [OF Suc.prems(1) n 4(1)] _ 4(2)] n by (auto simp: map_update_same)
  qed (use Suc.prems(1) in auto)
qed simp

lemma suspend_done:
  assumes "session_of v0 mounts v" "n \<le> length mounts" "suspend_loop V n gh mounts v = (None, ms, v')"
    "j < n" "s_suspend_mp (mounts ! j) = Some (s_mp (mounts ! j))"
  shows "s_suspended (ms ! j) \<and> (\<forall>k<length mounts. s_suspend_mp (mounts ! k) = Some (s_mp (mounts ! j)) \<longrightarrow>
    synced_after (vfs_trace v') (s_mp (mounts ! j)) (s_mp (mounts ! k)))"
  using assms
proof (induction n arbitrary: gh mounts v)
  case (Suc n)
  let ?mp = "s_mp (mounts ! n)" and ?ms = "mounts[n := suspended_entry gh (mounts ! n)]" and ?v = "\<lambda>t. suspended_vfs (s_mp (mounts ! n)) gh t v"
  have n: "n < length mounts" using Suc.prems(2) by simp
  have same: "s_mp (?ms ! k) = s_mp (mounts ! k)" "s_suspend_mp (?ms ! k) = s_suspend_mp (mounts ! k)" for k
    by (cases "k = n"; simp add: n)+
  show ?case
  proof (cases "s_suspend_mp (mounts ! n) = Some ?mp")
    case True
    with suspend_loop_turn [OF Suc.prems(3)] obtain t where t: "suspend_loop V n True ?ms (?v t) = (None, ms, v')"
      "\<forall>k<length mounts. s_suspend_mp (mounts ! k) = Some ?mp \<longrightarrow> s_mp (mounts ! k) \<in> set t" unfolding same by auto
    note s = session_of_suspended [OF Suc.prems(1) n True, of gh t]
    show ?thesis
    proof (cases "j = n")
      case True
      from suspend_session [OF s _ t(1)] n obtain t' where "ms ! n = ?ms ! n" "vfs_trace v' = (vfs_trace v @ [Suspended ?mp]) @ map Synced t @ t'" by auto
      then have "synced_after (vfs_trace v') ?mp m" if "m \<in> set t" for m
        using that unfolding synced_after_def by (intro exI [of _ "vfs_trace v @ [Suspended ?mp]"] exI [of _ "map Synced t @ t'"]) simp
      moreover have "s_suspended (ms ! n)" using \<open>ms ! n = ?ms ! n\<close> n by simp
      ultimately show ?thesis using t(2) True by auto
    next
      case False
      then show ?thesis using Suc.IH [OF s _ t(1)] Suc.prems(2,4,5) unfolding same by simp
    qed
  next
    case False
    then have "suspend_loop V n gh mounts v = (None, ms, v')" using suspend_loop_turn [OF Suc.prems(3)] by auto
    from Suc.IH [OF Suc.prems(1) _ this _ Suc.prems(5)] False Suc.prems(2,4,5) show ?thesis by (cases "j = n") auto
  qed
qed simp

subsection \<open>The order\<close>

definition suspended_order :: "vfs_event list \<Rightarrow> nat list" where
  "suspended_order t = List.map_filter (\<lambda>x. case x of Suspended m \<Rightarrow> Some m | _ \<Rightarrow> None) t"

definition resumed_order :: "vfs_event list \<Rightarrow> nat list" where
  "resumed_order t = List.map_filter (\<lambda>x. case x of Resumed m \<Rightarrow> Some m | _ \<Rightarrow> None) t"

lemma order_append [simp]:
  "suspended_order (s @ t) = suspended_order s @ suspended_order t" "resumed_order (s @ t) = resumed_order s @ resumed_order t"
  by (simp_all add: suspended_order_def resumed_order_def List.map_filter_def)

lemma order_simps [simp]:
  "suspended_order (Suspended m # t) = m # suspended_order t" "suspended_order (map Synced ms) = []"
  "resumed_order (Suspended m # t) = resumed_order t" "resumed_order (map Synced ms) = []"
  "resumed_order (map (\<lambda>e. Resumed (f e)) es) = map f es" "suspended_order (map (\<lambda>e. Resumed (f e)) es) = []" "suspended_order [] = []" "resumed_order [] = []"
  by (induction es; simp add: suspended_order_def resumed_order_def List.map_filter_def)
    (induction ms; simp add: suspended_order_def resumed_order_def List.map_filter_def)+

text \<open>File systems are suspended from the last mount to the first.\<close>

lemma suspend_order:
  assumes "n \<le> length mounts" "suspend_loop V n gh mounts v = (None, ms, v')" 
  shows "suspended_order (vfs_trace v') = suspended_order (vfs_trace v) @ rev (map s_mp (filter (\<lambda>e. s_suspend_mp e = Some (s_mp e)) (take n mounts))) \<and>
    resumed_order (vfs_trace v') = resumed_order (vfs_trace v)"
  using assms
proof (induction n arbitrary: gh mounts v)
  case (Suc n)
  let ?ms = "mounts[n := suspended_entry gh (mounts ! n)]" and ?v = "\<lambda>t. suspended_vfs (s_mp (mounts ! n)) gh t v"
  have n: "n < length mounts" using Suc.prems(1) by simp
  show ?case
  proof (cases "s_suspend_mp (mounts ! n) = Some (s_mp (mounts ! n))")
    case True
    with suspend_loop_turn [OF Suc.prems(2)] obtain t where "suspend_loop V n True ?ms (?v t) = (None, ms, v')" by auto
    from Suc.IH [OF _ this] show ?thesis using True n by (simp add: take_Suc_conv_app_nth)
  next
    case False
    then have "suspend_loop V n gh mounts v = (None, ms, v')" using suspend_loop_turn [OF Suc.prems(2)] by auto
    from Suc.IH [OF _ this] show ?thesis using False n by (simp add: take_Suc_conv_app_nth)
  qed
qed simp

text \<open>
  Only the first file system suspended takes the global lock, and that is the one with the highest
  place among those suspended: resuming it last keeps the order of the mounts.
\<close>

lemma suspend_no_global:
  assumes "session_of v0 mounts v" "n \<le> length mounts" "suspend_loop V n True mounts v = (None, ms, v')"
    "\<forall>k<n. \<not> s_global_lock (mounts ! k)" "j < n"
  shows "\<not> s_global_lock (ms ! j)"
  using assms
proof (induction n arbitrary: mounts v)
  case (Suc n)
  let ?ms = "mounts[n := suspended_entry True (mounts ! n)]" and ?v = "\<lambda>t. suspended_vfs (s_mp (mounts ! n)) True t v"
  have n: "n < length mounts" using Suc.prems(2) by simp
  obtain ms1 v1 where s: "session_of v0 ms1 v1" "suspend_loop V n True ms1 v1 = (None, ms, v')" "length ms1 = length mounts"
    "\<forall>k<Suc n. s_global_lock (ms1 ! k) = s_global_lock (mounts ! k)"
  proof (cases "s_suspend_mp (mounts ! n) = Some (s_mp (mounts ! n))")
    case True
    with suspend_loop_turn [OF Suc.prems(3)] obtain t where t: "suspend_loop V n True ?ms (?v t) = (None, ms, v')" by auto
    show ?thesis by (rule that [OF session_of_suspended [OF Suc.prems(1) n True] t]) (use n in \<open>auto simp: nth_list_update\<close>)
  next
    case False
    then have "suspend_loop V n True mounts v = (None, ms, v')" using suspend_loop_turn [OF Suc.prems(3)] by auto
    then show ?thesis using that [OF Suc.prems(1)] by blast
  qed
  have "ms ! n = ms1 ! n" using suspend_session [OF s(1) _ s(2)] s(3) n by simp
  then show ?case using Suc.IH [OF s(1) _ s(2)] s(3,4) n Suc.prems(4,5) by (cases "j = n") auto
qed simp

lemma suspend_global_last:
  assumes "session_of v0 mounts v" "n \<le> length mounts" "suspend_loop V n False mounts v = (None, ms, v')"
    "\<forall>k<length mounts. \<not> s_global_lock (mounts ! k) \<and> \<not> s_suspended (mounts ! k)"
  shows "\<exists>i. (\<forall>j<i. j < length mounts \<longrightarrow> \<not> s_global_lock (ms ! j)) \<and> (i < length mounts \<longrightarrow> s_suspended (ms ! i) \<and> s_global_lock (ms ! i)) \<and>
    (\<forall>j>i. j < length mounts \<longrightarrow> \<not> s_suspended (ms ! j))"
  using assms(2,3)
proof (induction n)
  case 0
  then show ?case using assms(4) by (intro exI [of _ "length mounts"]) auto
next
  case (Suc n)
  let ?ms = "mounts[n := suspended_entry False (mounts ! n)]" and ?v = "\<lambda>t. suspended_vfs (s_mp (mounts ! n)) False t v"
  have n: "n < length mounts" using Suc.prems by simp
  show ?case
  proof (cases "s_suspend_mp (mounts ! n) = Some (s_mp (mounts ! n))")
    case True
    with suspend_loop_turn [OF Suc.prems(2)] obtain t where t: "suspend_loop V n True ?ms (?v t) = (None, ms, v')" by auto
    note s = session_of_suspended [OF assms(1) n True, of False t]
    have "\<not> s_global_lock (ms ! j)" if "j < n" for j using suspend_no_global [OF s _ t _ that] n assms(4) by simp
    moreover have "ms ! k = ?ms ! k" if "n \<le> k" for k using suspend_session [OF s _ t] n that by simp
    ultimately show ?thesis using n assms(4) by (intro exI [of _ n]) auto
  next
    case False
    then have "suspend_loop V n False mounts v = (None, ms, v')" using suspend_loop_turn [OF Suc.prems(2)] by auto
    then show ?thesis using Suc.IH n by simp
  qed
qed

lemma filter_global_last:
  assumes "\<forall>j<i. j < length ms \<longrightarrow> \<not> G (ms ! j)" "i < length ms \<longrightarrow> S (ms ! i) \<and> G (ms ! i)" "\<forall>j>i. j < length ms \<longrightarrow> \<not> S (ms ! j)"
  shows "filter (\<lambda>e. S e \<and> \<not> G e) ms @ filter (\<lambda>e. S e \<and> G e) ms = filter S ms"
proof (cases "i < length ms")
  case True
  have t: "\<not> G e" if "e \<in> set (take i ms)" for e using assms(1) that by (auto simp: in_set_conv_nth)
  have d: "\<not> S e" if "e \<in> set (drop (Suc i) ms)" for e using assms(3) that by (auto simp: in_set_conv_nth)
  have "filter (\<lambda>e. S e \<and> \<not> G e) (take i ms) = filter S (take i ms)" "filter (\<lambda>e. S e \<and> G e) (take i ms) = []"
    "filter S (drop (Suc i) ms) = []" "filter (\<lambda>e. S e \<and> G e) (drop (Suc i) ms) = []" "filter (\<lambda>e. S e \<and> \<not> G e) (drop (Suc i) ms) = []"
    using t d by (auto intro: filter_cong simp: filter_empty_conv)
  then show ?thesis using assms(2) True by (subst (1 2 3) id_take_nth_drop [OF True]) simp
next
  case False
  then have "\<not> G e" if "e \<in> set ms" for e using assms(1) that by (auto simp: in_set_conv_nth)
  then have "filter (\<lambda>e. S e \<and> \<not> G e) ms = filter S ms" "filter (\<lambda>e. S e \<and> G e) ms = []" by (auto intro: filter_cong simp: filter_empty_conv)
  then show ?thesis by simp
qed

section \<open>The whole session\<close>

text \<open>A call that succeeds went through every phase; one that fails stopped in one of them.\<close>

definition suspend_phases :: "vfs_ops \<Rightarrow> nat \<Rightarrow> vfs \<Rightarrow> vfs_s2idle_mount list \<Rightarrow> vfs \<Rightarrow> vfs_s2idle_mount list \<Rightarrow> vfs_s2idle_mount list \<Rightarrow> vfs \<Rightarrow> bool" where
  "suspend_phases V curlwp v ms1 v1 ms2 ms3 v3 \<longleftrightarrow>
    s2_ready v \<and> s2_owner v = None \<and> s2_mountops v = 0 \<and>
    collect V (mountlist V) 0 [] (v \<lparr> s2_owner := Some curlwp \<rparr>) = (None, ms1, v1) \<and>
    canonicalize 0 ms1 v1 = Some (None, ms2) \<and> admit_updates (length ms2) ms2 v1 = (None, ms3, v3)"

lemma suspend_all_result:
  assumes "vfs_suspend_all V curlwp v = Some (err, ms, v')"
  obtains (gate) "err \<noteq> None" "ms = []" "v' = v"
  | (collect) e ms1 v1 where "s2_owner v = None" "collect V (mountlist V) 0 [] (v \<lparr> s2_owner := Some curlwp \<rparr>) = (Some e, ms1, v1)"
      "err = Some e" "ms = []" "v' = session_fail ms1 v1"
  | (canonical) e ms1 v1 ms2 where "s2_owner v = None" "collect V (mountlist V) 0 [] (v \<lparr> s2_owner := Some curlwp \<rparr>) = (None, ms1, v1)"
      "canonicalize 0 ms1 v1 = Some (Some e, ms2)" "err = Some e" "ms = []" "v' = session_fail ms2 v1"
  | (admit) e ms1 v1 ms2 ms3 v3 where "s2_owner v = None" "collect V (mountlist V) 0 [] (v \<lparr> s2_owner := Some curlwp \<rparr>) = (None, ms1, v1)"
      "canonicalize 0 ms1 v1 = Some (None, ms2)" "admit_updates (length ms2) ms2 v1 = (Some e, ms3, v3)"
      "err = Some e" "ms = []" "v' = session_fail ms3 v3"
  | (suspend) e ms1 v1 ms2 ms3 v3 ms4 v4 where "suspend_phases V curlwp v ms1 v1 ms2 ms3 v3"
      "suspend_loop V (length ms3) False ms3 v3 = (Some e, ms4, v4)"
      "err = Some e" "ms = []" "v' = session_fail ms4 (vfs_s2idle_resume_suspended ms4 v4)"
  | (success) ms1 v1 ms2 ms3 v3 where "suspend_phases V curlwp v ms1 v1 ms2 ms3 v3"
      "suspend_loop V (length ms3) False ms3 v3 = (None, ms, v')" "err = None"
proof (cases "s2_ready v \<and> s2_owner v = None \<and> s2_mountops v = 0")
  case False
  then show ?thesis using assms gate by (auto simp: vfs_suspend_all_def vfs_s2idle_barrier_enter_def split: if_splits)
next
  case g: True
  obtain e1 ms1 v1 where c: "collect V (mountlist V) 0 [] (v \<lparr> s2_owner := Some curlwp \<rparr>) = (e1, ms1, v1)" by (metis prod_cases3)
  note r = assms [unfolded vfs_suspend_all_def vfs_s2idle_barrier_enter_def, simplified g, simplified, unfolded c, simplified]
  show ?thesis
  proof (cases e1)
    case (Some e)
    then show ?thesis using r g c by (intro collect [of e ms1 v1]) simp_all
  next
    case None
    show ?thesis
    proof (cases "ms1 = []")
      case True
      have "canonicalize 0 ms1 v1 = Some (None, [])" by (subst canonicalize.simps) (simp add: True)
      then show ?thesis using success [of ms1 v1 "[]" "[]" v1] r g c None True by (simp add: suspend_phases_def)
    next
      case False
      then obtain e2 ms2 where k: "canonicalize 0 ms1 v1 = Some (e2, ms2)" using r None by (cases "canonicalize 0 ms1 v1") auto
      obtain e3 ms3 v3 where a: "admit_updates (length ms2) ms2 v1 = (e3, ms3, v3)" by (metis prod_cases3)
      obtain e4 ms4 v4 where l: "suspend_loop V (length ms3) False ms3 v3 = (e4, ms4, v4)" by (metis prod_cases3)
      note r = r [unfolded k, simplified None, simplified False, simplified]
      consider e where "e2 = Some e" | e where "e2 = None" "e3 = Some e" | e where "e2 = None" "e3 = None" "e4 = Some e" | "e2 = None" "e3 = None" "e4 = None"
        by (cases e2; cases e3; cases e4) auto
      then show ?thesis
      proof cases
        case (1 e)
        show ?thesis by (rule canonical [of ms1 v1 e ms2]) (use 1 g c k r None in simp_all)
      next
        case (2 e)
        show ?thesis by (rule admit [of ms1 v1 ms2 e ms3 v3]) (use 2 g c k r a None in simp_all)
      next
        case (3 e)
        show ?thesis by (rule suspend [of ms1 v1 ms2 ms3 v3 e ms4 v4]) (use 3 g c k r a l None in \<open>simp_all add: suspend_phases_def\<close>)
      next
        case 4
        show ?thesis by (rule success [of ms1 v1 ms2 ms3 v3]) (use 4 g c k r a l None in \<open>simp_all add: suspend_phases_def\<close>)
      qed
    qed
  qed
qed

lemma awake_owner [simp]: "vfs_awake (v \<lparr> s2_owner := w \<rparr>) = vfs_awake v"
  by (simp add: vfs_awake_def)

lemma session_ofD:
  assumes "session_of v0 mounts v"
  shows "mnt_lower v = mnt_lower v0" "s2_owner v = s2_owner v0" "s2_ready v = s2_ready v0"
    "mnt_busy v m = mnt_busy v0 m + count_list (map s_mp mounts) m"
  using assms unfolding session_of_def by blast+

lemma session_of_refl: "session_of v [] v"
  by (simp add: session_of_def)

lemma collect_start:
  assumes "collect V (mountlist V) 0 [] v0 = (err, ms, v1)"
  shows "session_of v0 ms v1" "\<forall>e\<in>set ms. \<not> s_suspended e \<and> \<not> s_global_lock e \<and> \<not> s_updating_held e" "vfs_trace v1 = vfs_trace v0"
    "err = None \<Longrightarrow> map Some (map s_mp ms) = mountlist V"
proof -
  obtain qs where "ms = map session_entry qs" "session_of v0 ms v1" "vfs_trace v1 = vfs_trace v0" "err = None \<longrightarrow> map Some qs = mountlist V"
    using collect_session [of v0 "[]" v0 V "mountlist V" 0 err ms v1] session_of_refl assms by auto
  then show "session_of v0 ms v1" "\<forall>e\<in>set ms. \<not> s_suspended e \<and> \<not> s_global_lock e \<and> \<not> s_updating_held e" "vfs_trace v1 = vfs_trace v0"
    "err = None \<Longrightarrow> map Some (map s_mp ms) = mountlist V" by (auto simp: session_entry_def comp_def)
qed

lemma all_map_cong: "map f xs = map f ys \<Longrightarrow> (\<forall>x\<in>set xs. P (f x)) = (\<forall>y\<in>set ys. P (f y))"
proof -
  assume "map f xs = map f ys"
  then have "(\<forall>z\<in>set (map f xs). P z) = (\<forall>z\<in>set (map f ys). P z)" by simp
  then show ?thesis by simp
qed

lemma phases_session:
  assumes "suspend_phases V curlwp v ms1 v1 ms2 ms3 v3"
  shows "session_of (v \<lparr> s2_owner := Some curlwp \<rparr>) ms3 v3" "\<forall>e\<in>set ms3. \<not> s_suspended e" "\<forall>e\<in>set ms3. \<not> s_global_lock e"
    "map Some (map s_mp ms3) = mountlist V" "vfs_trace v3 = vfs_trace v"
    "map s_mp ms2 = map s_mp ms3" "map s_suspend_mp ms2 = map s_suspend_mp ms3" "map s_mp ms1 = map s_mp ms3"
proof -
  note p = assms [unfolded suspend_phases_def]
  note c = collect_start [OF conjunct1 [OF conjunct2 [OF conjunct2 [OF conjunct2 [OF p]]]]]
  have k: "session_of (v \<lparr> s2_owner := Some curlwp \<rparr>) ms2 v1" "\<forall>e\<in>set ms2. \<not> s_suspended e" "map s_mp ms2 = map s_mp ms1"
    using canonicalize_session [OF c(1), of 0] c(2) p by blast+
  have a: "session_of (v \<lparr> s2_owner := Some curlwp \<rparr>) ms3 v3" "vfs_trace v3 = vfs_trace v1" "map s_mp ms3 = map s_mp ms2"
    "map s_suspend_mp ms3 = map s_suspend_mp ms2" "map s_suspended ms3 = map s_suspended ms2"
    using admit_session [OF k(1) order_refl] p by blast+
  show u: "\<forall>e\<in>set ms3. \<not> s_suspended e" using all_map_cong [OF a(5), of Not] k(2) by simp
  show "\<forall>e\<in>set ms3. \<not> s_global_lock e" using a(1) u unfolding session_of_def by blast
  show "map Some (map s_mp ms3) = mountlist V" using c(4) a(3) k(3) by simp
  show "session_of (v \<lparr> s2_owner := Some curlwp \<rparr>) ms3 v3" by (rule a(1))
  show "vfs_trace v3 = vfs_trace v" "map s_mp ms2 = map s_mp ms3" "map s_suspend_mp ms2 = map s_suspend_mp ms3" "map s_mp ms1 = map s_mp ms3"
    using a(2,3,4) k(3) c(3) by simp_all
qed

lemma canonical_mount_cong: "mnt_lower v = mnt_lower w \<Longrightarrow> vfs_s2idle_canonical_mount v m = vfs_s2idle_canonical_mount w m"
  by (simp only: vfs_s2idle_canonical_mount_def)

lemma nth_map_eq: "map f xs = map f ys \<Longrightarrow> j < length xs \<Longrightarrow> f (xs ! j) = f (ys ! j)"
  by (metis length_map nth_map)

lemma bottom_loop_bottom: "bottom_loop lower mp = Some c \<Longrightarrow> lower c = None"
proof (induction rule: bottom_loop.raw_induct [rotated 1, consumes 1, case_names step])
  case (step loop lower mp c)
  then show ?case by (cases "lower mp") auto
qed

lemma canonical_mount_idem:
  assumes "vfs_s2idle_canonical_mount v m = Some (Some c)"
  shows "vfs_s2idle_canonical_mount v c = Some (Some c)"
proof -
  have "bottom_loop (mnt_lower v) m = Some c" using assms by (auto simp: vfs_s2idle_canonical_mount_def split: option.splits bool.splits)
  from bottom_loop_bottom [OF this] show ?thesis
    by (simp add: vfs_s2idle_canonical_mount_def cycle_loop.simps [of _ "Some c" "Some c"] bottom_loop.simps [of _ c] step_lower_def)
qed

text \<open>The entries of a session that succeeded.\<close>

lemma success_entries:
  assumes "suspend_phases V curlwp v ms1 v1 ms2 ms3 v3" "suspend_loop V (length ms3) False ms3 v3 = (None, ms, v')" "j < length ms"
  shows "\<exists>c. vfs_s2idle_canonical_mount v (s_mp (ms ! j)) = Some (Some c) \<and> s_suspend_mp (ms ! j) = Some c \<and>
    fs_suspended v' c \<and> synced_after (vfs_trace v') c (s_mp (ms ! j))"
    "\<exists>u. mnt_updating v (s_mp (ms ! j)) = Some u \<and> mutex_held v' u"
    "s_suspended (ms ! j) \<longleftrightarrow> s_suspend_mp (ms ! j) = Some (s_mp (ms ! j))"
proof -
  let ?v0 = "v \<lparr> s2_owner := Some curlwp \<rparr>"
  note p = phases_session [OF assms(1)] and q = assms(1) [unfolded suspend_phases_def]
  note s = suspend_session [OF p(1) order_refl assms(2)]
  have len: "length ms = length ms3" "length ms2 = length ms3" "length ms1 = length ms3" using s p(6,8) map_eq_imp_length_eq by blast+
  have same: "s_mp (ms3 ! k) = s_mp (ms ! k)" "s_suspend_mp (ms3 ! k) = s_suspend_mp (ms ! k)" "s_mp (ms2 ! k) = s_mp (ms ! k)" "s_suspend_mp (ms2 ! k) = s_suspend_mp (ms ! k)" if "k < length ms" for k
    using nth_map_eq [of s_mp ms ms3 k] nth_map_eq [of s_suspend_mp ms ms3 k] nth_map_eq [OF p(6), of k] nth_map_eq [OF p(7), of k] s len that by simp_all
  have v1: "session_of ?v0 ms1 v1" using collect_start q by blast
  then have lower: "mnt_lower v1 = mnt_lower v" by (simp add: session_of_def)
  have sus: "s_suspended e \<longrightarrow> s_suspend_mp e = Some (s_mp e)" if "e \<in> set ms" for e using s that unfolding session_of_def by blast
  have fin: "s_suspended (ms ! k) \<and> (\<forall>l<length ms3. s_suspend_mp (ms3 ! l) = Some (s_mp (ms ! k)) \<longrightarrow> synced_after (vfs_trace v') (s_mp (ms ! k)) (s_mp (ms3 ! l)))"
    if "k < length ms" "s_suspend_mp (ms ! k) = Some (s_mp (ms ! k))" for k
    using suspend_done [OF p(1) order_refl assms(2), of k] same that len by simp
  show "s_suspended (ms ! j) \<longleftrightarrow> s_suspend_mp (ms ! j) = Some (s_mp (ms ! j))" using fin [OF assms(3)] sus [OF nth_mem [OF assms(3)]] by blast
  obtain c where c: "vfs_s2idle_canonical_mount v (s_mp (ms ! j)) = Some (Some c)" "s_suspend_mp (ms ! j) = Some c" "c \<in> s_mp ` set ms2"
    using canonicalize_points [of 0 ms1 v1 ms2 j] q assms(3) len same canonical_mount_cong [OF lower] by auto
  have "c \<in> set (map s_mp ms)" using c(3) p(6) s by (metis list.set_map)
  then obtain k where k: "k < length ms" "s_mp (ms ! k) = c" by (auto simp: in_set_conv_nth)
  obtain c' where "vfs_s2idle_canonical_mount v (s_mp (ms ! k)) = Some (Some c')" "s_suspend_mp (ms ! k) = Some c'"
    using canonicalize_points [of 0 ms1 v1 ms2 k] q k(1) len same canonical_mount_cong [OF lower] by auto
  then have "s_suspend_mp (ms ! k) = Some (s_mp (ms ! k))" using canonical_mount_idem [OF c(1)] k(2) by simp
  from fin [OF k(1) this] have "s_suspended (ms ! k)" "synced_after (vfs_trace v') c (s_mp (ms ! j))" using c(2) same len k(2) assms(3) by auto
  moreover from this(1) have "fs_suspended v' c" using \<open>s_suspend_mp (ms ! k) = Some (s_mp (ms ! k))\<close> s k nth_mem [OF k(1)] unfolding session_of_def by blast
  ultimately show "\<exists>c. vfs_s2idle_canonical_mount v (s_mp (ms ! j)) = Some (Some c) \<and> s_suspend_mp (ms ! j) = Some c \<and>
    fs_suspended v' c \<and> synced_after (vfs_trace v') c (s_mp (ms ! j))" using c by blast
  have "session_of ?v0 ms2 v1" using canonicalize_session [OF v1, of 0] collect_start(2) q by blast
  from admit_held [OF this order_refl, of ms3 v3 j] q obtain u where u: "mnt_updating v (s_mp (ms ! j)) = Some u" "mutex_held v3 u"
    using same assms(3) len by auto
  moreover have "mutex_held v' u" using u(2) s by simp
  ultimately show "\<exists>u. mnt_updating v (s_mp (ms ! j)) = Some u \<and> mutex_held v' u" by blast
qed

lemma success_covered:
  assumes "suspend_phases V curlwp v ms1 v1 ms2 ms3 v3" "suspend_loop V (length ms3) False ms3 v3 = (None, ms, v')" "m \<in> set (map s_mp ms)"
  shows "mnt_busy v m < mnt_busy v' m \<and> (\<exists>u. mnt_updating v m = Some u \<and> mutex_held v' u) \<and>
      (\<exists>c. vfs_s2idle_canonical_mount v m = Some (Some c) \<and> fs_suspended v' c \<and> synced_after (vfs_trace v') c m)"
proof -
  note s = suspend_session [OF phases_session(1) [OF assms(1)] order_refl assms(2)]
  obtain j where j: "j < length ms" "m = s_mp (ms ! j)" using assms(3) by (metis imageE in_set_conv_nth list.set_map)
  have "count_list (map s_mp ms) m \<noteq> 0" using assms(3) count_list_0_iff [of "map s_mp ms" m] by blast
  then have "mnt_busy v m < mnt_busy v' m" using session_ofD(4) [OF conjunct1 [OF s], of m] by simp
  then show ?thesis using success_entries(1,2) [OF assms(1,2) j(1)] unfolding j(2) by blast
qed

text \<open>The two ways back to the state before.\<close>

lemma barrier_exit_owner:
  "s2_owner v = None \<Longrightarrow> vfs_s2idle_barrier_exit (v \<lparr> s2_owner := Some curlwp, vfs_trace := t \<rparr>) = v \<lparr> vfs_trace := t \<rparr>"
  by (cases v) (simp add: vfs_s2idle_barrier_exit_def)

lemma session_fail_restores:
  assumes "session_of (v \<lparr> s2_owner := Some curlwp \<rparr>) mounts w" "vfs_awake v" "s2_owner v = None" "\<forall>e\<in>set mounts. \<not> s_suspended e"
  shows "\<exists>t. session_fail mounts w = v \<lparr> vfs_trace := t \<rparr>"
proof -
  obtain t where "unbusy_all mounts (vfs_s2idle_unlock_updates mounts w) = v \<lparr> s2_owner := Some curlwp, vfs_trace := t \<rparr>"
    using session_undo_unsuspended [OF assms(1) _ assms(4)] assms(2) by auto
  then show ?thesis unfolding session_fail_def using barrier_exit_owner [OF assms(3)] by auto
qed

lemma session_resume_restores:
  assumes "session_of (v \<lparr> s2_owner := Some curlwp \<rparr>) mounts w" "vfs_awake v" "s2_owner v = None"
  shows "\<exists>t. session_fail mounts (vfs_s2idle_resume_suspended mounts w) = v \<lparr> vfs_trace := t \<rparr>"
proof -
  obtain t where "unbusy_all mounts (vfs_s2idle_unlock_updates mounts (vfs_s2idle_resume_suspended mounts w)) = v \<lparr> s2_owner := Some curlwp, vfs_trace := t \<rparr>"
    using session_undo [OF assms(1)] assms(2) by auto
  then show ?thesis unfolding session_fail_def using barrier_exit_owner [OF assms(3)] by auto
qed

lemma resume_all_eq: "vfs_resume_all mounts v = session_fail mounts (vfs_s2idle_resume_suspended mounts v)"
  by (simp add: vfs_resume_all_def session_fail_def vfs_s2idle_resume_suspended_def)

lemma session_fail_trace [simp]: "vfs_trace (session_fail mounts v) = vfs_trace v"
  by (simp add: session_fail_def vfs_s2idle_barrier_exit_def session_eqs)

lemma canonical_start:
  assumes "collect V (mountlist V) 0 [] v0 = (None, ms1, v1)" "canonicalize 0 ms1 v1 = Some (err, ms2)"
  shows "session_of v0 ms2 v1" "\<forall>e\<in>set ms2. \<not> s_suspended e"
  using canonicalize_session [OF collect_start(1) [OF assms(1)] _ assms(2)] collect_start(2) [OF assms(1)] by blast+

lemma map_filter_cong2:
  "map f xs = map f ys \<Longrightarrow> map g xs = map g ys \<Longrightarrow> map f (filter (\<lambda>x. g x = Some (f x)) xs) = map f (filter (\<lambda>x. g x = Some (f x)) ys)"
  by (induction xs ys rule: list_induct2') auto

lemma suspend_all_unwinds:
  assumes "vfs_awake v" "vfs_suspend_all V curlwp v = Some (Some e, ms, v')"
  shows "ms = [] \<and> (\<exists>t. v' = v \<lparr> vfs_trace := t \<rparr>)"
  using assms(2)
proof (cases rule: suspend_all_result)
  case gate
  then show ?thesis by (auto intro!: exI [of _ "vfs_trace v"])
next
  case (collect e ms1 v1)
  then show ?thesis using session_fail_restores [OF collect_start(1) [OF collect(2)] assms(1) collect(1)] collect_start(2) [OF collect(2)] by blast
next
  case (canonical e ms1 v1 ms2)
  then show ?thesis using session_fail_restores [OF _ assms(1) canonical(1)] canonical_start [OF canonical(2,3)] by blast
next
  case (admit e ms1 v1 ms2 ms3 v3)
  note u = canonical_start [OF admit(2,3)]
  note a = admit_session [OF u(1) order_refl admit(4)]
  have "\<forall>e\<in>set ms3. \<not> s_suspended e" using all_map_cong [of s_suspended ms3 ms2 Not] a u(2) by simp
  then show ?thesis using session_fail_restores [OF _ assms(1) admit(1)] a admit(6,7) by blast
next
  case (suspend e ms1 v1 ms2 ms3 v3 ms4 v4)
  have "session_of (v \<lparr> s2_owner := Some curlwp \<rparr>) ms4 v4" using suspend_session [OF phases_session(1) [OF suspend(1)] order_refl suspend(2)] by blast
  from session_resume_restores [OF this assms(1)] show ?thesis using suspend(1,4,5) unfolding suspend_phases_def by simp
qed simp_all

lemma resume_order:
  assumes "suspend_phases V curlwp v ms1 v1 ms2 ms3 v3" "suspend_loop V (length ms3) False ms3 v3 = (None, ms, v')"
  shows "suspended_order (vfs_trace v') = suspended_order (vfs_trace v) @ rev (map s_mp (filter s_suspended ms))"
    "resumed_order (vfs_trace v') = resumed_order (vfs_trace v)"
    "resumed_order (vfs_trace (vfs_resume_all ms v')) = resumed_order (vfs_trace v') @ map s_mp (filter s_suspended ms)"
proof -
  note p = phases_session [OF assms(1)]
  note s = suspend_session [OF p(1) order_refl assms(2)]
  have len: "length ms = length ms3" using s map_eq_imp_length_eq by blast
  have "map s_mp (filter (\<lambda>e. s_suspend_mp e = Some (s_mp e)) ms3) = map s_mp (filter (\<lambda>e. s_suspend_mp e = Some (s_mp e)) ms)"
    using s by (intro map_filter_cong2) simp_all
  moreover have "filter (\<lambda>e. s_suspend_mp e = Some (s_mp e)) ms = filter s_suspended ms"
  proof (rule filter_cong [OF refl])
    fix e assume "e \<in> set ms"
    then obtain j where "j < length ms" "e = ms ! j" by (metis in_set_conv_nth)
    then show "s_suspend_mp e = Some (s_mp e) \<longleftrightarrow> s_suspended e" using success_entries(3) [OF assms] by blast
  qed
  ultimately show "suspended_order (vfs_trace v') = suspended_order (vfs_trace v) @ rev (map s_mp (filter s_suspended ms))"
    "resumed_order (vfs_trace v') = resumed_order (vfs_trace v)"
    using suspend_order [OF order_refl assms(2)] p(5) by simp_all
  have pre: "\<forall>k<length ms3. \<not> s_global_lock (ms3 ! k) \<and> \<not> s_suspended (ms3 ! k)" using p(2,3) by simp
  obtain i where i: "(\<forall>j<i. j < length ms \<longrightarrow> \<not> s_global_lock (ms ! j)) \<and> (i < length ms \<longrightarrow> s_suspended (ms ! i) \<and> s_global_lock (ms ! i)) \<and>
    (\<forall>j>i. j < length ms \<longrightarrow> \<not> s_suspended (ms ! j))"
    using suspend_global_last [OF p(1) order_refl assms(2) pre] unfolding len by blast
  have "filter (\<lambda>e. s_suspended e \<and> \<not> s_global_lock e) ms @ filter (\<lambda>e. s_suspended e \<and> s_global_lock e) ms = filter s_suspended ms"
    using i by (intro filter_global_last [of i]) simp_all
  moreover have "map (\<lambda>e. the (s_suspend_mp e)) (filter s_suspended ms) = map s_mp (filter s_suspended ms)"
  proof -
    have "\<forall>e\<in>set ms. s_suspended e \<longrightarrow> s_suspend_mp e = Some (s_mp e)" using s unfolding session_of_def by blast
    then show ?thesis by simp
  qed
  ultimately have "map (\<lambda>e. the (s_suspend_mp e)) (filter (\<lambda>e. s_suspended e \<and> \<not> s_global_lock e) ms) @
      map (\<lambda>e. the (s_suspend_mp e)) (filter (\<lambda>e. s_suspended e \<and> s_global_lock e) ms) = map s_mp (filter s_suspended ms)" by (metis map_append)
  then show "resumed_order (vfs_trace (vfs_resume_all ms v')) = resumed_order (vfs_trace v') @ map s_mp (filter s_suspended ms)"
    unfolding resume_all_eq session_fail_trace vfs_s2idle_resume_suspended_def session_eqs by simp
qed

lemma canonicalize_returns:
  assumes "finite {m. mnt_lower v m \<noteq> None}"
  shows "\<exists>r. canonicalize i mounts v = Some r"
proof (induction "length mounts - i" arbitrary: i mounts rule: less_induct)
  case less
  have "vfs_s2idle_canonical_mount v m \<noteq> None" for m using canonical_mount_spec [OF assms, of m] by (auto split: if_splits)
  then obtain r where r: "vfs_s2idle_canonical_mount v (s_mp (mounts ! i)) = Some r" by blast
  show ?case
  proof (cases "i < length mounts \<and> r \<noteq> None")
    case True
    then obtain c where c: "r = Some c" by blast
    have "length (mounts[i := (mounts ! i) \<lparr> s_suspend_mp := Some c \<rparr>]) - (i + 1) < length mounts - i" using True by (auto intro: diff_less_mono2)
    from less [OF this] show ?thesis using r c by (subst canonicalize.simps) (simp add: Let_def)
  next
    case False
    then show ?thesis using r by (subst canonicalize.simps) auto
  qed
qed

lemma suspend_all_returns:
  assumes "finite {m. mnt_lower v m \<noteq> None}"
  shows "\<exists>r. vfs_suspend_all V curlwp v = Some r"
proof -
  obtain e0 v0 where b: "vfs_s2idle_barrier_enter curlwp v = (e0, v0)" by fastforce
  obtain e1 ms1 v1 where c: "collect V (mountlist V) 0 [] v0 = (e1, ms1, v1)" by (metis prod_cases3)
  have "mnt_lower v0 = mnt_lower v" using b by (auto simp: vfs_s2idle_barrier_enter_def split: if_splits)
  then have "mnt_lower v1 = mnt_lower v" using session_ofD(1) [OF collect_start(1) [OF c]] by simp
  then obtain e2 ms2 where k: "canonicalize 0 ms1 v1 = Some (e2, ms2)" using canonicalize_returns [of v1 0 ms1] assms by auto
  obtain e3 ms3 v3 where a: "admit_updates (length ms2) ms2 v1 = (e3, ms3, v3)" by (metis prod_cases3)
  obtain e4 ms4 v4 where l: "suspend_loop V (length ms3) False ms3 v3 = (e4, ms4, v4)" by (metis prod_cases3)
  show ?thesis unfolding vfs_suspend_all_def b by (cases e2) (simp_all add: c k a l)
qed

section \<open>Properties\<close>

text \<open>
  C18: The file system behind a mount is found in every finite mount graph, cyclic or not: the
  search returns; it reports a cycle exactly when following \<^verbatim>\<open>mnt_lower\<close> never ends, and otherwise
  gives the mount where the chain ends. So suspending every file system always returns.
\<close>

theorem vfs_canonical_mount_total:
  assumes "finite {m. mnt_lower v m \<noteq> None}"
  shows "(if \<exists>n. chain (mnt_lower v) mp n = None
      then \<exists>i c. vfs_s2idle_canonical_mount v mp = Some (Some c) \<and> chain (mnt_lower v) mp i = Some c \<and> mnt_lower v c = None
      else vfs_s2idle_canonical_mount v mp = Some None) \<and>
    (\<exists>r. vfs_suspend_all V curlwp v = Some r)"
  using canonical_mount_spec [OF assms] suspend_all_returns [OF assms] by blast

text \<open>A machine with a root, a file system mounted on it, and an alias of the latter.\<close>

definition three_mounts :: vfs where
  "three_mounts = \<lparr> s2_ready = True, s2_mountops = 0, s2_owner = None, mnt_lower = (\<lambda>m. if m = 2 then Some 1 else None),
     mnt_updating = (\<lambda>m. Some (10 + m)), mnt_async = (\<lambda>m. m = 1), mnt_busy = (\<lambda>m. 0), mutex_held = (\<lambda>u. False),
     fs_suspended = (\<lambda>m. False), suspend_lock = False, vfs_trace = [] \<rparr>"

definition three_ops :: "(nat \<Rightarrow> errno option) \<Rightarrow> vfs_ops" where
  "three_ops synced = \<lparr> mountlist = [Some 0, Some 1, Some 2], vfs_trybusy = (\<lambda>m. None), vfs_suspend = (\<lambda>m. None),
     vfs_suspendctl = (\<lambda>m. None), vfs_sync = synced, SIZE_MAX = 65535, sizeof_mount = 32 \<rparr>"

definition session_view :: "(errno option \<times> vfs_s2idle_mount list \<times> vfs) option \<Rightarrow> (errno option \<times> nat list \<times> vfs_event list) option" where
  "session_view r = map_option (\<lambda>(e, ms, v). (e, map s_mp ms, vfs_trace v)) r"

lemma three_mounts_canonical:
  assumes "mnt_lower v = (\<lambda>m. if m = 2 then Some 1 else None)"
  shows "vfs_s2idle_canonical_mount v 0 = Some (Some 0)" "vfs_s2idle_canonical_mount v (Suc 0) = Some (Some (Suc 0))" "vfs_s2idle_canonical_mount v 2 = Some (Some (Suc 0))"
proof -
  have "cycle_loop (mnt_lower v) (Some 0) (Some 0) = Some False" "cycle_loop (mnt_lower v) (Some (Suc 0)) (Some (Suc 0)) = Some False"
    "cycle_loop (mnt_lower v) (Some 2) (Some 2) = Some False"
    by (subst cycle_loop.simps, simp add: assms step_lower_def)+
  moreover have "bottom_loop (mnt_lower v) 0 = Some 0" "bottom_loop (mnt_lower v) (Suc 0) = Some (Suc 0)"
    by (subst bottom_loop.simps, simp add: assms)+
  moreover have "bottom_loop (mnt_lower v) 2 = Some (Suc 0)"
    by (subst bottom_loop.simps) (simp add: assms, subst bottom_loop.simps, simp)
  ultimately show "vfs_s2idle_canonical_mount v 0 = Some (Some 0)" "vfs_s2idle_canonical_mount v (Suc 0) = Some (Some (Suc 0))" "vfs_s2idle_canonical_mount v 2 = Some (Some (Suc 0))"
    by (simp_all add: vfs_s2idle_canonical_mount_def)
qed

lemmas three_mounts_eval = session_view_def vfs_suspend_all_def vfs_s2idle_barrier_enter_def three_ops_def three_mounts_def session_entry_def
  canonicalize.simps three_mounts_canonical vfs_s2idle_has_mount_def vfs_s2idle_same_updater_def Let_def upt_rec

lemma three_mounts_suspend:
  "session_view (vfs_suspend_all (three_ops (\<lambda>m. None)) 7 three_mounts) =
    Some (None, [0, 1, 2], [Suspended 1, Synced 2, Synced 1, Suspended 0, Synced 0])"
  by (simp add: three_mounts_eval)

lemma three_mounts_fail:
  "session_view (vfs_suspend_all (three_ops (\<lambda>m. if m = 0 then Some EIO else None)) 7 three_mounts) =
    Some (Some EIO, [], [Suspended 1, Synced 2, Synced 1, Suspended 0, Resumed 0, Resumed 1])"
  by (simp add: three_mounts_eval session_fail_def vfs_s2idle_resume_suspended_def vfs_s2idle_barrier_exit_def fs_resume_def)

lemma three_mounts_awake: "vfs_awake three_mounts"
  by (simp add: vfs_awake_def three_mounts_def)

lemma session_viewD: "session_view r = Some (e, ps, t) \<Longrightarrow> \<exists>ms v. r = Some (e, ms, v) \<and> map s_mp ms = ps \<and> vfs_trace v = t"
  by (auto simp: session_view_def)

theorem vfs_canonical_mount_total_witness:
  "vfs_s2idle_canonical_mount three_mounts 2 \<noteq> None \<and> vfs_suspend_all (three_ops (\<lambda>m. Some EIO)) 7 three_mounts \<noteq> None"
proof -
  have "{m. mnt_lower three_mounts m \<noteq> None} = {2}" by (auto simp: three_mounts_def)
  then have "finite {m. mnt_lower three_mounts m \<noteq> None}" by simp
  from vfs_canonical_mount_total [OF this, of 2 "three_ops (\<lambda>m. Some EIO)" 7] show ?thesis by (auto split: if_splits)
qed

text \<open>
  C17: A suspension that succeeds covers every mount: the session lists exactly the mounts the
  iterator gave; the file system behind each is suspended, the mount was synchronised after that,
  and its update mutex is held; a mount operation that starts now is refused; and the file systems
  were suspended from the last mount to the first.
\<close>

theorem vfs_suspend_all_complete:
  assumes "vfs_suspend_all V curlwp v = Some (None, ms, v')"
  shows "map Some (map s_mp ms) = mountlist V \<and> s2_owner v' = Some curlwp \<and> fst (vfs_s2idle_mount_enter V v') = Some EBUSY \<and>
    (\<forall>m\<in>set (map s_mp ms). mnt_busy v m < mnt_busy v' m \<and> (\<exists>u. mnt_updating v m = Some u \<and> mutex_held v' u) \<and>
      (\<exists>c. vfs_s2idle_canonical_mount v m = Some (Some c) \<and> fs_suspended v' c \<and> synced_after (vfs_trace v') c m)) \<and>
    suspended_order (vfs_trace v') = suspended_order (vfs_trace v) @ rev (map s_mp (filter s_suspended ms))"
  using assms
proof (cases rule: suspend_all_result)
  case (success ms1 v1 ms2 ms3 v3)
  note p = phases_session [OF success(1)]
  note s = suspend_session [OF p(1) order_refl success(2)]
  have ready: "s2_ready v" using success(1) by (simp add: suspend_phases_def)
  have v': "s2_owner v' = Some curlwp" "s2_ready v'"
    using session_ofD(2,3) [OF conjunct1 [OF s]] ready by simp_all
  have "fst (vfs_s2idle_mount_enter V v') = Some EBUSY" using v' by (simp add: vfs_s2idle_mount_enter_def)
  moreover have "map Some (map s_mp ms) = mountlist V" using p(4) conjunct1 [OF conjunct2 [OF s]] by simp
  moreover note success_covered [OF success(1,2)]
  ultimately show ?thesis using v'(1) resume_order(1) [OF success(1,2)] by blast
qed simp_all

theorem vfs_suspend_all_complete_witness:
  "\<exists>ms v' c. vfs_suspend_all (three_ops (\<lambda>m. None)) 7 three_mounts = Some (None, ms, v') \<and> map s_mp ms = [0, 1, 2] \<and>
    fs_suspended v' c \<and> synced_after (vfs_trace v') c 2"
proof -
  obtain ms v' where r: "vfs_suspend_all (three_ops (\<lambda>m. None)) 7 three_mounts = Some (None, ms, v')" "map s_mp ms = [0, 1, 2]"
    using session_viewD [OF three_mounts_suspend] by (elim exE conjE) (rule that)
  have "2 \<in> set (map s_mp ms)" unfolding r(2) by simp
  then obtain c where "fs_suspended v' c" "synced_after (vfs_trace v') c 2" using vfs_suspend_all_complete [OF r(1)] by metis
  then show ?thesis by (intro exI conjI) (rule r, rule r, assumption+)
qed

text \<open>
  C16: Suspension leaves nothing behind. When it fails, at whatever step, every busy hold, update
  mutex, suspended file system, asynchronous-write flag and the gate itself are as they were before
  the call. When it succeeds, resuming puts all of them back, and resumes the file systems in the
  reverse of the order they were suspended in.
\<close>

theorem vfs_session_restores:
  assumes "vfs_suspend_all V curlwp v = Some (err, ms, v')" "vfs_awake v"
  shows "case err of
      Some e \<Rightarrow> ms = [] \<and> (\<exists>t. v' = v \<lparr> vfs_trace := t \<rparr>)
    | None \<Rightarrow> (\<exists>t s r. vfs_resume_all ms v' = v \<lparr> vfs_trace := t \<rparr> \<and>
        suspended_order (vfs_trace v') = suspended_order (vfs_trace v) @ s \<and>
        resumed_order t = resumed_order (vfs_trace v) @ r \<and> r = rev s)"
proof (cases err)
  case None
  show ?thesis using assms(1)
  proof (cases rule: suspend_all_result)
    case (success ms1 v1 ms2 ms3 v3)
    have s: "session_of (v \<lparr> s2_owner := Some curlwp \<rparr>) ms v'" using suspend_session [OF phases_session(1) [OF success(1)] order_refl success(2)] by blast
    have "s2_owner v = None" using success(1) by (simp add: suspend_phases_def)
    from session_resume_restores [OF s assms(2) this] obtain t where t: "vfs_resume_all ms v' = v \<lparr> vfs_trace := t \<rparr>" unfolding resume_all_eq by blast
    note o = resume_order [OF success(1,2)]
    have "resumed_order t = resumed_order (vfs_trace v) @ map s_mp (filter s_suspended ms)" using o(2,3) unfolding t by simp
    then show ?thesis using t o(1) None by auto
  qed (use None in simp_all)
next
  case (Some e)
  then show ?thesis using suspend_all_unwinds [OF assms(2)] assms(1) by simp
qed

theorem vfs_session_restores_witness:
  "(\<exists>ms v' t. vfs_suspend_all (three_ops (\<lambda>m. None)) 7 three_mounts = Some (None, ms, v') \<and> ms \<noteq> [] \<and> vfs_resume_all ms v' = three_mounts \<lparr> vfs_trace := t \<rparr>) \<and>
   (\<exists>t. vfs_suspend_all (three_ops (\<lambda>m. if m = 0 then Some EIO else None)) 7 three_mounts = Some (Some EIO, [], three_mounts \<lparr> vfs_trace := t \<rparr>))"
proof -
  obtain ms v' where r: "vfs_suspend_all (three_ops (\<lambda>m. None)) 7 three_mounts = Some (None, ms, v')" "map s_mp ms = [0, 1, 2]"
    using session_viewD [OF three_mounts_suspend] by (elim exE conjE) (rule that)
  obtain ms2 v2 where f: "vfs_suspend_all (three_ops (\<lambda>m. if m = 0 then Some EIO else None)) 7 three_mounts = Some (Some EIO, ms2, v2)"
    using session_viewD [OF three_mounts_fail] by (elim exE conjE) (rule that)
  obtain t where t: "vfs_resume_all ms v' = three_mounts \<lparr> vfs_trace := t \<rparr>" using vfs_session_restores [OF r(1) three_mounts_awake] by auto
  obtain t2 where t2: "ms2 = []" "v2 = three_mounts \<lparr> vfs_trace := t2 \<rparr>" using vfs_session_restores [OF f three_mounts_awake] by auto
  have "ms \<noteq> []" using r(2) by auto
  then show ?thesis by (intro conjI exI) (rule r(1), assumption, rule t, rule f [unfolded t2])
qed

end
