(* ===== verification/AcpiPower.thy ===== *)
theory AcpiPower
  imports Prelude
begin

text \<open>
  ACPI power resources and device power states, \<^verbatim>\<open>kernel/dev/acpi/acpi_power.c\<close>: the table of
  power resources with the devices that hold each, and the transitions that acquire and release
  them.

  Handles are numbers, 0 is \<^verbatim>\<open>NULL\<close>. The table is the list in the order of its \<^verbatim>\<open>next\<close> links, and
  a pointer to an entry is its handle; the \<^verbatim>\<open>prev\<close> links are the list backwards. The firmware is
  an argument \<open>acpi\<close> with a state of its own type: AML may do anything to that state, but runs under
  \<^verbatim>\<open>power_lock\<close> and cannot touch the table. Also arguments are the namespace and the device nodes.
  \<open>power_log\<close> records each evaluation of \<^verbatim>\<open>_ON\<close> and \<^verbatim>\<open>_OFF\<close> with the holders of the resource at
  that time.
\<close>

section \<open>State\<close>

datatype acpi_status = AE_OK | AE_ERROR | AE_NOT_FOUND | AE_TYPE | AE_BAD_VALUE | AE_BAD_PARAMETER | AE_ABORT_METHOD | AE_OTHER nat

datatype aml_name = AML_STA | AML_ON | AML_OFF | AML_PSC | AML_PS int | AML_PR int

abbreviation (input) ACPI_STATE_D0 :: int where "ACPI_STATE_D0 \<equiv> 0"
abbreviation (input) ACPI_STATE_D3 :: int where "ACPI_STATE_D3 \<equiv> 3"
abbreviation (input) ACPI_STATE_D3_COLD :: int where "ACPI_STATE_D3_COLD \<equiv> 4"
abbreviation (input) ACPI_STATE_ERROR :: int where "ACPI_STATE_ERROR \<equiv> - 1"
abbreviation (input) ACPI_POWER_NOPS3 :: u32 where "ACPI_POWER_NOPS3 \<equiv> 1"
abbreviation (input) POWER_STATE :: u32 where "POWER_STATE \<equiv> 1"
abbreviation (input) POWER_WAKE :: u32 where "POWER_WAKE \<equiv> 2"

record 'f acpi =
  AcpiGetHandle :: "nat \<Rightarrow> aml_name \<Rightarrow> acpi_status"
  acpi_eval_integer :: "nat \<Rightarrow> aml_name \<Rightarrow> 'f \<Rightarrow> (acpi_status \<times> u64) \<times> 'f"
  AcpiEvaluateObject :: "nat \<Rightarrow> aml_name \<Rightarrow> 'f \<Rightarrow> acpi_status \<times> 'f"
  eval_resource :: "nat \<Rightarrow> 'f \<Rightarrow> (acpi_status \<times> nat option) \<times> 'f" \<comment> \<open>the order of a power resource\<close>
  eval_package :: "nat \<Rightarrow> aml_name \<Rightarrow> 'f \<Rightarrow> (acpi_status \<times> (acpi_status + nat) list option) \<times> 'f"
  acpi_namespace :: "nat list"
  acpi_match_node :: "nat \<Rightarrow> nat option"
  ad_parent :: "nat \<Rightarrow> nat option"
  ad_power :: "nat \<Rightarrow> bool" \<comment> \<open>\<^verbatim>\<open>ACPI_DEVICE_POWER\<close> in its flags\<close>

record power_ref =
  r_device :: nat
  r_uses :: u32

record acpi_power_resource =
  pr_handle :: nat
  pr_order :: nat
  pr_refs :: "power_ref list"

record power_dev =
  pd_handle :: nat
  pd_state :: int
  pd_seeded :: bool
  pd_failed :: bool

record 'f power =
  power_resources :: "acpi_power_resource list"
  power_devices :: "power_dev list"
  power_discovered :: bool
  ad_state :: "nat \<Rightarrow> int"
  firmware :: 'f
  power_log :: "(nat \<times> bool \<times> power_ref list) list"

text \<open>Reading and writing an entry through a pointer to it.\<close>

definition res_refs :: "'f power \<Rightarrow> nat \<Rightarrow> power_ref list" where
  "res_refs p r = (case find (\<lambda>e. pr_handle e = r) (power_resources p) of None \<Rightarrow> [] | Some e \<Rightarrow> pr_refs e)"

definition set_refs :: "nat \<Rightarrow> power_ref list \<Rightarrow> 'f power \<Rightarrow> 'f power" where
  "set_refs r refs p = p \<lparr> power_resources := map (\<lambda>e. if pr_handle e = r then e \<lparr> pr_refs := refs \<rparr> else e) (power_resources p) \<rparr>"

definition get_dev :: "'f power \<Rightarrow> nat \<Rightarrow> power_dev" where
  "get_dev p h = (case find (\<lambda>d. pd_handle d = h) (power_devices p) of
     None \<Rightarrow> \<lparr> pd_handle = h, pd_state = ACPI_STATE_ERROR, pd_seeded = False, pd_failed = False \<rparr> | Some d \<Rightarrow> d)"

definition set_dev :: "nat \<Rightarrow> (power_dev \<Rightarrow> power_dev) \<Rightarrow> 'f power \<Rightarrow> 'f power" where
  "set_dev h g p = p \<lparr> power_devices := map (\<lambda>d. if pd_handle d = h then g d else d) (power_devices p) \<rparr>"

section \<open>Resources\<close>

definition power_sta :: "'f acpi \<Rightarrow> nat \<Rightarrow> 'f power \<Rightarrow> acpi_status \<times> u64 \<times> 'f power" where
  "power_sta E r p =
    (let ((rv, v), f) = acpi_eval_integer E r AML_STA (firmware p);
         v = (if rv = AE_OK then v else 0);
         rv = (if rv = AE_OK \<and> v > 1 then AE_BAD_VALUE else rv)
     in (rv, v, p \<lparr> firmware := f \<rparr>))"

definition power_method :: "'f acpi \<Rightarrow> nat \<Rightarrow> bool \<Rightarrow> 'f power \<Rightarrow> acpi_status \<times> 'f power" where
  "power_method E r on p =
    (let (rv, f) = AcpiEvaluateObject E r (if on then AML_ON else AML_OFF) (firmware p);
         p = p \<lparr> firmware := f, power_log := power_log p @ [(r, on, res_refs p r)] \<rparr>;
         (sr, sta, p) = power_sta E r p
     in if rv \<noteq> AE_OK then (rv, p)
        else if sr \<noteq> AE_OK then (sr, p)
        else (if sta = (if on then 1 else 0) then AE_OK else AE_ERROR, p))"

definition insert_resource :: "acpi_power_resource \<Rightarrow> acpi_power_resource list \<Rightarrow> acpi_power_resource list" where
  "insert_resource e es = takeWhile (\<lambda>at. pr_order at \<le> pr_order e) es @ [e] @ dropWhile (\<lambda>at. pr_order at \<le> pr_order e) es"

definition power_resource :: "'f acpi \<Rightarrow> nat \<Rightarrow> 'f power \<Rightarrow> acpi_status \<times> 'f power" where
  "power_resource E handle p =
    (if list_ex (\<lambda>e. pr_handle e = handle) (power_resources p) then (AE_OK, p)
     else
       let ((rv, obj), f) = eval_resource E handle (firmware p); p = p \<lparr> firmware := f \<rparr>
       in if rv \<noteq> AE_OK then (rv, p)
          else case obj of
            None \<Rightarrow> (AE_TYPE, p)
          | Some order \<Rightarrow> (AE_OK, p \<lparr> power_resources :=
              insert_resource \<lparr> pr_handle = handle, pr_order = order, pr_refs = [] \<rparr> (power_resources p) \<rparr>))"

text \<open>\<^verbatim>\<open>power_reference\<close> with \<^verbatim>\<open>create\<close>, and the \<open>|=\<close> its callers apply to the reference.\<close>

fun or_uses :: "nat \<Rightarrow> u32 \<Rightarrow> power_ref list \<Rightarrow> power_ref list" where
  "or_uses d use [] = []"
| "or_uses d use (ref # refs) = (if r_device ref = d then ref \<lparr> r_uses := r_uses ref OR use \<rparr> # refs else ref # or_uses d use refs)"

definition power_reference :: "nat \<Rightarrow> power_ref list \<Rightarrow> power_ref list" where
  "power_reference d refs = (if list_ex (\<lambda>ref. r_device ref = d) refs then refs else \<lparr> r_device = d, r_uses = 0 \<rparr> # refs)"

definition power_hold :: "nat \<Rightarrow> nat \<Rightarrow> u32 \<Rightarrow> 'f power \<Rightarrow> 'f power" where
  "power_hold r d use p = set_refs r (or_uses d use (power_reference d (res_refs p r))) p"

definition power_acquire :: "'f acpi \<Rightarrow> nat \<Rightarrow> nat \<Rightarrow> u32 \<Rightarrow> 'f power \<Rightarrow> acpi_status \<times> 'f power" where
  "power_acquire E r d use p =
    (let first = (res_refs p r = []); p = power_hold r d use p
     in if first then power_method E r True p
        else
          let (rv, sta, p) = power_sta E r p
          in if rv \<noteq> AE_OK then (rv, p)
             else if sta = 0 then power_method E r True p else (AE_OK, p))"

fun drop_uses :: "nat \<Rightarrow> u32 \<Rightarrow> power_ref list \<Rightarrow> power_ref list" where
  "drop_uses d use [] = []"
| "drop_uses d use (ref # refs) =
    (if r_device ref = d
     then (let uses = r_uses ref AND NOT use in if uses = 0 then refs else ref \<lparr> r_uses := uses \<rparr> # refs)
     else ref # drop_uses d use refs)"

definition power_release :: "'f acpi \<Rightarrow> nat \<Rightarrow> nat \<Rightarrow> u32 \<Rightarrow> 'f power \<Rightarrow> acpi_status \<times> 'f power" where
  "power_release E r d use p =
    (case find (\<lambda>ref. r_device ref = d) (res_refs p r) of
       None \<Rightarrow> (AE_OK, p)
     | Some ref \<Rightarrow>
         if r_uses ref AND use = 0 then (AE_OK, p)
         else
           let (rv, p) =
             (if r_uses ref AND NOT use = 0 \<and> length (res_refs p r) = 1 then power_method E r False p
              else
                let (rv, sta, p) = power_sta E r p
                in (if rv \<noteq> AE_OK then rv else if sta \<noteq> 1 then AE_ERROR else AE_OK, p))
           in if rv \<noteq> AE_OK then (rv, p) else (AE_OK, set_refs r (drop_uses d use (res_refs p r)) p))"

definition power_contains :: "nat list \<Rightarrow> nat \<Rightarrow> bool" where
  "power_contains ps r \<longleftrightarrow> list_ex (\<lambda>x. x = r) ps"

fun package_loop :: "'f acpi \<Rightarrow> (acpi_status + nat) list \<Rightarrow> nat list \<Rightarrow> 'f power \<Rightarrow> acpi_status \<times> nat list \<times> 'f power" where
  "package_loop E [] ps p = (AE_OK, ps, p)"
| "package_loop E (Inl rv # els) ps p = (rv, ps, p)"
| "package_loop E (Inr r # els) ps p =
    (let (rv, p) = power_resource E r p
     in if rv \<noteq> AE_OK then (rv, ps, p)
        else package_loop E els (if power_contains ps r then ps else r # ps) p)"

definition power_package :: "'f acpi \<Rightarrow> nat \<Rightarrow> int \<Rightarrow> nat list \<Rightarrow> 'f power \<Rightarrow> acpi_status \<times> nat list \<times> 'f power" where
  "power_package E handle state ps p =
    (let rv = AcpiGetHandle E handle (AML_PR state)
     in if rv = AE_NOT_FOUND then (AE_OK, ps, p)
        else if rv \<noteq> AE_OK then (rv, ps, p)
        else
          let ((rv, obj), f) = eval_package E handle (AML_PR state) (firmware p); p = p \<lparr> firmware := f \<rparr>
          in if rv \<noteq> AE_OK then (rv, ps, p)
             else case obj of None \<Rightarrow> (AE_TYPE, ps, p) | Some els \<Rightarrow> package_loop E els ps p)"

section \<open>Devices\<close>

definition power_device :: "nat \<Rightarrow> 'f power \<Rightarrow> 'f power" where
  "power_device h p =
    (if list_ex (\<lambda>d. pd_handle d = h) (power_devices p) then p
     else p \<lparr> power_devices := \<lparr> pd_handle = h, pd_state = ACPI_STATE_ERROR, pd_seeded = False, pd_failed = False \<rparr> # power_devices p \<rparr>)"

definition power_integer :: "'f acpi \<Rightarrow> nat \<Rightarrow> aml_name \<Rightarrow> 'f power \<Rightarrow> acpi_status \<times> u64 \<times> 'f power" where
  "power_integer E handle method p =
    (let rv = AcpiGetHandle E handle method
     in if rv \<noteq> AE_OK then (rv, 0, p)
        else
          let ((rv, v), f) = acpi_eval_integer E handle method (firmware p)
          in (if rv = AE_NOT_FOUND then AE_ERROR else rv, v, p \<lparr> firmware := f \<rparr>))"

definition power_psc :: "'f acpi \<Rightarrow> nat \<Rightarrow> 'f power \<Rightarrow> acpi_status \<times> int \<times> 'f power" where
  "power_psc E h p =
    (let (rv, v, p) = power_integer E h AML_PSC p;
         boot = (if rv = AE_NOT_FOUND then
             (case acpi_match_node E h of None \<Rightarrow> None
              | Some ad \<Rightarrow> if ad_state p ad \<ge> ACPI_STATE_D0 \<and> ad_state p ad \<le> ACPI_STATE_D3_COLD then Some (ad_state p ad) else None)
           else None)
     in case boot of
          Some state \<Rightarrow> (AE_OK, state, p)
        | None \<Rightarrow>
            if rv \<noteq> AE_OK then (rv, ACPI_STATE_ERROR, p)
            else if v > 3 then (AE_BAD_VALUE, ACPI_STATE_ERROR, p)
            else (AE_OK, uint v, p))"

fun seed_packages :: "'f acpi \<Rightarrow> nat \<Rightarrow> int list \<Rightarrow> nat list \<Rightarrow> 'f power \<Rightarrow> acpi_status \<times> nat list \<times> 'f power" where
  "seed_packages E h [] ps p = (AE_OK, ps, p)"
| "seed_packages E h (state # states) ps p =
    (let (rv, ps, p) = power_package E h state ps p
     in if rv \<noteq> AE_OK then (rv, ps, p) else seed_packages E h states ps p)"

fun seed_holds :: "'f acpi \<Rightarrow> nat \<Rightarrow> bool \<Rightarrow> nat list \<Rightarrow> bool \<Rightarrow> 'f power \<Rightarrow> acpi_status \<times> bool \<times> 'f power" where
  "seed_holds E h d0 [] cold p = (AE_OK, cold, p)"
| "seed_holds E h d0 (r # ps) cold p =
    (let (rv, sta, p) = power_sta E r p
     in if rv \<noteq> AE_OK then (rv, cold, p)
        else if sta = 0 then seed_holds E h d0 ps (cold \<or> d0) p
        else seed_holds E h d0 ps cold (power_hold r h POWER_STATE p))"

definition power_seed :: "'f acpi \<Rightarrow> nat \<Rightarrow> 'f power \<Rightarrow> acpi_status \<times> 'f power" where
  "power_seed E h p =
    (if pd_seeded (get_dev p h) then (AE_OK, p)
     else
       let (rv, sta, p) = power_integer E h AML_STA p
       in if rv = AE_OK \<and> sta AND 3 \<noteq> 3 then (AE_OK, p)
          else if rv \<noteq> AE_OK \<and> rv \<noteq> AE_NOT_FOUND then (rv, p)
          else
            let (rv, state, p) = power_psc E h p;
                p = (if rv = AE_OK then set_dev h (\<lambda>d. d \<lparr> pd_state := state \<rparr>) p else p);
                first = (if rv = AE_OK then state else ACPI_STATE_D0);
                fin = (if rv = AE_OK then (if state = ACPI_STATE_D3_COLD then ACPI_STATE_D3 else state) else ACPI_STATE_D3);
                (rv, ps, p) = seed_packages E h [first..fin] [] p
            in if rv \<noteq> AE_OK then (rv, p)
               else
                 let (rv, cold, p) = seed_holds E h (first = ACPI_STATE_D0 \<and> fin = ACPI_STATE_D0) ps False p
                 in if rv \<noteq> AE_OK then (rv, p)
                    else
                      let p = (if cold then set_dev h (\<lambda>d. d \<lparr> pd_state := ACPI_STATE_D3_COLD \<rparr>) p else p)
                      in (AE_OK, set_dev h (\<lambda>d. d \<lparr> pd_seeded := True \<rparr>) p))"

fun discover_methods :: "'f acpi \<Rightarrow> nat \<Rightarrow> int list \<Rightarrow> 'f power \<Rightarrow> acpi_status \<times> 'f power" where
  "discover_methods E h [] p = (AE_OK, p)"
| "discover_methods E h (n # ns) p =
    (let rv = AcpiGetHandle E h (AML_PR n)
     in if rv = AE_OK then power_seed E h (power_device h p)
        else if rv \<noteq> AE_NOT_FOUND then (rv, p)
        else discover_methods E h ns p)"

definition power_discover_one :: "'f acpi \<Rightarrow> nat \<Rightarrow> 'f power \<Rightarrow> acpi_status \<times> 'f power" where
  "power_discover_one E h p = discover_methods E h [0..3] p"

fun walk_namespace :: "'f acpi \<Rightarrow> nat list \<Rightarrow> 'f power \<Rightarrow> acpi_status \<times> 'f power" where
  "walk_namespace E [] p = (AE_OK, p)"
| "walk_namespace E (h # hs) p =
    (let (rv, p) = power_discover_one E h p in if rv \<noteq> AE_OK then (rv, p) else walk_namespace E hs p)"

definition power_discover :: "'f acpi \<Rightarrow> 'f power \<Rightarrow> acpi_status \<times> 'f power" where
  "power_discover E p =
    (if power_discovered p then (AE_OK, p)
     else
       let (rv, p) = walk_namespace E (acpi_namespace E) p
       in (rv, if rv = AE_OK then p \<lparr> power_discovered := True \<rparr> else p))"

section \<open>The interface\<close>

definition acpi_power_register :: "'f acpi \<Rightarrow> nat \<Rightarrow> 'f power \<Rightarrow> bool \<times> 'f power" where
  "acpi_power_register E handle p =
    (if handle = 0 then (False, p)
     else let (rv, p) = power_seed E handle (power_device handle p) in (rv = AE_OK, p))"

fun release_loop :: "'f acpi \<Rightarrow> nat \<Rightarrow> u32 \<Rightarrow> nat list \<Rightarrow> nat list \<Rightarrow> 'f power \<Rightarrow> acpi_status \<times> 'f power" where
  "release_loop E h use target [] p = (AE_OK, p)"
| "release_loop E h use target (r # rs) p =
    (if power_contains target r then release_loop E h use target rs p
     else
       let (rv, p) = power_release E r h use p
       in if rv \<noteq> AE_OK then (rv, p) else release_loop E h use target rs p)"

fun remove_dev :: "nat \<Rightarrow> power_dev list \<Rightarrow> power_dev list" where
  "remove_dev h [] = []"
| "remove_dev h (d # ds) = (if pd_handle d = h then ds else d # remove_dev h ds)"

definition acpi_power_deregister :: "'f acpi \<Rightarrow> nat \<Rightarrow> 'f power \<Rightarrow> 'f power" where
  "acpi_power_deregister E handle p =
    (if handle = 0 then p
     else
       let (rv, p) = power_discover E p;
           (rv, p) = (if rv \<noteq> AE_OK then (rv, p)
             else release_loop E handle (POWER_STATE OR POWER_WAKE) [] (rev (map pr_handle (power_resources p))) p);
           p = (if rv = AE_OK then p \<lparr> power_devices := remove_dev handle (power_devices p) \<rparr> else p)
       in if rv \<noteq> AE_OK
          then set_dev handle (\<lambda>d. d \<lparr> pd_state := ACPI_STATE_ERROR, pd_failed := True \<rparr>) (power_device handle p) else p)"

fun sta_loop :: "'f acpi \<Rightarrow> nat list \<Rightarrow> bool \<Rightarrow> 'f power \<Rightarrow> acpi_status \<times> bool \<times> 'f power" where
  "sta_loop E [] cold p = (AE_OK, cold, p)"
| "sta_loop E (r # ps) cold p =
    (let (rv, sta, p) = power_sta E r p
     in if rv \<noteq> AE_OK then (rv, cold, p) else sta_loop E ps (cold \<or> sta = 0) p)"

definition set_ad_state :: "'f acpi \<Rightarrow> nat \<Rightarrow> int \<Rightarrow> 'f power \<Rightarrow> 'f power" where
  "set_ad_state E handle state p =
    (case acpi_match_node E handle of None \<Rightarrow> p | Some ad \<Rightarrow> p \<lparr> ad_state := (ad_state p)(ad := state) \<rparr>)"

definition power_current :: "'f acpi \<Rightarrow> nat \<Rightarrow> 'f power \<Rightarrow> acpi_status \<times> int \<times> 'f power" where
  "power_current E handle p =
    (let (rv, p) = power_seed E handle p
     in if rv \<noteq> AE_OK then (rv, ACPI_STATE_ERROR, p)
        else
          let (rv, ps, p) = power_package E handle ACPI_STATE_D0 [] p
          in if rv \<noteq> AE_OK then (rv, ACPI_STATE_ERROR, p)
             else
               let (rv, cold, p) = sta_loop E ps False p
               in if rv \<noteq> AE_OK then (rv, ACPI_STATE_ERROR, p)
                  else if cold then (AE_OK, ACPI_STATE_D3_COLD, set_dev handle (\<lambda>d. d \<lparr> pd_state := ACPI_STATE_D3_COLD \<rparr>) p)
                  else if pd_failed (get_dev p handle) then (AE_ERROR, ACPI_STATE_ERROR, p)
                  else if pd_state (get_dev p handle) \<noteq> ACPI_STATE_ERROR then (AE_OK, pd_state (get_dev p handle), p)
                  else power_psc E handle p)"

definition acpi_power_get :: "'f acpi \<Rightarrow> nat \<Rightarrow> 'f power \<Rightarrow> bool \<times> int \<times> 'f power" where
  "acpi_power_get E handle p =
    (if handle = 0 then (False, ACPI_STATE_ERROR, p)
     else
       let (rv, current, p) = power_current E handle (power_device handle p);
           current = (if rv \<noteq> AE_OK then ACPI_STATE_ERROR else current)
       in (rv = AE_OK, current, set_ad_state E handle current p))"

definition power_ps :: "'f acpi \<Rightarrow> nat \<Rightarrow> int \<Rightarrow> 'f power \<Rightarrow> acpi_status \<times> 'f power" where
  "power_ps E h state p =
    (let method = AML_PS (if state = ACPI_STATE_D3_COLD then ACPI_STATE_D3 else state); rv = AcpiGetHandle E h method
     in if rv = AE_NOT_FOUND then (AE_OK, p)
        else if rv \<noteq> AE_OK then (rv, p)
        else let (rv, f) = AcpiEvaluateObject E h method (firmware p) in (rv, p \<lparr> firmware := f \<rparr>))"

fun acquire_loop :: "'f acpi \<Rightarrow> nat \<Rightarrow> nat list \<Rightarrow> nat list \<Rightarrow> 'f power \<Rightarrow> acpi_status \<times> 'f power" where
  "acquire_loop E h target [] p = (AE_OK, p)"
| "acquire_loop E h target (r # rs) p =
    (if \<not> power_contains target r then acquire_loop E h target rs p
     else
       let (rv, p) = power_acquire E r h POWER_STATE p
       in if rv \<noteq> AE_OK then (rv, p) else acquire_loop E h target rs p)"

definition parent_asleep :: "'f acpi \<Rightarrow> nat \<Rightarrow> int \<Rightarrow> 'f power \<Rightarrow> bool" where
  "parent_asleep E handle state p = (case acpi_match_node E handle of None \<Rightarrow> False
     | Some ad \<Rightarrow> (case ad_parent E ad of None \<Rightarrow> False | Some pa \<Rightarrow> ad_power E pa \<and> ad_state p pa > state))"

definition power_transition :: "'f acpi \<Rightarrow> nat \<Rightarrow> int \<Rightarrow> u32 \<Rightarrow> 'f power \<Rightarrow> acpi_status \<times> nat list \<times> 'f power" where
  "power_transition E handle state flags p =
    (let (rv, p) = power_discover E p
     in if rv \<noteq> AE_OK then (rv, [], p) else
     let (rv, p) = power_seed E handle p
     in if rv \<noteq> AE_OK then (rv, [], p)
     else if parent_asleep E handle state p then (AE_ABORT_METHOD, [], p) else
     let (rv, target, p) = (if state \<noteq> ACPI_STATE_D3_COLD then power_package E handle state [] p else (AE_OK, [], p))
     in if rv \<noteq> AE_OK then (rv, target, p) else
     let (rv, p) = acquire_loop E handle target (map pr_handle (power_resources p)) p
     in if rv \<noteq> AE_OK then (rv, target, p) else
     let (rv, p) = (if flags AND ACPI_POWER_NOPS3 = 0 then power_ps E handle state p else (AE_OK, p))
     in if rv \<noteq> AE_OK then (rv, target, p) else
     let (rv, p) = release_loop E handle POWER_STATE target (rev (map pr_handle (power_resources p))) p
     in (rv, target, p))"

definition acpi_power_set_flags :: "'f acpi \<Rightarrow> nat \<Rightarrow> int \<Rightarrow> u32 \<Rightarrow> 'f power \<Rightarrow> bool \<times> 'f power" where
  "acpi_power_set_flags E handle state flags p =
    (if handle = 0 \<or> state < ACPI_STATE_D0 \<or> state > ACPI_STATE_D3_COLD then (False, p)
     else if flags AND NOT ACPI_POWER_NOPS3 \<noteq> 0 \<or> flags \<noteq> 0 \<and> state \<noteq> ACPI_STATE_D3_COLD then (False, p)
     else
       let (rv, target, p) = power_transition E handle state flags (power_device handle p);
           p = set_dev handle (\<lambda>d. if rv = AE_OK then d \<lparr> pd_state := state, pd_failed := False \<rparr>
                 else d \<lparr> pd_state := ACPI_STATE_ERROR, pd_failed := True \<rparr>) p
       in (rv = AE_OK, set_ad_state E handle (pd_state (get_dev p handle)) p))"

definition acpi_power_set :: "'f acpi \<Rightarrow> nat \<Rightarrow> int \<Rightarrow> 'f power \<Rightarrow> bool \<times> 'f power" where
  "acpi_power_set E handle state p = acpi_power_set_flags E handle state 0 p"

definition acpi_power_res :: "'f acpi \<Rightarrow> nat \<Rightarrow> nat \<Rightarrow> bool \<Rightarrow> 'f power \<Rightarrow> acpi_status \<times> 'f power" where
  "acpi_power_res E handle device on p =
    (if handle = 0 \<or> device = 0 then (AE_BAD_PARAMETER, p)
     else
       let (rv, p) = power_discover E p
       in if rv \<noteq> AE_OK then (rv, p)
          else
            let (rv, p) = power_resource E handle p
            in if rv \<noteq> AE_OK then (rv, p)
               else if on then power_acquire E handle device POWER_WAKE p else power_release E handle device POWER_WAKE p)"

section \<open>Ownership\<close>

text \<open>The uses device \<open>d\<close> holds of resource \<open>r\<close>, and that one set of uses is within another.\<close>

definition ref_uses :: "nat \<Rightarrow> power_ref list \<Rightarrow> u32" where
  "ref_uses d refs = (case find (\<lambda>ref. r_device ref = d) refs of None \<Rightarrow> 0 | Some ref \<Rightarrow> r_uses ref)"

definition power_uses :: "'f power \<Rightarrow> nat \<Rightarrow> nat \<Rightarrow> u32" where
  "power_uses p r d = ref_uses d (res_refs p r)"

definition within :: "u32 \<Rightarrow> u32 \<Rightarrow> bool" where
  "within a b \<longleftrightarrow> a AND NOT b = 0"

lemma within_bit: "within a b \<longleftrightarrow> (\<forall>n. bit a n \<longrightarrow> bit b n)"
proof
  assume "within a b"
  show "\<forall>n. bit a n \<longrightarrow> bit b n"
  proof (intro allI impI)
    fix n assume "bit a n"
    have "\<not> bit (a AND NOT b) n" using \<open>within a b\<close> by (simp add: within_def)
    then show "bit b n" using \<open>bit a n\<close> by (auto simp: bit_simps dest: bit_imp_le_length)
  qed
next
  assume "\<forall>n. bit a n \<longrightarrow> bit b n"
  then show "within a b" unfolding within_def by (intro bit_eqI) (auto simp: bit_simps)
qed

lemma within_simps [simp, intro]: "within a a" "within 0 a" "within a (a OR b)" "within a (b OR a)"
  by (auto simp: within_bit bit_simps)

lemma mask_simps [simp]: "(a OR m) AND NOT m = a AND NOT (m :: u32)" "a AND NOT m AND NOT m = a AND NOT m"
  by (auto intro!: bit_eqI simp: bit_simps)

lemma within_trans: "within a b \<Longrightarrow> within b c \<Longrightarrow> within a c"
  by (simp add: within_bit)

text \<open>The table: in the order of the resources, each once, and every reference in use.\<close>

definition refs_ok :: "power_ref list \<Rightarrow> bool" where
  "refs_ok refs \<longleftrightarrow> distinct (map r_device refs) \<and> (\<forall>ref\<in>set refs. r_uses ref \<noteq> 0)"

definition power_ok :: "'f power \<Rightarrow> bool" where
  "power_ok p \<longleftrightarrow> distinct (map pr_handle (power_resources p)) \<and> sorted (map pr_order (power_resources p)) \<and>
    (\<forall>e\<in>set (power_resources p). refs_ok (pr_refs e)) \<and> distinct (map pd_handle (power_devices p))"

text \<open>
  \<open>power_grow m\<close>: nobody loses a use, and nothing is switched off. \<open>power_step m h\<close>: nobody but \<open>h\<close>
  loses a use, and what is switched off has \<open>h\<close> as its single holder. Only uses in the mask \<open>m\<close> change.
\<close>

definition power_grow :: "u32 \<Rightarrow> 'f power \<Rightarrow> 'f power \<Rightarrow> bool" where
  "power_grow m p p' \<longleftrightarrow> (power_ok p \<longrightarrow> power_ok p' \<and> (\<forall>r d. power_uses p' r d AND NOT m = power_uses p r d AND NOT m)) \<and> (\<forall>r d. within (power_uses p r d) (power_uses p' r d)) \<and>
    (\<exists>l. power_log p' = power_log p @ l \<and> (\<forall>x\<in>set l. fst (snd x)))"

definition power_step :: "u32 \<Rightarrow> nat \<Rightarrow> 'f power \<Rightarrow> 'f power \<Rightarrow> bool" where
  "power_step m h p p' \<longleftrightarrow> (power_ok p \<longrightarrow> power_ok p' \<and> (\<forall>r d. power_uses p' r d AND NOT m = power_uses p r d AND NOT m)) \<and> (\<forall>r d. d \<noteq> h \<longrightarrow> within (power_uses p r d) (power_uses p' r d)) \<and>
    (\<exists>l. power_log p' = power_log p @ l \<and> (\<forall>x\<in>set l. fst (snd x) \<or> (\<exists>u. snd (snd x) = [\<lparr> r_device = h, r_uses = u \<rparr>])))"

lemma power_grow_refl [simp, intro]: "power_grow m p p"
  by (simp add: power_grow_def)

lemma log_trans:
  "\<exists>l. b = a @ l \<and> (\<forall>x\<in>set l. P x) \<Longrightarrow> \<exists>l. c = b @ l \<and> (\<forall>x\<in>set l. P x) \<Longrightarrow> \<exists>l. c = a @ l \<and> (\<forall>x\<in>set l. P x)"
  by fastforce

lemma power_grow_trans: "power_grow m p q \<Longrightarrow> power_grow m q s \<Longrightarrow> power_grow m p s"
  unfolding power_grow_def by (elim conjE, intro conjI) (simp, blast intro: within_trans, rule log_trans)

lemma power_grow_step: "power_grow m p q \<Longrightarrow> power_step m h p q"
  unfolding power_grow_def power_step_def by fastforce

lemma power_step_refl [simp, intro]: "power_step m h p p"
  by (simp add: power_step_def)

lemma power_step_trans: "power_step m h p q \<Longrightarrow> power_step m h q s \<Longrightarrow> power_step m h p s"
  unfolding power_step_def by (elim conjE, intro conjI) (simp, blast intro: within_trans, rule log_trans)

lemma power_grow_frame:
  "power_resources q = power_resources p \<Longrightarrow> power_log q = power_log p \<Longrightarrow> (distinct (map pd_handle (power_devices p)) \<Longrightarrow> distinct (map pd_handle (power_devices q))) \<Longrightarrow> power_grow m p q"
  by (simp add: power_grow_def power_ok_def power_uses_def res_refs_def)

lemma firmware_grow [simp, intro]: "power_grow m p (p \<lparr> firmware := f \<rparr>)" "power_grow m p (p \<lparr> power_discovered := b \<rparr>)"
  "power_grow m p (p \<lparr> ad_state := a \<rparr>)"
  by (auto intro: power_grow_frame)

lemma set_dev_grow: "(\<And>d. pd_handle (g d) = pd_handle d) \<Longrightarrow> power_grow m p (set_dev h g p)"
proof (rule power_grow_frame)
  assume g: "\<And>d. pd_handle (g d) = pd_handle d"
  have "map pd_handle (power_devices (set_dev h g p)) = map pd_handle (power_devices p)" by (simp add: set_dev_def g)
  then show "distinct (map pd_handle (power_devices p)) \<Longrightarrow> distinct (map pd_handle (power_devices (set_dev h g p)))" by simp
qed (simp_all add: set_dev_def)

lemma power_device_grow [simp, intro]: "power_grow m p (power_device h p)"
  by (rule power_grow_frame) (auto simp: power_device_def list_ex_iff)

text \<open>The lists of references.\<close>

lemma find_device: "find (\<lambda>ref. r_device ref = d) refs = Some ref \<Longrightarrow> ref \<in> set refs \<and> r_device ref = d"
  by (induction refs) (auto split: if_splits)

lemma ref_uses_simps [simp]:
  "ref_uses d [] = 0" "ref_uses d (ref # refs) = (if r_device ref = d then r_uses ref else ref_uses d refs)"
  by (simp_all add: ref_uses_def)

lemma ref_uses_or: "list_ex (\<lambda>ref. r_device ref = d) refs \<Longrightarrow> ref_uses d' (or_uses d use refs) = (if d' = d then ref_uses d refs OR use else ref_uses d' refs)"
  by (induction refs) auto

lemma or_uses_devices [simp]: "map r_device (or_uses d use refs) = map r_device refs"
  by (induction refs) auto

lemma ref_uses_absent: "\<not> list_ex (\<lambda>ref. r_device ref = d) refs \<Longrightarrow> ref_uses d refs = 0"
  by (induction refs) auto

lemma ref_uses_hold: "ref_uses d' (or_uses d use (power_reference d refs)) = (if d' = d then ref_uses d refs OR use else ref_uses d' refs)"
  by (cases "list_ex (\<lambda>ref. r_device ref = d) refs") (simp_all add: power_reference_def ref_uses_or ref_uses_absent)

lemma or_uses_nonzero: "\<forall>ref\<in>set refs. r_uses ref \<noteq> 0 \<Longrightarrow> \<forall>ref\<in>set (or_uses d use refs). r_uses ref \<noteq> 0"
  by (induction refs) (auto simp: or_eq_0_iff)

lemma refs_ok_hold: "refs_ok refs \<Longrightarrow> use \<noteq> 0 \<Longrightarrow> refs_ok (or_uses d use (power_reference d refs))"
  by (auto simp: refs_ok_def power_reference_def list_ex_iff or_uses_nonzero)

lemma drop_uses_devices: "set (map r_device (drop_uses d use refs)) \<subseteq> set (map r_device refs)"
  by (induction refs) (auto simp: Let_def)

lemma refs_ok_drop: "refs_ok refs \<Longrightarrow> refs_ok (drop_uses d use refs)"
proof (induction refs)
  case (Cons ref refs)
  then show ?case using drop_uses_devices [of d use refs] by (auto simp: refs_ok_def Let_def)
qed (simp add: refs_ok_def)

lemma ref_uses_notin: "d \<notin> r_device ` set refs \<Longrightarrow> ref_uses d refs = 0"
  by (induction refs) auto

lemma ref_uses_drop_other: "d' \<noteq> d \<Longrightarrow> ref_uses d' (drop_uses d use refs) = ref_uses d' refs"
  by (induction refs) (auto simp: Let_def)

lemma ref_uses_drop: "refs_ok refs \<Longrightarrow> ref_uses d (drop_uses d use refs) = ref_uses d refs AND NOT use"
proof (induction refs)
  case (Cons ref refs)
  have "ref_uses d refs = 0" if "r_device ref = d" using Cons.prems that by (intro ref_uses_notin) (simp add: refs_ok_def)
  then show ?case using Cons by (simp add: refs_ok_def Let_def)
qed simp

text \<open>The entries.\<close>

lemma find_map_refs:
  "find (\<lambda>e. pr_handle e = r') (map (\<lambda>e. if pr_handle e = r then e \<lparr> pr_refs := refs \<rparr> else e) es) =
    map_option (\<lambda>e. if pr_handle e = r then e \<lparr> pr_refs := refs \<rparr> else e) (find (\<lambda>e. pr_handle e = r') es)"
  by (induction es) auto

lemma find_handle: "find (\<lambda>e. pr_handle e = r) es = Some e \<Longrightarrow> e \<in> set es \<and> pr_handle e = r"
  by (induction es) (auto split: if_splits)

definition has_resource :: "'f power \<Rightarrow> nat \<Rightarrow> bool" where
  "has_resource p r \<longleftrightarrow> r \<in> set (map pr_handle (power_resources p))"

lemma find_handle_None: "find (\<lambda>e. pr_handle e = r) es = None \<longleftrightarrow> r \<notin> set (map pr_handle es)"
  by (induction es) auto

lemma res_refs_set: "res_refs (set_refs r refs p) r' = (if r' = r \<and> has_resource p r then refs else res_refs p r')"
proof (cases "find (\<lambda>e. pr_handle e = r') (power_resources p)")
  case None
  then have "r' \<notin> set (map pr_handle (power_resources p))" by (simp only: find_handle_None not_False_eq_True)
  then show ?thesis using None by (auto simp: res_refs_def set_refs_def has_resource_def find_map_refs)
next
  case (Some e)
  have "e \<in> set (power_resources p)" "pr_handle e = r'" using find_handle [OF Some] by auto
  then show ?thesis using Some by (auto simp: res_refs_def set_refs_def has_resource_def find_map_refs)
qed

lemma set_refs_handles [simp]: "map pr_handle (power_resources (set_refs r refs p)) = map pr_handle (power_resources p)"
  "map pr_order (power_resources (set_refs r refs p)) = map pr_order (power_resources p)"
  "power_log (set_refs r refs p) = power_log p" "power_devices (set_refs r refs p) = power_devices p"
  by (auto simp: set_refs_def)

lemma power_ok_set_refs: "power_ok p \<Longrightarrow> refs_ok refs \<Longrightarrow> power_ok (set_refs r refs p)"
  unfolding power_ok_def set_refs_handles by (auto simp: set_refs_def)

lemma power_ok_refs: "power_ok p \<Longrightarrow> refs_ok (res_refs p r)"
  by (auto simp: power_ok_def res_refs_def refs_ok_def split: option.split dest: find_handle)

lemma power_uses_hold: "power_uses (power_hold r d use p) r' d' = (if r' = r \<and> d' = d \<and> has_resource p r then power_uses p r d OR use else power_uses p r' d')"
  by (simp add: power_uses_def power_hold_def res_refs_set ref_uses_hold)

lemma power_hold_grow: "use \<noteq> 0 \<Longrightarrow> power_grow use p (power_hold r d use p)"
  unfolding power_grow_def by (simp add: power_uses_hold) (simp add: power_hold_def power_ok_set_refs refs_ok_hold power_ok_refs)

text \<open>A new entry.\<close>

lemma find_insert_resource:
  assumes "\<not> list_ex (\<lambda>x. pr_handle x = pr_handle e) es"
  shows "find (\<lambda>x. pr_handle x = r) (insert_resource e es) = (if r = pr_handle e then Some e else find (\<lambda>x. pr_handle x = r) es)"
proof -
  have "find (\<lambda>x. pr_handle x = r) (ys @ [e] @ zs) = (if r = pr_handle e then Some e else find (\<lambda>x. pr_handle x = r) (ys @ zs))"
    if "\<not> list_ex (\<lambda>x. pr_handle x = pr_handle e) (ys @ zs)" for ys zs
    using that by (induction ys) auto
  from this [of "takeWhile (\<lambda>at. pr_order at \<le> pr_order e) es" "dropWhile (\<lambda>at. pr_order at \<le> pr_order e) es"]
  show ?thesis unfolding insert_resource_def using assms by simp
qed

lemma set_insert_resource: "set (insert_resource e es) = insert e (set es)"
  unfolding insert_resource_def by (subst (3) takeWhile_dropWhile_id [symmetric, of _ "\<lambda>at. pr_order at \<le> pr_order e"]) (auto simp del: takeWhile_dropWhile_id)

lemma sorted_insert_resource: "sorted (map pr_order es) \<Longrightarrow> sorted (map pr_order (insert_resource e es))"
proof (induction es)
  case (Cons x es)
  have "set (map pr_order (insert_resource e es)) = insert (pr_order e) (set (map pr_order es))" by (simp add: set_insert_resource)
  then show ?case using Cons by (auto simp: insert_resource_def)
qed (simp add: insert_resource_def)

lemma distinct_insert_resource:
  assumes "distinct (map pr_handle es)" "pr_handle e \<notin> pr_handle ` set es"
  shows "distinct (map pr_handle (insert_resource e es))"
proof -
  let ?t = "takeWhile (\<lambda>at. pr_order at \<le> pr_order e) es" and ?d = "dropWhile (\<lambda>at. pr_order at \<le> pr_order e) es"
  have "distinct (map pr_handle (?t @ ?d))" "pr_handle e \<notin> pr_handle ` set (?t @ ?d)" using assms by simp_all
  then show ?thesis unfolding insert_resource_def map_append set_append image_Un distinct_append by auto
qed

lemma power_uses_insert:
  assumes "\<not> list_ex (\<lambda>x. pr_handle x = r) (power_resources p)"
  shows "power_uses (p \<lparr> power_resources := insert_resource \<lparr> pr_handle = r, pr_order = n, pr_refs = [] \<rparr> (power_resources p) \<rparr>) r' d = power_uses p r' d"
proof -
  have "find (\<lambda>x. pr_handle x = r) (power_resources p) = None" using assms by (auto simp: find_None_iff list_ex_iff)
  then show ?thesis using find_insert_resource [of "\<lparr> pr_handle = r, pr_order = n, pr_refs = [] \<rparr>" "power_resources p" r'] assms
    by (auto simp: power_uses_def res_refs_def)
qed

lemma power_insert_grow:
  assumes "\<not> list_ex (\<lambda>x. pr_handle x = r) (power_resources p)"
  shows "power_grow m p (p \<lparr> power_resources := insert_resource \<lparr> pr_handle = r, pr_order = n, pr_refs = [] \<rparr> (power_resources p) \<rparr>)"
proof -
  have "r \<notin> pr_handle ` set (power_resources p)" using assms by (auto simp: list_ex_iff)
  then show ?thesis unfolding power_grow_def power_uses_insert [OF assms]
    by (auto simp: power_ok_def sorted_insert_resource distinct_insert_resource set_insert_resource refs_ok_def)
qed

lemma power_resource_grow:
  assumes "power_resource E r p = (rv, p')"
  shows "power_grow m p p'" "rv = AE_OK \<Longrightarrow> has_resource p' r"
proof -
  obtain v obj f where f: "eval_resource E r (firmware p) = ((v, obj), f)" by (metis surj_pair)
  let ?p = "p \<lparr> firmware := f \<rparr>"
  have g: "power_grow m p (?p \<lparr> power_resources := insert_resource \<lparr> pr_handle = r, pr_order = n, pr_refs = [] \<rparr> (power_resources ?p) \<rparr>)"
    if "\<not> list_ex (\<lambda>x. pr_handle x = r) (power_resources p)" for n
    by (rule power_grow_trans [OF firmware_grow(1) [of m p f] power_insert_grow]) (use that in simp)
  show "power_grow m p p'" using assms g unfolding power_resource_def f by (auto simp: Let_def split: if_splits option.splits)
  show "rv = AE_OK \<Longrightarrow> has_resource p' r" using assms unfolding power_resource_def f
    by (auto simp: Let_def has_resource_def list_ex_iff set_insert_resource split: if_splits option.splits)
qed

text \<open>Methods change the firmware and the log only.\<close>

lemma power_sta_eq:
  assumes "power_sta E r p = (rv, v, p')"
  shows "\<exists>f. p' = p \<lparr> firmware := f \<rparr>"
  using assms by (auto simp: power_sta_def Let_def split: prod.splits)

lemma power_method_eq:
  assumes "power_method E r on p = (rv, p')"
  shows "\<exists>f. p' = p \<lparr> firmware := f, power_log := power_log p @ [(r, on, res_refs p r)] \<rparr>"
proof -
  obtain v f where f: "AcpiEvaluateObject E r (if on then AML_ON else AML_OFF) (firmware p) = (v, f)" by fastforce
  let ?p = "p \<lparr> firmware := f, power_log := power_log p @ [(r, on, res_refs p r)] \<rparr>"
  obtain sr sta q where q: "power_sta E r ?p = (sr, sta, q)" by (metis prod_cases3)
  from power_sta_eq [OF q] obtain f' where "q = ?p \<lparr> firmware := f' \<rparr>" by blast
  moreover have "p' = q" using assms unfolding power_method_def f by (simp add: Let_def q split: if_splits)
  ultimately show ?thesis by (intro exI [of _ f']) simp
qed

lemma power_uses_frame [simp]:
  "power_uses (p \<lparr> firmware := f \<rparr>) r d = power_uses p r d" "power_uses (p \<lparr> power_log := l \<rparr>) r d = power_uses p r d"
  "power_ok (p \<lparr> firmware := f \<rparr>) = power_ok p" "power_ok (p \<lparr> power_log := l \<rparr>) = power_ok p"
  "res_refs (p \<lparr> firmware := f \<rparr>) r = res_refs p r" "res_refs (p \<lparr> power_log := l \<rparr>) r = res_refs p r"
  by (simp_all add: power_uses_def res_refs_def power_ok_def)

lemma power_sta_grow: "power_sta E r p = (rv, v, p') \<Longrightarrow> power_grow m p p'"
  by (auto dest!: power_sta_eq)

lemma power_on_grow: "power_method E r True p = (rv, p') \<Longrightarrow> power_grow m p p'"
  by (auto dest!: power_method_eq simp: power_grow_def)

lemma power_off_step: "power_method E r False p = (rv, p') \<Longrightarrow> res_refs p r = [\<lparr> r_device = h, r_uses = u \<rparr>] \<Longrightarrow> power_step m h p p'"
  by (auto dest!: power_method_eq simp: power_step_def)

lemma power_acquire_grow:
  assumes "power_acquire E r d use p = (rv, p')" "use \<noteq> 0"
  shows "power_grow use p p'"
proof -
  let ?p = "power_hold r d use p"
  obtain v sta q where q: "power_sta E r ?p = (v, sta, q)" by (metis prod_cases3)
  have "power_grow use ?p p'"
  proof (cases "res_refs p r = []")
    case True
    then show ?thesis using assms(1) power_on_grow [of E r ?p] by (simp add: power_acquire_def)
  next
    case False
    then have "p' = q \<or> power_method E r True q = (rv, p')" using assms(1) q by (auto simp: power_acquire_def split: if_splits)
    then show ?thesis using power_sta_grow [OF q] power_on_grow [of E r q rv p'] power_grow_trans by blast
  qed
  then show ?thesis using power_hold_grow [OF assms(2)] power_grow_trans by blast
qed

lemma power_uses_drop:
  assumes "power_ok p"
  shows "power_uses (set_refs r (drop_uses d use (res_refs p r)) p) r' d' = (if r' = r \<and> d' = d then power_uses p r d AND NOT use else power_uses p r' d')"
proof -
  have "res_refs p r = []" if "\<not> has_resource p r" using that find_handle_None [of r "power_resources p"] by (simp add: res_refs_def has_resource_def)
  then show ?thesis using ref_uses_drop [OF power_ok_refs [OF assms], of d use r] ref_uses_drop_other [of d' d use "res_refs p r"]
    by (cases "d' = d"; cases "has_resource p r") (simp_all add: power_uses_def res_refs_set)
qed

lemma power_drop_step: "power_step use d p (set_refs r (drop_uses d use (res_refs p r)) p)"
proof -
  have "power_uses (set_refs r (drop_uses d use (res_refs p r)) p) r' d' = power_uses p r' d'" if "d' \<noteq> d" for r' d'
    using ref_uses_drop_other [OF that] by (simp add: power_uses_def res_refs_set)
  moreover have "power_ok (set_refs r (drop_uses d use (res_refs p r)) p)" if "power_ok p"
    using power_ok_set_refs [OF that] power_ok_refs [OF that] refs_ok_drop by blast
  ultimately show ?thesis unfolding power_step_def by (simp add: power_uses_drop)
qed

text \<open>
  A release that succeeds did what its first half says and then dropped the use; one that fails
  kept it.
\<close>

definition release_first :: "'f acpi \<Rightarrow> nat \<Rightarrow> u32 \<Rightarrow> power_ref \<Rightarrow> 'f power \<Rightarrow> acpi_status \<times> 'f power" where
  "release_first E r use ref p =
    (if r_uses ref AND NOT use = 0 \<and> length (res_refs p r) = 1 then power_method E r False p
     else let (rv, sta, p) = power_sta E r p in (if rv \<noteq> AE_OK then rv else if sta \<noteq> 1 then AE_ERROR else AE_OK, p))"

lemma release_first_step:
  assumes "release_first E r use ref p = (rv, p')" "find (\<lambda>ref. r_device ref = d) (res_refs p r) = Some ref"
  shows "power_step m d p p'" "power_resources p' = power_resources p"
proof -
  have "power_step m d p p' \<and> power_resources p' = power_resources p"
  proof (cases "r_uses ref AND NOT use = 0 \<and> length (res_refs p r) = 1")
    case True
    then have m: "power_method E r False p = (rv, p')" using assms(1) by (simp add: release_first_def)
    have "res_refs p r = [ref]" using True find_device [OF assms(2)] by (cases "res_refs p r") auto
    then have "res_refs p r = [\<lparr> r_device = d, r_uses = r_uses ref \<rparr>]" using find_device [OF assms(2)] by simp
    then show ?thesis using power_off_step [OF m] power_method_eq [OF m] by auto
  next
    case False
    obtain v sta q where q: "power_sta E r p = (v, sta, q)" by (metis prod_cases3)
    then have "p' = q" using assms(1) False by (auto simp: release_first_def)
    then show ?thesis using power_grow_step [OF power_sta_grow [OF q], of m d] power_sta_eq [OF q] by auto
  qed
  then show "power_step m d p p'" "power_resources p' = power_resources p" by auto
qed

lemma power_release_cases:
  assumes "power_release E r d use p = (rv, p')"
  obtains (none) "rv = AE_OK" "p' = p" "power_uses p r d AND use = 0"
  | (failed) ref where "find (\<lambda>ref. r_device ref = d) (res_refs p r) = Some ref" "release_first E r use ref p = (rv, p')" "rv \<noteq> AE_OK"
  | (ok) ref q where "find (\<lambda>ref. r_device ref = d) (res_refs p r) = Some ref" "release_first E r use ref p = (AE_OK, q)" "rv = AE_OK"
      "p' = set_refs r (drop_uses d use (res_refs q r)) q"
proof (cases "find (\<lambda>ref. r_device ref = d) (res_refs p r)")
  case None
  then show ?thesis using assms none by (simp add: power_release_def power_uses_def ref_uses_def)
next
  case (Some ref)
  obtain v q where q: "release_first E r use ref p = (v, q)" by fastforce
  have "(if r_uses ref AND use = 0 then (AE_OK, p) else if v \<noteq> AE_OK then (v, q) else (AE_OK, set_refs r (drop_uses d use (res_refs q r)) q)) = (rv, p')"
    using assms Some q unfolding power_release_def release_first_def by (simp add: Let_def split: if_splits)
  then show ?thesis using none failed [OF Some] ok [OF Some] q Some by (auto simp: power_uses_def ref_uses_def split: if_splits)
qed

lemma power_release_step:
  assumes "power_release E r d use p = (rv, p')"
  shows "power_step use d p p'"
  using assms
proof (cases rule: power_release_cases)
  case (ok ref q)
  then show ?thesis using release_first_step(1) [OF ok(2,1)] power_drop_step [of use d q r] power_step_trans by blast
qed (auto dest: release_first_step)

lemma package_loop_grow: "package_loop E els ps p = (rv, ps', p') \<Longrightarrow> power_grow m p p'"
proof (induction E els ps p rule: package_loop.induct)
  case (3 E r els ps p)
  obtain v q where q: "power_resource E r p = (v, q)" by fastforce
  show ?case using 3 q power_resource_grow(1) [OF q, of m] by (auto split: if_splits intro: power_grow_trans)
qed auto

lemma power_package_grow:
  assumes "power_package E h state ps p = (rv, ps', p')"
  shows "power_grow m p p'"
proof -
  obtain v obj f where f: "eval_package E h (AML_PR state) (firmware p) = ((v, obj), f)" by (metis surj_pair)
  have "p' = p \<or> p' = p \<lparr> firmware := f \<rparr> \<or> (\<exists>els. package_loop E els ps (p \<lparr> firmware := f \<rparr>) = (rv, ps', p'))"
    using assms f by (auto simp: power_package_def Let_def split: if_splits option.splits)
  then show ?thesis by (metis firmware_grow(1) package_loop_grow power_grow_refl power_grow_trans)
qed

lemma power_integer_grow: "power_integer E h n p = (rv, v, p') \<Longrightarrow> power_grow m p p'"
  by (auto simp: power_integer_def Let_def split: if_splits prod.splits)

lemma power_psc_grow:
  assumes "power_psc E h p = (rv, v, p')"
  shows "power_grow m p p'"
proof -
  obtain a b q where q: "power_integer E h AML_PSC p = (a, b, q)" by (metis prod_cases3)
  have "p' = q" using assms q by (auto simp: power_psc_def Let_def split: if_splits option.splits)
  then show ?thesis using power_integer_grow [OF q] by simp
qed

lemma seed_packages_grow: "seed_packages E h states ps p = (rv, ps', p') \<Longrightarrow> power_grow m p p'"
proof (induction states arbitrary: ps p)
  case (Cons state states)
  obtain v ps1 q where q: "power_package E h state ps p = (v, ps1, q)" by (metis prod_cases3)
  show ?case using Cons q power_package_grow [OF q, of m] by (auto split: if_splits intro: power_grow_trans)
qed simp

lemma seed_holds_grow: "seed_holds E h d0 ps cold p = (rv, cold', p') \<Longrightarrow> power_grow 1 p p'"
proof (induction ps arbitrary: cold p)
  case (Cons r ps)
  obtain v sta q where q: "power_sta E r p = (v, sta, q)" by (metis prod_cases3)
  have g: "power_grow 1 p q" "power_grow 1 p (power_hold r h 1 q)"
    using power_sta_grow [OF q, of 1] power_grow_trans [OF power_sta_grow [OF q] power_hold_grow [of 1 q r h]] by simp_all
  show ?case using Cons q g by (auto split: if_splits intro: power_grow_trans)
qed simp

lemma power_seed_grow:
  assumes "power_seed E h p = (rv, p')"
  shows "power_grow 1 p p'"
proof (cases "pd_seeded (get_dev p h)")
  case True
  then show ?thesis using assms by (simp add: power_seed_def)
next
  case False
  obtain r1 sta p1 where 1: "power_integer E h AML_STA p = (r1, sta, p1)" by (metis prod_cases3)
  obtain r2 state p2 where 2: "power_psc E h p1 = (r2, state, p2)" by (metis prod_cases3)
  define p3 where "p3 = (if r2 = AE_OK then set_dev h (\<lambda>d. d \<lparr> pd_state := state \<rparr>) p2 else p2)"
  define first where "first = (if r2 = AE_OK then state else 0)"
  define fin where "fin = (if r2 = AE_OK then (if state = 4 then 3 else state) else 3)"
  obtain r4 ps p4 where 4: "seed_packages E h [first..fin] [] p3 = (r4, ps, p4)" by (metis prod_cases3)
  obtain r5 cold p5 where 5: "seed_holds E h (first = 0 \<and> fin = 0) ps False p4 = (r5, cold, p5)" by (metis prod_cases3)
  define p6 where "p6 = (if cold then set_dev h (\<lambda>d. d \<lparr> pd_state := 4 \<rparr>) p5 else p5)"
  have r: "(if r1 = AE_OK \<and> sta AND 3 \<noteq> 3 then (AE_OK, p1) else if r1 \<noteq> AE_OK \<and> r1 \<noteq> AE_NOT_FOUND then (r1, p1)
      else if r4 \<noteq> AE_OK then (r4, p4) else if r5 \<noteq> AE_OK then (r5, p5) else (AE_OK, set_dev h (\<lambda>d. d \<lparr> pd_seeded := True \<rparr>) p6)) = (rv, p')"
    using assms unfolding power_seed_def if_not_P [OF False] Let_def 1 prod.case 2 first_def [symmetric] fin_def [symmetric] p3_def [symmetric] 4 5 p6_def [symmetric] .
  have g1: "power_grow 1 p p1" by (rule power_integer_grow [OF 1])
  have g2: "power_grow 1 p p2" using g1 power_psc_grow [OF 2] power_grow_trans by metis
  have "power_grow 1 p2 p3" unfolding p3_def by (auto intro: set_dev_grow)
  then have g3: "power_grow 1 p p3" using g2 power_grow_trans by metis
  have g4: "power_grow 1 p p4" using g3 seed_packages_grow [OF 4] power_grow_trans by metis
  have g5: "power_grow 1 p p5" using g4 seed_holds_grow [OF 5] power_grow_trans by metis
  have "power_grow 1 p5 p6" unfolding p6_def by (auto intro: set_dev_grow)
  then have "power_grow 1 p (set_dev h (\<lambda>d. d \<lparr> pd_seeded := True \<rparr>) p6)"
    using power_grow_trans [OF g5] power_grow_trans [OF _ set_dev_grow] by (metis (no_types, lifting) power_dev.select_convs(1) power_dev.surjective power_dev.update_convs(3))
  then show ?thesis using r g1 g4 g5 by (auto split: if_splits)
qed

lemma discover_methods_grow: "discover_methods E h ns p = (rv, p') \<Longrightarrow> power_grow 1 p p'"
proof (induction ns)
  case (Cons n ns)
  then show ?case using power_seed_grow [of E h "power_device h p" rv p'] power_grow_trans [OF power_device_grow [of 1 p h]]
    by (auto simp: Let_def split: if_splits)
qed simp

lemma walk_namespace_grow: "walk_namespace E hs p = (rv, p') \<Longrightarrow> power_grow 1 p p'"
proof (induction hs arbitrary: p)
  case (Cons h hs)
  obtain v q where q: "power_discover_one E h p = (v, q)" by fastforce
  have "power_grow 1 p q" using q discover_methods_grow unfolding power_discover_one_def by blast
  then show ?case using Cons q by (auto split: if_splits intro: power_grow_trans)
qed simp

lemma power_discover_grow:
  assumes "power_discover E p = (rv, p')"
  shows "power_grow 1 p p'"
proof (cases "power_discovered p")
  case False
  obtain v q where q: "walk_namespace E (acpi_namespace E) p = (v, q)" by fastforce
  then have "p' = q \<or> p' = q \<lparr> power_discovered := True \<rparr>" using assms False by (auto simp: power_discover_def split: if_splits)
  then show ?thesis using walk_namespace_grow [OF q] power_grow_trans firmware_grow(2) by metis
qed (use assms in \<open>simp add: power_discover_def\<close>)

lemma release_loop_step: "release_loop E h use target rs p = (rv, p') \<Longrightarrow> power_step use h p p'"
proof (induction rs arbitrary: p)
  case (Cons r rs)
  obtain v q where q: "power_release E r h use p = (v, q)" by fastforce
  show ?case using Cons q power_release_step [OF q] by (auto split: if_splits intro: power_step_trans)
qed simp

lemma acquire_loop_grow: "acquire_loop E h target rs p = (rv, p') \<Longrightarrow> power_grow 1 p p'"
proof (induction rs arbitrary: p)
  case (Cons r rs)
  obtain v q where q: "power_acquire E r h 1 p = (v, q)" by fastforce
  show ?case using Cons q power_acquire_grow [OF q] by (auto split: if_splits intro: power_grow_trans)
qed simp

lemma sta_loop_grow: "sta_loop E rs cold p = (rv, cold', p') \<Longrightarrow> power_grow m p p'"
proof (induction rs arbitrary: cold p)
  case (Cons r rs)
  obtain v sta q where q: "power_sta E r p = (v, sta, q)" by (metis prod_cases3)
  show ?case using Cons q power_sta_grow [OF q, of m] by (auto split: if_splits intro: power_grow_trans)
qed simp

lemma power_ps_eq: "power_ps E h state p = (rv, p') \<Longrightarrow> \<exists>f. p' = p \<lparr> firmware := f \<rparr>"
  by (cases p) (auto simp: power_ps_def Let_def split: if_splits prod.splits)

section \<open>Whole calls\<close>

lemma power_step_mask:
  assumes "power_step m h p q" "within m m'"
  shows "power_step m' h p q"
proof -
  have "a AND NOT m' = b AND NOT m'" if "a AND NOT m = b AND NOT m" for a b :: u32
  proof (rule bit_eqI)
    fix n
    have "bit (a AND NOT m) n = bit (b AND NOT m) n" using that by simp
    then show "bit (a AND NOT m') n = bit (b AND NOT m') n" using assms(2) by (auto simp: within_bit bit_simps)
  qed
  then show ?thesis using assms(1) unfolding power_step_def by meson
qed

lemma power_step_any: "power_step 1 h p q \<Longrightarrow> power_step 3 h p q" "power_step 2 h p q \<Longrightarrow> power_step 3 h p q"
  by (erule power_step_mask, simp add: within_def)+

lemmas grow_step_any = power_step_any(1) [OF power_grow_step]

lemma set_ad_state_grow [simp, intro]: "power_grow m p (set_ad_state E h state p)"
  by (auto simp: set_ad_state_def split: option.split)

lemma register_grow:
  assumes "acpi_power_register E h p = (b, p')"
  shows "power_grow 1 p p'"
proof (cases "h = 0")
  case False
  obtain rv q where q: "power_seed E h (power_device h p) = (rv, q)" by fastforce
  then have "p' = q" using assms False by (simp add: acpi_power_register_def)
  then show ?thesis using power_grow_trans [OF power_device_grow power_seed_grow [OF q]] by simp
qed (use assms in \<open>simp add: acpi_power_register_def\<close>)

lemma power_current_grow:
  assumes "power_current E h p = (rv, c, p')"
  shows "power_grow 1 p p'"
proof -
  obtain r1 p1 where 1: "power_seed E h p = (r1, p1)" by fastforce
  obtain r2 ps p2 where 2: "power_package E h 0 [] p1 = (r2, ps, p2)" by (metis prod_cases3)
  obtain r3 cold p3 where 3: "sta_loop E ps False p2 = (r3, cold, p3)" by (metis prod_cases3)
  have g1: "power_grow 1 p p1" by (rule power_seed_grow [OF 1])
  have g2: "power_grow 1 p p2" by (rule power_grow_trans [OF g1 power_package_grow [OF 2]])
  have g3: "power_grow 1 p p3" by (rule power_grow_trans [OF g2 sta_loop_grow [OF 3]])
  have g4: "power_grow 1 p (set_dev h (\<lambda>d. d \<lparr> pd_state := 4 \<rparr>) p3)" by (rule power_grow_trans [OF g3 set_dev_grow]) simp
  have g5: "power_grow 1 p q" if "power_psc E h p3 = (a, b, q)" for a b q by (rule power_grow_trans [OF g3 power_psc_grow [OF that]])
  from assms have "p' = p1 \<or> p' = p2 \<or> p' = p3 \<or> p' = set_dev h (\<lambda>d. d \<lparr> pd_state := 4 \<rparr>) p3 \<or> power_psc E h p3 = (rv, c, p')"
    unfolding power_current_def 1 Let_def prod.case 2 3 by (simp split: if_splits)
  then show ?thesis using g1 g2 g3 g4 g5 by auto
qed

lemma get_grow:
  assumes "acpi_power_get E h p = (b, c, p')"
  shows "power_grow 1 p p'"
proof (cases "h = 0")
  case False
  obtain rv c q where q: "power_current E h (power_device h p) = (rv, c, q)" by (metis prod_cases3)
  then have "\<exists>c. p' = set_ad_state E h c q" using assms False by (auto simp: acpi_power_get_def Let_def)
  then show ?thesis using power_grow_trans [OF power_grow_trans [OF power_device_grow power_current_grow [OF q]] set_ad_state_grow] by blast
qed (use assms in \<open>simp add: acpi_power_get_def\<close>)

text \<open>The successive states of a transition.\<close>

definition transition_states :: "'f acpi \<Rightarrow> nat \<Rightarrow> int \<Rightarrow> u32 \<Rightarrow> 'f power \<Rightarrow> nat list \<Rightarrow> 'f power \<Rightarrow> 'f power \<Rightarrow> 'f power \<Rightarrow> 'f power \<Rightarrow> bool" where
  "transition_states E h state flags p target p2 p3 p4 p' \<longleftrightarrow>
    power_grow 1 p p2 \<and>
    (state \<noteq> ACPI_STATE_D3_COLD \<and> power_package E h state [] p2 = (AE_OK, target, p3) \<or> state = ACPI_STATE_D3_COLD \<and> target = [] \<and> p3 = p2) \<and>
    acquire_loop E h target (map pr_handle (power_resources p3)) p3 = (AE_OK, p4) \<and>
    (\<exists>p5. power_resources p5 = power_resources p4 \<and> power_grow 1 p4 p5 \<and>
      release_loop E h POWER_STATE target (rev (map pr_handle (power_resources p5))) p5 = (AE_OK, p'))"

lemma power_transition_result:
  assumes "power_transition E h state flags p = (rv, target, p')"
  shows "power_step 1 h p p' \<and> (rv = AE_OK \<longrightarrow> (\<exists>p2 p3 p4. transition_states E h state flags p target p2 p3 p4 p'))"
proof -
  obtain r1 p1 where 1: "power_discover E p = (r1, p1)" by fastforce
  obtain r2 p2 where 2: "power_seed E h p1 = (r2, p2)" by fastforce
  obtain r3 t p3 where 3: "(if state \<noteq> 4 then power_package E h state [] p2 else (AE_OK, [], p2)) = (r3, t, p3)" by (metis prod_cases3)
  obtain r4 p4 where 4: "acquire_loop E h t (map pr_handle (power_resources p3)) p3 = (r4, p4)" by fastforce
  obtain r5 p5 where 5: "(if flags AND 1 = 0 then power_ps E h state p4 else (AE_OK, p4)) = (r5, p5)" by fastforce
  obtain r6 p6 where 6: "release_loop E h 1 t (rev (map pr_handle (power_resources p5))) p5 = (r6, p6)" by fastforce
  have g1: "power_grow 1 p p1" by (rule power_discover_grow [OF 1])
  have g2: "power_grow 1 p p2" by (rule power_grow_trans [OF g1 power_seed_grow [OF 2]])
  have g23: "power_grow 1 p2 p3" using 3 power_package_grow by (cases "state = 4") fastforce+
  have g3: "power_grow 1 p p3" by (rule power_grow_trans [OF g2 g23])
  have g4: "power_grow 1 p p4" by (rule power_grow_trans [OF g3 acquire_loop_grow [OF 4]])
  have f: "\<exists>f. p5 = p4 \<lparr> firmware := f \<rparr>" using 5 power_ps_eq [of E h state p4 r5 p5] by (cases p4) (auto split: if_splits)
  then have g45: "power_grow 1 p4 p5" "power_resources p5 = power_resources p4" by auto
  have g5: "power_grow 1 p p5" by (rule power_grow_trans [OF g4 g45(1)])
  have s6: "power_step 1 h p p6" by (rule power_step_trans [OF power_grow_step [OF g5] release_loop_step [OF 6]])
  have r: "(if r1 \<noteq> AE_OK then (r1, [], p1) else if r2 \<noteq> AE_OK then (r2, [], p2) else if parent_asleep E h state p2 then (AE_ABORT_METHOD, [], p2)
      else if r3 \<noteq> AE_OK then (r3, t, p3) else if r4 \<noteq> AE_OK then (r4, t, p4) else if r5 \<noteq> AE_OK then (r5, t, p5) else (r6, t, p6)) = (rv, target, p')"
    using assms unfolding power_transition_def Let_def 1 prod.case 2 3 4 5 6 .
  then have "power_step 1 h p p'" using g1 g2 g3 g4 g5 s6 power_grow_step by (auto split: if_splits)
  moreover have "transition_states E h state flags p target p2 p3 p4 p'" if "rv = AE_OK"
  proof -
    have "r3 = AE_OK" "r4 = AE_OK" "r6 = AE_OK" "target = t" "p' = p6" using r that by (auto split: if_splits)
    then show ?thesis unfolding transition_states_def using g2 3 4 6 g45 by (auto split: if_splits)
  qed
  ultimately show ?thesis by blast
qed

lemma set_flags_result:
  assumes "acpi_power_set_flags E h state flags p = (b, p')"
  shows "power_step 1 h p p'" "b \<Longrightarrow> \<exists>target p2 p3 p4 q. transition_states E h state flags (power_device h p) target p2 p3 p4 q \<and>
    power_resources p' = power_resources q \<and> power_log p' = power_log q"
proof -
  obtain rv t q where q: "power_transition E h state flags (power_device h p) = (rv, t, q)" by (metis prod_cases3)
  let ?g = "\<lambda>d. if rv = AE_OK then d \<lparr> pd_state := state, pd_failed := False \<rparr> else d \<lparr> pd_state := - 1, pd_failed := True \<rparr>"
  have r: "b = False \<and> p' = p \<or> b = (rv = AE_OK) \<and> p' = set_ad_state E h (pd_state (get_dev (set_dev h ?g q) h)) (set_dev h ?g q)"
    using assms unfolding acpi_power_set_flags_def q by (auto simp: Let_def split: if_splits)
  note t = power_transition_result [OF q]
  have "power_step 1 h p q" by (rule power_step_trans [OF power_grow_step [OF power_device_grow]]) (use t in blast)
  moreover have "power_grow 1 q (set_ad_state E h c (set_dev h ?g q))" for c
    by (rule power_grow_trans [OF set_dev_grow set_ad_state_grow]) auto
  ultimately have s: "power_step 1 h p (set_ad_state E h c (set_dev h ?g q))" for c using power_step_trans power_grow_step by blast
  show "power_step 1 h p p'" using r s by auto
  have "power_resources (set_ad_state E h c (set_dev h ?g q)) = power_resources q" "power_log (set_ad_state E h c (set_dev h ?g q)) = power_log q" for c
    by (simp_all add: set_ad_state_def set_dev_def split: option.split)
  then have "power_resources p' = power_resources q" "power_log p' = power_log q" "rv = AE_OK" if b using r that by auto
  then show "b \<Longrightarrow> \<exists>target p2 p3 p4 q. transition_states E h state flags (power_device h p) target p2 p3 p4 q \<and> power_resources p' = power_resources q \<and> power_log p' = power_log q"
    using t by blast
qed

lemma remove_dev_handles: "distinct (map pd_handle ds) \<Longrightarrow> distinct (map pd_handle (remove_dev h ds)) \<and> set (remove_dev h ds) \<subseteq> set ds"
  by (induction ds) auto

lemma deregister_step: "power_step 3 h p (acpi_power_deregister E h p)"
proof (cases "h = 0")
  case False
  obtain r1 p1 where 1: "power_discover E p = (r1, p1)" by fastforce
  obtain r2 p2 where 2: "(if r1 \<noteq> AE_OK then (r1, p1) else release_loop E h (1 OR 2) [] (rev (map pr_handle (power_resources p1))) p1) = (r2, p2)" by fastforce
  define p3 where "p3 = (if r2 = AE_OK then p2 \<lparr> power_devices := remove_dev h (power_devices p2) \<rparr> else p2)"
  have s1: "power_step 3 h p p1" by (rule grow_step_any [OF power_discover_grow [OF 1]])
  have "power_step 3 h p1 p2" using 2 release_loop_step [of E h 3] by (auto split: if_splits)
  then have s2: "power_step 3 h p p2" using s1 power_step_trans by blast
  have "power_grow 1 p2 p3" unfolding p3_def using remove_dev_handles by (auto intro: power_grow_frame)
  then have s3: "power_step 3 h p p3" using s2 grow_step_any power_step_trans by blast
  have "power_grow 1 p3 (set_dev h (\<lambda>d. d \<lparr> pd_state := - 1, pd_failed := True \<rparr>) (power_device h p3))"
    by (rule power_grow_trans [OF power_device_grow set_dev_grow]) simp
  then have s4: "power_step 3 h p (set_dev h (\<lambda>d. d \<lparr> pd_state := - 1, pd_failed := True \<rparr>) (power_device h p3))"
    using s3 grow_step_any power_step_trans by blast
  have "acpi_power_deregister E h p = (if r2 \<noteq> AE_OK then set_dev h (\<lambda>d. d \<lparr> pd_state := - 1, pd_failed := True \<rparr>) (power_device h p3) else p3)"
    unfolding acpi_power_deregister_def if_not_P [OF False] Let_def 1 prod.case 2 p3_def [symmetric] ..
  then show ?thesis using s3 s4 by simp
qed (simp add: acpi_power_deregister_def)

lemma res_step:
  assumes "acpi_power_res E r d on p = (rv, p')"
  shows "power_step 3 d p p'"
proof -
  obtain r1 p1 where 1: "power_discover E p = (r1, p1)" by fastforce
  obtain r2 p2 where 2: "power_resource E r p1 = (r2, p2)" by fastforce
  have s1: "power_step 3 d p p1" by (rule grow_step_any [OF power_discover_grow [OF 1]])
  have s2: "power_step 3 d p p2" by (rule power_step_trans [OF s1 power_grow_step [OF power_resource_grow(1) [OF 2]]])
  have a: "power_step 3 d p q" if "power_acquire E r d 2 p2 = (v, q)" for v q
    by (rule power_step_trans [OF s2 power_step_any(2) [OF power_grow_step [OF power_acquire_grow [OF that]]]]) simp
  have l: "power_step 3 d p q" if "power_release E r d 2 p2 = (v, q)" for v q
    by (rule power_step_trans [OF s2 power_step_any(2) [OF power_release_step [OF that]]])
  have "p' = p \<or> p' = p1 \<or> p' = p2 \<or> power_acquire E r d 2 p2 = (rv, p') \<or> power_release E r d 2 p2 = (rv, p')"
    using assms unfolding acpi_power_res_def Let_def 1 prod.case 2 by (simp split: if_splits)
  then show ?thesis using s1 s2 a l by auto
qed

text \<open>Sequences of calls.\<close>

datatype power_op = Op_register nat | Op_deregister nat | Op_get nat | Op_set nat int u32 | Op_res nat nat bool

fun op_device :: "power_op \<Rightarrow> nat" where
  "op_device (Op_register h) = h"
| "op_device (Op_deregister h) = h"
| "op_device (Op_get h) = h"
| "op_device (Op_set h state flags) = h"
| "op_device (Op_res r d on) = d"

fun power_exec :: "'f acpi \<Rightarrow> 'f power \<Rightarrow> power_op \<Rightarrow> 'f power" where
  "power_exec E p (Op_register h) = snd (acpi_power_register E h p)"
| "power_exec E p (Op_deregister h) = acpi_power_deregister E h p"
| "power_exec E p (Op_get h) = snd (snd (acpi_power_get E h p))"
| "power_exec E p (Op_set h state flags) = snd (acpi_power_set_flags E h state flags p)"
| "power_exec E p (Op_res r d on) = snd (acpi_power_res E r d on p)"

lemma power_exec_step: "power_step 3 (op_device op) p (power_exec E p op)"
proof (cases op)
  case (Op_register h)
  then show ?thesis using grow_step_any [OF register_grow] by (cases "acpi_power_register E h p") auto
next
  case (Op_get h)
  then show ?thesis using grow_step_any [OF get_grow] by (cases "acpi_power_get E h p") auto
next
  case (Op_set h state flags)
  then show ?thesis using power_step_any(1) [OF set_flags_result(1)] by (cases "acpi_power_set_flags E h state flags p") auto
next
  case (Op_res r d on)
  then show ?thesis using res_step by (cases "acpi_power_res E r d on p") auto
qed (simp add: deregister_step)

section \<open>Exact ownership\<close>

lemma has_resource_frame: "power_resources q = power_resources p \<Longrightarrow> has_resource q r = has_resource p r"
  by (simp add: has_resource_def)

lemma has_resource_hold [simp]: "map pr_handle (power_resources (power_hold r d use p)) = map pr_handle (power_resources p)"
  by (simp add: power_hold_def)

lemma power_uses_resources: "power_resources q = power_resources p \<Longrightarrow> power_uses q r d = power_uses p r d"
  by (simp add: power_uses_def res_refs_def)


lemma power_release_uses:
  assumes "power_release E r d use p = (AE_OK, p')" "power_ok p"
  shows "power_uses p' r' d' = (if r' = r \<and> d' = d then power_uses p r d AND NOT use else power_uses p r' d')"
    "map pr_handle (power_resources p') = map pr_handle (power_resources p)"
proof -
  have "power_uses p' r' d' = (if r' = r \<and> d' = d then power_uses p r d AND NOT use else power_uses p r' d') \<and>
    map pr_handle (power_resources p') = map pr_handle (power_resources p)"
    using assms(1)
  proof (cases rule: power_release_cases)
    case none
    have "x AND NOT use = x" if "x AND use = 0" for x :: u32
    proof (rule bit_eqI)
      fix n have "\<not> bit (x AND use) n" using that by simp
      then show "bit (x AND NOT use) n = bit x n" by (auto simp: bit_simps dest: bit_imp_le_length)
    qed
    then show ?thesis using none by simp
  next
    case (ok ref q)
    have q: "power_ok q" "power_resources q = power_resources p" using release_first_step [OF ok(2,1)] assms(2) by (auto simp: power_step_def)
    then show ?thesis using ok(4) power_uses_drop [OF q(1), of r d use r' d'] power_uses_resources [OF q(2)] by simp
  qed simp
  then show "power_uses p' r' d' = (if r' = r \<and> d' = d then power_uses p r d AND NOT use else power_uses p r' d')"
    "map pr_handle (power_resources p') = map pr_handle (power_resources p)" by auto
qed


lemma release_loop_uses:
  assumes "release_loop E h use target rs p = (AE_OK, p')" "power_ok p"
  shows "power_uses p' r h = (if r \<in> set rs \<and> r \<notin> set target then power_uses p r h AND NOT use else power_uses p r h)"
  using assms
proof (induction rs arbitrary: p)
  case (Cons x rs)
  obtain v q where q: "power_release E x h use p = (v, q)" by fastforce
  show ?case
  proof (cases "power_contains target x")
    case True
    then have "release_loop E h use target rs p = (AE_OK, p')" "x \<in> set target" using Cons.prems(1) by (auto simp: power_contains_def list_ex_iff)
    then show ?thesis using Cons.IH [of p] Cons.prems(2) by auto
  next
    case False
    then have l: "release_loop E h use target rs q = (AE_OK, p')" "v = AE_OK" "x \<notin> set target" using Cons.prems(1) q by (auto simp: power_contains_def list_ex_iff split: if_splits)
    have "power_ok q" using power_release_step [OF q] Cons.prems(2) by (simp add: power_step_def)
    then show ?thesis using Cons.IH [OF l(1)] power_release_uses(1) [OF q [unfolded l(2)] Cons.prems(2), of r h] l(3) by auto
  qed
qed simp









lemma remove_dev_gone: "distinct (map pd_handle ds) \<Longrightarrow> \<forall>d\<in>set (remove_dev h ds). pd_handle d \<noteq> h"
  by (induction ds) (auto simp: image_iff)

lemma deregister_result:
  assumes "h \<noteq> 0" "power_ok p"
  shows "let p' = acpi_power_deregister E h p in
    (\<forall>r. power_uses p' r h AND 3 = 0) \<and> (\<forall>d\<in>set (power_devices p'). pd_handle d \<noteq> h) \<or>
    (\<exists>d\<in>set (power_devices p'). pd_handle d = h \<and> pd_failed d \<and> pd_state d = ACPI_STATE_ERROR)"
proof -
  obtain r1 p1 where 1: "power_discover E p = (r1, p1)" by fastforce
  obtain r2 p2 where 2: "(if r1 \<noteq> AE_OK then (r1, p1) else release_loop E h (1 OR 2) [] (rev (map pr_handle (power_resources p1))) p1) = (r2, p2)" by fastforce
  define p3 where "p3 = (if r2 = AE_OK then p2 \<lparr> power_devices := remove_dev h (power_devices p2) \<rparr> else p2)"
  have e: "acpi_power_deregister E h p = (if r2 \<noteq> AE_OK then set_dev h (\<lambda>d. d \<lparr> pd_state := - 1, pd_failed := True \<rparr>) (power_device h p3) else p3)"
    unfolding acpi_power_deregister_def if_not_P [OF assms(1)] Let_def 1 prod.case 2 p3_def [symmetric] ..
  show ?thesis
  proof (cases "r2 = AE_OK")
    case True
    then have l: "release_loop E h 3 [] (rev (map pr_handle (power_resources p1))) p1 = (AE_OK, p2)" using 2 by (auto split: if_splits)
    have ok: "power_ok p1" using power_discover_grow [OF 1] assms(2) by (simp add: power_grow_def)
    have none: "power_uses p1 r h = 0" if "r \<notin> set (map pr_handle (power_resources p1))" for r
      using that find_handle_None [of r "power_resources p1"] by (simp add: power_uses_def res_refs_def ref_uses_def)
    have "(u AND - 4) AND 3 = 0" for u :: u32 by (simp add: and.assoc)
    then have "power_uses p2 r h AND 3 = 0" for r using release_loop_uses [OF l ok, of r] none [of r] by auto
    moreover have "power_uses p3 r h = power_uses p2 r h" for r unfolding p3_def by (simp add: power_uses_def res_refs_def)
    moreover have "\<forall>d\<in>set (power_devices p3). pd_handle d \<noteq> h"
    proof -
      have "power_ok p2" using release_loop_step [OF l] ok by (simp add: power_step_def)
      then show ?thesis unfolding p3_def power_ok_def using True remove_dev_gone [of "power_devices p2" h] by simp
    qed
    ultimately show ?thesis unfolding e using True by (simp add: Let_def)
  next
    case False
    let ?g = "\<lambda>d :: power_dev. d \<lparr> pd_state := - 1, pd_failed := True \<rparr>"
    have "\<exists>d\<in>set (power_devices (power_device h p3)). pd_handle d = h" by (auto simp: power_device_def list_ex_iff)
    then obtain d where d: "d \<in> set (power_devices (power_device h p3))" "pd_handle d = h" by blast
    then have "?g d \<in> set (power_devices (set_dev h ?g (power_device h p3)))" by (auto simp: set_dev_def intro!: image_eqI [of _ _ d])
    then have "\<exists>d\<in>set (power_devices (set_dev h ?g (power_device h p3))). pd_handle d = h \<and> pd_failed d \<and> pd_state d = - 1"
      using d(2) by (intro bexI [of _ "?g d"]) simp_all
    then show ?thesis unfolding e Let_def if_P [OF False] by blast
  qed
qed

section \<open>Properties\<close>

definition power_boot :: "(nat \<Rightarrow> int) \<Rightarrow> 'f \<Rightarrow> 'f power" where
  "power_boot ads f = \<lparr> power_resources = [], power_devices = [], power_discovered = False, ad_state = ads, firmware = f, power_log = [] \<rparr>"

abbreviation (input) power_run :: "'f acpi \<Rightarrow> power_op list \<Rightarrow> 'f power \<Rightarrow> 'f power" where
  "power_run E ops p \<equiv> foldl (power_exec E) p ops"

lemma run_facts:
  fixes E :: "'f acpi"
  shows "(power_ok p \<longrightarrow> power_ok (power_run E ops p) \<and> (\<forall>r d. power_uses (power_run E ops p) r d AND NOT 3 = power_uses p r d AND NOT 3)) \<and>
    (\<forall>r d. d \<notin> op_device ` set ops \<longrightarrow> within (power_uses p r d) (power_uses (power_run E ops p) r d)) \<and>
    (\<exists>l. power_log (power_run E ops p) = power_log p @ l \<and>
      (\<forall>x\<in>set l. fst (snd x) \<or> (\<exists>d\<in>op_device ` set ops. \<exists>u. snd (snd x) = [\<lparr> r_device = d, r_uses = u \<rparr>])))"
proof (induction ops arbitrary: p)
  case (Cons op ops)
  let ?q = "power_exec E p op"
  note S = power_exec_step [of op p E, unfolded power_step_def]
  obtain l where l: "power_log ?q = power_log p @ l" "\<forall>x\<in>set l. fst (snd x) \<or> (\<exists>u. snd (snd x) = [\<lparr> r_device = op_device op, r_uses = u \<rparr>])"
    using S by blast
  obtain l' where l': "power_log (power_run E ops ?q) = power_log ?q @ l'"
    "\<forall>x\<in>set l'. fst (snd x) \<or> (\<exists>d\<in>op_device ` set ops. \<exists>u. snd (snd x) = [\<lparr> r_device = d, r_uses = u \<rparr>])" using Cons.IH [of ?q] by blast
  have "\<exists>l. power_log (power_run E (op # ops) p) = power_log p @ l \<and>
      (\<forall>x\<in>set l. fst (snd x) \<or> (\<exists>d\<in>op_device ` set (op # ops). \<exists>u. snd (snd x) = [\<lparr> r_device = d, r_uses = u \<rparr>]))"
    by (rule exI [of _ "l @ l'"]) (use l l' in auto)
  moreover have "within (power_uses p r d) (power_uses (power_run E (op # ops) p) r d)" if "d \<notin> op_device ` set (op # ops)" for r d
    using within_trans [of "power_uses p r d" "power_uses ?q r d" "power_uses (power_run E ops ?q) r d"] S Cons.IH [of ?q] that by auto
  moreover have "power_ok (power_run E (op # ops) p) \<and> (\<forall>r d. power_uses (power_run E (op # ops) p) r d AND NOT 3 = power_uses p r d AND NOT 3)" if "power_ok p"
    using S Cons.IH [of ?q] that unfolding foldl_Cons by metis
  ultimately show ?case by blast
qed auto

lemma boot_facts:
  "power_ok (power_run E ops (power_boot ads f))" "within (power_uses (power_run E ops (power_boot ads f)) r d) 3"
proof -
  have "power_ok (power_boot ads f)" "power_uses (power_boot ads f) r d = 0"
    by (simp_all add: power_ok_def power_boot_def power_uses_def res_refs_def ref_uses_def)
  then show "power_ok (power_run E ops (power_boot ads f))" "within (power_uses (power_run E ops (power_boot ads f)) r d) 3"
    using run_facts [of "power_boot ads f" E ops] unfolding within_def by auto
qed

text \<open>A firmware with two devices, 10 and 11. Its state is the list of the resources that are on. Device
  10 needs resources 5 and 6 in D0 and 6 in D3; device 11 needs 5 in D0.\<close>

definition sample_lists :: "nat \<Rightarrow> aml_name \<Rightarrow> nat list" where
  "sample_lists h m = (if m = AML_PR 0 \<and> h = 10 then [5, 6] else if m = AML_PR 3 \<and> h = 10 then [6] else if m = AML_PR 0 \<and> h = 11 then [5] else [])"

definition sample_acpi :: "nat list acpi" where
  "sample_acpi = \<lparr> AcpiGetHandle = \<lambda>h m. if sample_lists h m = [] then AE_NOT_FOUND else AE_OK,
    acpi_eval_integer = \<lambda>r m f. ((AE_OK, if List.member f r then 1 else 0), f),
    AcpiEvaluateObject = \<lambda>r m f. (AE_OK, if m = AML_ON then r # f else removeAll r f),
    eval_resource = \<lambda>h f. ((AE_OK, Some (10 - h)), f),
    eval_package = \<lambda>h m f. ((AE_OK, Some (map Inr (sample_lists h m))), f),
    acpi_namespace = [10, 11], acpi_match_node = \<lambda>_. None, ad_parent = \<lambda>_. None, ad_power = \<lambda>_. False \<rparr>"

definition sample_power :: "power_op list \<Rightarrow> nat list power" where
  "sample_power ops = foldl (power_exec sample_acpi) (power_boot (\<lambda>_. 0) []) ops"

text \<open>C38: shared power resources are safe from other devices. Whatever the firmware answers and
  whatever calls were made since boot, the table is well formed: in the order of the resources, each
  once, with no reference that is not in use. A device that makes no call in a further sequence of
  calls loses none of its uses in it. And a resource that is switched off there has exactly one
  holder at that moment, a device that made one of the calls.\<close>

theorem power_ownership_safe:
  fixes E :: "'f acpi"
  assumes "p = foldl (power_exec E) (power_boot ads f) ops" "p' = foldl (power_exec E) p ops'"
  shows "power_ok p' \<and> (\<forall>r d. d \<notin> op_device ` set ops' \<longrightarrow> within (power_uses p r d) (power_uses p' r d)) \<and>
    (\<exists>l. power_log p' = power_log p @ l \<and>
      (\<forall>(r, on, refs)\<in>set l. \<not> on \<longrightarrow> (\<exists>d\<in>op_device ` set ops'. \<exists>u. refs = [\<lparr> r_device = d, r_uses = u \<rparr>])))"
proof -
  have ok: "power_ok p" unfolding assms(1) by (rule boot_facts)
  note R = run_facts [of p E ops', folded assms(2)]
  from R obtain l where l: "power_log p' = power_log p @ l"
    "\<forall>x\<in>set l. fst (snd x) \<or> (\<exists>d\<in>op_device ` set ops'. \<exists>u. snd (snd x) = [\<lparr> r_device = d, r_uses = u \<rparr>])" by blast
  from l(2) have "\<forall>(r, on, refs)\<in>set l. \<not> on \<longrightarrow> (\<exists>d\<in>op_device ` set ops'. \<exists>u. refs = [\<lparr> r_device = d, r_uses = u \<rparr>])" by fastforce
  then show ?thesis using R ok l(1) by blast
qed

lemma power_ownership_safe_witness:
  "let p = sample_power [Op_set 10 0 0, Op_set 11 0 0]; p' = foldl (power_exec sample_acpi) p [Op_set 10 4 0]
   in power_ok p' \<and> power_uses p 5 11 = 1 \<and> within (power_uses p 5 11) (power_uses p' 5 11) \<and>
     filter (\<lambda>x. \<not> fst (snd x)) (power_log p') = [(6, False, [\<lparr> r_device = 10, r_uses = 1 \<rparr>])]"
proof -
  let ?p = "sample_power [Op_set 10 0 0, Op_set 11 0 0]"
  let ?p' = "foldl (power_exec sample_acpi) ?p [Op_set 10 4 0]"
  have "power_uses ?p 5 11 = 1" by code_simp
  moreover have "filter (\<lambda>x. \<not> fst (snd x)) (power_log ?p') = [(6, False, [\<lparr> r_device = 10, r_uses = 1 \<rparr>])]" by code_simp
  moreover have "power_ok ?p' \<and> (\<forall>r d. d \<notin> op_device ` set [Op_set 10 4 0] \<longrightarrow> within (power_uses ?p r d) (power_uses ?p' r d))"
    using power_ownership_safe [OF sample_power_def refl, of "[Op_set 10 0 0, Op_set 11 0 0]" "[Op_set 10 4 0]"] by blast
  then have "power_ok ?p' \<and> within (power_uses ?p 5 11) (power_uses ?p' 5 11)" by fastforce
  ultimately show ?thesis unfolding Let_def by blast
qed



text \<open>C40: deregistering a device ends in one of two ways. Either the device holds nothing of any
  resource and its record is gone, or its record remains, marked failed and with its state unknown,
  for a retry. No other device loses a use, and only resources that this device alone held are
  switched off.\<close>

theorem power_deregister_complete:
  fixes E :: "'f acpi"
  assumes "p = foldl (power_exec E) (power_boot ads f) ops" "h \<noteq> 0" "p' = acpi_power_deregister E h p"
  shows "((\<forall>r. power_uses p' r h = 0) \<and> (\<forall>d\<in>set (power_devices p'). pd_handle d \<noteq> h) \<or>
     (\<exists>d\<in>set (power_devices p'). pd_handle d = h \<and> pd_failed d \<and> pd_state d = ACPI_STATE_ERROR)) \<and>
    (\<forall>r d. d \<noteq> h \<longrightarrow> within (power_uses p r d) (power_uses p' r d)) \<and>
    (\<exists>l. power_log p' = power_log p @ l \<and> (\<forall>x\<in>set l. fst (snd x) \<or> (\<exists>u. snd (snd x) = [\<lparr> r_device = h, r_uses = u \<rparr>])))"
proof -
  have ok: "power_ok p" unfolding assms(1) by (rule boot_facts)
  have "p' = foldl (power_exec E) (power_boot ads f) (ops @ [Op_deregister h])" unfolding assms by simp
  then have "within (power_uses p' r h) 3" for r using boot_facts(2) by metis
  then have z: "power_uses p' r h = power_uses p' r h AND 3" for r unfolding within_bit by (auto intro!: bit_eqI simp: bit_and_iff)
  have D: "(\<forall>r. power_uses p' r h = 0) \<and> (\<forall>d\<in>set (power_devices p'). pd_handle d \<noteq> h) \<or>
     (\<exists>d\<in>set (power_devices p'). pd_handle d = h \<and> pd_failed d \<and> pd_state d = - 1)"
    using deregister_result [OF assms(2) ok, of E, folded assms(3), unfolded Let_def] z by metis
  show ?thesis using D deregister_step [of h p E, folded assms(3), unfolded power_step_def] by blast
qed

lemma power_deregister_complete_witness:
  "let p = sample_power [Op_set 10 0 0, Op_set 11 0 0]; p' = acpi_power_deregister sample_acpi 10 p
   in power_uses p 5 10 = 1 \<and> power_uses p' 5 10 = 0 \<and> within (power_uses p 5 11) (power_uses p' 5 11)"
proof -
  let ?p = "sample_power [Op_set 10 0 0, Op_set 11 0 0]"
  let ?p' = "acpi_power_deregister sample_acpi 10 ?p"
  have "power_uses ?p 5 10 = 1" by code_simp
  moreover have "list_all (\<lambda>d. pd_handle d \<noteq> 10) (power_devices ?p')" by code_simp
  moreover have "(\<forall>r. power_uses ?p' r 10 = 0) \<or> (\<exists>d\<in>set (power_devices ?p'). pd_handle d = 10)"
    "\<forall>r d. d \<noteq> 10 \<longrightarrow> within (power_uses ?p r d) (power_uses ?p' r d)"
    using power_deregister_complete [OF sample_power_def _ refl, of 10 "[Op_set 10 0 0, Op_set 11 0 0]"] by auto
  ultimately show ?thesis unfolding Let_def list_all_iff by auto
qed

end
