(* ===== verification/Spec2Isabelle.thy ===== *)
theory Spec2Isabelle
  imports Cidle Idle_Seqlock Switch Memfd S2idle AcpiPower
begin

text \<open>
  A verification library for the LispBSD changes to the NetBSD kernel: the parts of \<^verbatim>\<open>kernel/\<close> that
  decide when a laptop's CPUs run, sleep and keep time, and what must hold across a suspension.

  \<^bold>\<open>The parts and how they interact.\<close> The clock interrupt drives the callouts, the time hands, the
  heartbeat monitor and the scheduler's tick. The idle module asks the callouts for the next
  deadline and the timecounters for their limit, stops the tick of its CPU for that long on the
  local APIC timer, and replays the missed clock interrupts afterwards. The scheduler keeps the run
  queues, places threads on CPUs and switches between them, and the power scheduler accounts for
  waiting and idle times and changes placement and callout deadlines. Independent of these are
  memory files, the suspension of all file systems for a sleep, and the ACPI power resources.

  \<^bold>\<open>Theories, components and what is shown.\<close>

    \<^item> \<open>Prelude\<close>: machine integers (words of the C width), error numbers, formatted output, the
      platform's parameters, and the interface of a clamped sysctl knob, locale \<open>int_knob\<close>.
    \<^item> \<open>Circq\<close>: the \<^verbatim>\<open>CIRCQ\<close> macros of \<^verbatim>\<open>kernel/kern/kern_timeout.c\<close>, store by store on a heap of
      links. They implement a family of disjoint lists, locale \<open>queue_family\<close>; the other callout
      theories use lists.
    \<^item> \<open>Wheel\<close>, \<open>Callout\<close>, \<open>Callout_Inv\<close>, \<open>Callout_Clock\<close>: the callouts of the same file. The state is
      the record \<open>callouts\<close> with the table of callouts and one \<open>callout_cpu\<close> per CPU. Shown are the
      invariant for every operation and every reachable state (\<open>co_reach\<close>); that a callout is on the
      worklist when its deadline comes; that the soft clock ends and drains the worklist; that the
      next deadline reported to an idle CPU is never late; the exact deadline under coalescing; and
      that halting a callout is synchronous.
    \<^item> \<open>Lwp\<close>: the scheduling fields of \<^verbatim>\<open>struct lwp\<close> and the effective priority.
    \<^item> \<open>Lpsched\<close>, \<open>Lpsched_Sysctl\<close>, \<open>Idle_Seqlock\<close>: \<^verbatim>\<open>kernel/sys/lpsched.h\<close> and
      \<^verbatim>\<open>kernel/kern/kern_lpsched.c\<close>: the wait, burst and idle accounting, the reports and knobs, and
      the generation protocol by which idle entries are read while their owner writes them, as a
      step relation on single loads and stores.
    \<^item> \<open>Runq\<close>, \<open>Runq_Inv\<close>, \<open>Runq_Place\<close>, \<open>Runq_Prop\<close>: \<^verbatim>\<open>kernel/kern/kern_runq.c\<close>. The run queues with
      bitmap and counts implement one list in priority order (locale \<open>ready_queue\<close>); placement,
      stealing and migration respect the threads' constraints and lose no thread.
    \<^item> \<open>Switch\<close>: context switch, wake-up, suspension, migration and priority changes of
      \<^verbatim>\<open>kernel/kern/kern_synch.c\<close> and \<^verbatim>\<open>kernel/kern/kern_lwp.c\<close>, with reachability \<open>sched_reach\<close>: a
      runnable thread is in exactly one queue, and the panics of \<^verbatim>\<open>setrunnable\<close> cannot be reached.
    \<^item> \<open>Timecounter\<close>: \<^verbatim>\<open>kernel/kern/kern_tc.c\<close>: reading and winding up time, setting the clock, and the
      limit of ticks without a wind-up.
    \<^item> \<open>Heartbeat\<close>: \<^verbatim>\<open>kernel/kern/kern_heartbeat.c\<close>. Histories of events are observed independently of
      the monitor's own counters, and a refinement relation (\<open>hb_rel\<close>) ties the two together, so that
      a verdict is a statement about what happened.
    \<^item> \<open>Lapic\<close>, \<open>Clock\<close>, \<open>Cidle\<close>: \<^verbatim>\<open>kernel/arch/x86/x86/lapic_tl.h\<close>, the tickless part of \<^verbatim>\<open>lapic.c\<close>,
      \<^verbatim>\<open>hardclock\<close> of \<^verbatim>\<open>kernel/kern/kern_clock.c\<close>, and \<^verbatim>\<open>kernel/modules/cidle/cidle.c\<close>: the conversion
      of counts is exact, no time is lost or gained over tickless sleeps, the ticks replayed after
      a sleep are those that elapsed, and the length of a sleep respects every limit.
    \<^item> \<open>Memfd\<close>: \<^verbatim>\<open>kernel/kern/sys_memfd.c\<close>: well-formedness, binding seals, reading back what was written.
    \<^item> \<open>S2idle\<close>: \<^verbatim>\<open>kernel/kern/vfs_s2idle.c\<close>: a suspension of all file systems is complete or leaves no
      trace, resuming undoes it, and the search for the backing file system ends.
    \<^item> \<open>AcpiPower\<close>: \<^verbatim>\<open>kernel/dev/acpi/acpi_power.c\<close>: shared resources are switched off only by their last
      holder, and a state change leaves exactly the holds of the new state.

  \<^bold>\<open>Conventions.\<close> A structure is a record, a pointer to one of its instances a number; global variables
  are fields of the component's state record, which operations take and return. A function runs with
  the lock it holds; what other threads do while a lock is dropped is an argument (\<open>env\<close>, \<open>run\<close>), so
  that the theorems hold for all of them. Code outside the repository is an argument too: records
  such as \<open>platform\<close>, \<open>clock_env\<close>, \<open>runq_conf\<close>, \<open>cpu_topology\<close>, \<open>acpi\<close>, and named hypotheses such as
  \<open>clock_frame\<close>, \<open>runq_hooks_ok\<close>, \<open>topology_ok\<close> say what is relied on.

  \<^bold>\<open>Loops.\<close> No fuel is used. Loops over lists are structural recursions. Loops that might not end
  (\<open>callout_wait\<close>, \<open>softclock_loop\<close>, \<open>cycle_loop\<close>, \<open>bottom_loop\<close>) return an option, and that they
  return is proved: by the number of due callouts, and by the finite number of mounts. The bounds
  in hypotheses are those of the code's own arithmetic: tick distances below \<open>2 ^ 30\<close> so that
  wrapped differences are exact, a timer period below \<open>2 ^ 31\<close> counts, and sleeps that the 32-bit
  tick count can express (\<open>tl_short\<close>).

  \<^bold>\<open>Where the model is coarser than the code.\<close>

    \<^item> Callouts: a handler called by \<^verbatim>\<open>callout_softclock\<close> is one step; the end of a handler wakes its waiters without the brief release of the lock inside the wake-up;
      \<^verbatim>\<open>callout_wait\<close> has one environment step for dropping the interlock and for sleeping.
    \<^item> Time: \<^verbatim>\<open>tc_setclock\<close> reads the counter once where the code reads it twice, so that both readings
      agree; \<^verbatim>\<open>tc_half_wrap_ticks\<close> has no case for an absent counter, since the active and the
      selected counter are initialised statically and always exist in the model.
    \<^item> Clock: the statistics clock, the process timers and the scheduler tick called by \<^verbatim>\<open>hardclock\<close> are
      arguments that leave the modelled state alone (\<open>clock_frame\<close>).
    \<^item> Scheduler: the retries of try-locks are not modelled, and the lock is always obtained; the
      counts of queued threads are natural numbers; \<^verbatim>\<open>mi_switch\<close> is the variant with fast soft
      interrupts and clears the running mark of the previous thread in the same step; a priority
      change always goes to the scheduler's handler, not to that of the object slept on.
    \<^item> Memory files: offsets are unbounded integers, so that the sums near the largest offset do not
      wrap, and mappings are the references they hold.
    \<^item> File systems: the mount list is visited in the order an argument gives, and the file systems'
      own resume operation succeeds, since the code ignores its result.
    \<^item> Power resources: the firmware may do anything except call back into the file, which its lock
      forbids.

  \<^bold>\<open>Not modelled.\<close> Device drivers (graphics, wireless, audio, USB, storage, input), page tables and
  model-specific registers, the network protocols, the name cache and vnodes, and the frameworks
  that only call registered functions: their behaviour is that of hardware, of firmware, or of the
  kernel around them, which is not in the repository. User programs, scripts, patches to packages
  and test harnesses are input and output. Within the modelled files, the registration of sysctl nodes, debugger
  printers, and reports that only format model-specific registers are left out.
\<close>

end
